(* ===== verification/Prelude.thy ===== *)
theory Prelude
  imports Main "HOL-Library.Word"
begin

text \<open>
  Shared vocabulary of the development.

  \<^item> Machine integers: \<open>u8\<close>, \<open>u32\<close>, \<open>u64\<close> are words, so every \<open>+\<close>, \<open>-\<close> and \<open>++\<close> of the
    source wraps here exactly where it wraps there. \<open>std::int64_t\<close> clock values are \<open>int\<close>:
    the code only compares them and subtracts two nonnegative ones, which cannot overflow.
    \<open>std::size_t\<close> lengths of vectors and spans are \<open>nat\<close>.
  \<^item> Buffers: a vector is a list, \<open>memcpy\<close>, \<open>copy_n\<close> and \<open>fill_n\<close> are \<open>overwrite\<close>.
  \<^item> Linear searches (\<open>std::find_if\<close> and the hand-written scans) are \<open>find_index\<close>.
  \<^item> State machines: \<open>reachable\<close> over an initial predicate and a step relation, with the
    invariant rule packaged as the locale \<open>inductive_invariant\<close>.
\<close>

unbundle bit_operations_syntax

type_synonym u8 = "8 word"
type_synonym u32 = "32 word"
type_synonym u64 = "64 word"
type_synonym i64 = int

abbreviation UINT32_MAX :: u32 where
  "UINT32_MAX \<equiv> - 1"

abbreviation UINT64_MAX :: u64 where
  "UINT64_MAX \<equiv> - 1"

section \<open>Words\<close>

lemma word_le_max [simp]: "(x :: 'a :: len word) \<le> - 1"
  by (fact word_n1_ge)

lemma unat_max_u64: "unat (- 1 :: u64) = 2 ^ 64 - 1"
  by (simp add: unsigned_minus_1_eq_mask mask_eq_exp_minus_1)

lemma unat_max_u32: "unat (- 1 :: u32) = 2 ^ 32 - 1"
  by (simp add: unsigned_minus_1_eq_mask mask_eq_exp_minus_1)

lemma unat_lt_u64: "unat (x :: u64) < 2 ^ 64"
  using unsigned_less [of x] by simp

lemma unat_lt_u32: "unat (x :: u32) < 2 ^ 32"
  using unsigned_less [of x] by simp

lemma unat_Suc_word: "(x :: 'a :: len word) \<noteq> - 1 \<Longrightarrow> unat (x + 1) = Suc (unat x)"
  by (metis add.commute add_cancel_left_left add_eq_0_iff unatSuc)

lemma unat_pred_word: "(x :: 'a :: len word) \<noteq> 0 \<Longrightarrow> unat (x - 1) = unat x - 1"
  by (simp add: unat_minus_one)

lemma unat_gt_0_word: "0 < unat (x :: 'a :: len word) \<longleftrightarrow> x \<noteq> 0"
  by (simp add: unat_gt_0)

lemma word_plus_1_eq_0_iff: "(x :: 'a :: len word) + 1 = 0 \<longleftrightarrow> x = - 1"
  by (simp add: eq_neg_iff_add_eq_0)

lemma unat_ucast_u32_u64 [simp]: "unat (ucast (x :: u32) :: u64) = unat x"
proof -
  have "unat x < 2 ^ 64" using unat_lt_u32 [of x] by simp
  then show ?thesis by (simp add: unsigned_ucast_eq take_bit_nat_eq_self)
qed

section \<open>Arrays\<close>

text \<open>\<open>overwrite buf off data\<close>: the bytes of \<open>data\<close> copied over \<open>buf\<close> from offset \<open>off\<close> on.\<close>

definition overwrite :: "'a list \<Rightarrow> nat \<Rightarrow> 'a list \<Rightarrow> 'a list" where
  "overwrite buf off data = take off buf @ data @ drop (off + length data) buf"

lemma length_overwrite [simp]:
  "off + length data \<le> length buf \<Longrightarrow> length (overwrite buf off data) = length buf"
  by (simp add: overwrite_def)

lemma nth_overwrite:
  assumes "off + length data \<le> length buf" and "i < length buf"
  shows "overwrite buf off data ! i =
    (if off \<le> i \<and> i < off + length data then data ! (i - off) else buf ! i)"
  using assms by (auto simp: overwrite_def nth_append)

lemma take_drop_overwrite_same [simp]:
  "off + length data \<le> length buf \<Longrightarrow>
     take (length data) (drop off (overwrite buf off data)) = data"
  by (simp add: overwrite_def)

lemma take_drop_overwrite_other:
  assumes "off + length data \<le> length buf"
    and "a + n \<le> off \<or> off + length data \<le> a" and "a + n \<le> length buf"
  shows "take n (drop a (overwrite buf off data)) = take n (drop a buf)"
proof (rule nth_equalityI)
  show "length (take n (drop a (overwrite buf off data))) = length (take n (drop a buf))"
    using assms by simp
  fix i assume "i < length (take n (drop a (overwrite buf off data)))"
  then have "i < n" by simp
  with assms show "take n (drop a (overwrite buf off data)) ! i = take n (drop a buf) ! i"
    by (auto simp: nth_overwrite)
qed

lemma overwrite_Nil [simp]: "overwrite buf off [] = buf"
  by (simp add: overwrite_def)

section \<open>Linear search\<close>

text \<open>The first index at which \<open>P\<close> holds; \<open>None\<close> is the end iterator.\<close>

primrec find_index :: "('a \<Rightarrow> bool) \<Rightarrow> 'a list \<Rightarrow> nat option" where
  "find_index P [] = None"
| "find_index P (x # xs) = (if P x then Some 0 else map_option Suc (find_index P xs))"

lemma find_index_SomeD:
  "find_index P xs = Some i \<Longrightarrow> i < length xs \<and> P (xs ! i) \<and> (\<forall>j<i. \<not> P (xs ! j))"
proof (induction xs arbitrary: i)
  case Nil
  then show ?case by simp
next
  case (Cons x xs)
  show ?case
  proof (cases "P x")
    case True
    with Cons.prems show ?thesis by simp
  next
    case False
    with Cons.prems obtain k where k: "find_index P xs = Some k" "i = Suc k" by auto
    with Cons.IH [OF k(1)] False show ?thesis by (auto simp: nth_Cons split: nat.splits)
  qed
qed

lemma find_index_None_iff [simp]: "find_index P xs = None \<longleftrightarrow> (\<forall>x\<in>set xs. \<not> P x)"
  by (induction xs) auto

lemma find_index_Some_iff:
  "find_index P xs = Some i \<longleftrightarrow> i < length xs \<and> P (xs ! i) \<and> (\<forall>j<i. \<not> P (xs ! j))"
proof (induction xs arbitrary: i)
  case Nil
  then show ?case by simp
next
  case (Cons x xs)
  then show ?case by (cases i) (auto simp: All_less_Suc2)
qed

lemma find_index_is_Some: "x \<in> set xs \<Longrightarrow> P x \<Longrightarrow> \<exists>i. find_index P xs = Some i"
  by (meson find_index_None_iff option.exhaust)

section \<open>Counting\<close>

definition count_if :: "('a \<Rightarrow> bool) \<Rightarrow> 'a list \<Rightarrow> nat" where
  "count_if P xs = length (filter P xs)"

lemma count_if_Nil [simp]: "count_if P [] = 0"
  by (simp add: count_if_def)

lemma count_if_Cons [simp]: "count_if P (x # xs) = (if P x then Suc (count_if P xs) else count_if P xs)"
  by (simp add: count_if_def)

lemma count_if_append [simp]: "count_if P (xs @ ys) = count_if P xs + count_if P ys"
  by (simp add: count_if_def)

lemma count_if_replicate [simp]: "count_if P (replicate n x) = (if P x then n else 0)"
  by (induction n) auto

lemma count_if_le_length: "count_if P xs \<le> length xs"
  by (simp add: count_if_def)

lemma count_if_update:
  "i < length xs \<Longrightarrow>
     count_if P (xs[i := v]) + (if P (xs ! i) then 1 else 0) =
       count_if P xs + (if P v then 1 else 0)"
proof (induction xs arbitrary: i)
  case Nil
  then show ?case by simp
next
  case (Cons x xs)
  then show ?case by (cases i) fastforce+
qed

lemma count_if_eq_0_iff: "count_if P xs = 0 \<longleftrightarrow> (\<forall>x\<in>set xs. \<not> P x)"
  by (auto simp: count_if_def filter_empty_conv)

lemma count_if_cong: "(\<And>x. x \<in> set xs \<Longrightarrow> P x = Q x) \<Longrightarrow> count_if P xs = count_if Q xs"
  by (simp add: count_if_def cong: filter_cong)

section \<open>Reachable states\<close>

inductive reachable :: "('s \<Rightarrow> bool) \<Rightarrow> ('s \<Rightarrow> 's \<Rightarrow> bool) \<Rightarrow> 's \<Rightarrow> bool"
  for init :: "'s \<Rightarrow> bool" and step :: "'s \<Rightarrow> 's \<Rightarrow> bool" where
  reachable_init: "init s \<Longrightarrow> reachable init step s"
| reachable_step: "reachable init step s \<Longrightarrow> step s t \<Longrightarrow> reachable init step t"

locale inductive_invariant =
  fixes init :: "'s \<Rightarrow> bool"
    and step :: "'s \<Rightarrow> 's \<Rightarrow> bool"
    and inv :: "'s \<Rightarrow> bool"
  assumes inv_init: "init s \<Longrightarrow> inv s"
    and inv_step: "inv s \<Longrightarrow> step s t \<Longrightarrow> inv t"
begin

lemma holds_when_reachable:
  assumes "reachable init step s"
  shows "inv s"
  using assms
proof (induction rule: reachable.induct)
  case (reachable_init s)
  then show ?case by (rule inv_init)
next
  case (reachable_step s t)
  then show ?case by (blast intro: inv_step)
qed

lemma preserved_by_run:
  assumes "step\<^sup>*\<^sup>* s t" and "inv s"
  shows "inv t"
  using assms by (induction rule: rtranclp_induct) (auto intro: inv_step)

end

text \<open>
  A refinement map: every step of the detailed system, taken in a state that satisfies the
  invariant, is a step of the abstract system on the mapped states or leaves the mapped state alone.
\<close>

locale refinement_map = inductive_invariant init step inv
  for init :: "'s \<Rightarrow> bool" and step :: "'s \<Rightarrow> 's \<Rightarrow> bool" and inv :: "'s \<Rightarrow> bool" +
  fixes abstract_init :: "'a \<Rightarrow> bool"
    and abstract_step :: "'a \<Rightarrow> 'a \<Rightarrow> bool"
    and abs_state :: "'s \<Rightarrow> 'a"
  assumes abs_init: "init s \<Longrightarrow> abstract_init (abs_state s)"
    and abs_step: "inv s \<Longrightarrow> step s t \<Longrightarrow>
      abs_state t = abs_state s \<or> abstract_step (abs_state s) (abs_state t)"
begin

lemma run_refines:
  assumes "step\<^sup>*\<^sup>* s t" and "inv s"
  shows "abstract_step\<^sup>*\<^sup>* (abs_state s) (abs_state t)"
  using assms
proof (induction rule: rtranclp_induct)
  case base
  then show ?case by simp
next
  case (step t u)
  from step.hyps(1) step.prems have "inv t" by (rule preserved_by_run)
  with step.hyps(2) have "abs_state u = abs_state t \<or> abstract_step (abs_state t) (abs_state u)"
    by (rule abs_step [rotated])
  with step.IH step.prems show ?case by (auto intro: rtranclp.rtrancl_into_rtrancl)
qed

end

text \<open>
  Handles that carry a generation number. A slot's generation never decreases, and a handle
  is honoured only while it equals the slot's generation. Once the slot has moved past the
  handle's generation the handle is dead for the rest of the run.
\<close>

locale generation_guard =
  fixes step :: "'s \<Rightarrow> 's \<Rightarrow> bool"
    and inv :: "'s \<Rightarrow> bool"
    and slot_generation :: "'s \<Rightarrow> nat \<Rightarrow> nat"
    and honoured :: "'s \<Rightarrow> 'h \<Rightarrow> bool"
    and handle_slot :: "'h \<Rightarrow> nat"
    and handle_generation :: "'h \<Rightarrow> nat"
  assumes inv_kept: "inv s \<Longrightarrow> step s t \<Longrightarrow> inv t"
    and generation_mono: "inv s \<Longrightarrow> step s t \<Longrightarrow> slot_generation s i \<le> slot_generation t i"
    and honoured_generation:
      "inv s \<Longrightarrow> honoured s h \<Longrightarrow> slot_generation s (handle_slot h) = handle_generation h"
begin

lemma generation_mono_run:
  assumes "step\<^sup>*\<^sup>* s t" and "inv s"
  shows "inv t \<and> slot_generation s i \<le> slot_generation t i"
  using assms
proof (induction rule: rtranclp_induct)
  case base
  then show ?case by simp
next
  case (step t u)
  then show ?case by (meson generation_mono inv_kept order_trans)
qed

lemma stale_forever:
  assumes "inv s" and "handle_generation h < slot_generation s (handle_slot h)"
    and "step\<^sup>*\<^sup>* s t"
  shows "\<not> honoured t h"
proof
  assume "honoured t h"
  from generation_mono_run [OF assms(3,1), of "handle_slot h"]
  have "inv t" and le: "slot_generation s (handle_slot h) \<le> slot_generation t (handle_slot h)"
    by blast+
  with \<open>honoured t h\<close> have "slot_generation t (handle_slot h) = handle_generation h"
    by (blast dest: honoured_generation)
  with le assms(2) show False by simp
qed

end

end
