(* ===== verification/Ring.thy ===== *)
theory Ring
  imports Prelude
begin

text \<open>
  The bounded queue both mailbox directions are built on: a fixed vector, a 32-bit head and a
  32-bit size, with the tail index computed as \<open>(head + size) % buffer.size()\<close>. The sum is a
  32-bit sum in the source, so it is exact only while the vector has at most \<open>2 ^ 31\<close> entries;
  \<open>ring_ok\<close> says so. The interface the mailbox relies on is the locale \<open>bounded_fifo\<close>.
\<close>

section \<open>The interface\<close>

locale bounded_fifo =
  fixes push :: "'a \<Rightarrow> 'q \<Rightarrow> 'q"
    and pop :: "'q \<Rightarrow> 'q"
    and front :: "'q \<Rightarrow> 'a"
    and contents :: "'q \<Rightarrow> 'a list"
    and capacity :: "'q \<Rightarrow> nat"
    and invar :: "'q \<Rightarrow> bool"
  assumes length_contents: "invar q \<Longrightarrow> length (contents q) \<le> capacity q"
    and contents_push:
      "invar q \<Longrightarrow> length (contents q) < capacity q \<Longrightarrow> contents (push x q) = contents q @ [x]"
    and invar_push: "invar q \<Longrightarrow> length (contents q) < capacity q \<Longrightarrow> invar (push x q)"
    and capacity_push: "capacity (push x q) = capacity q"
    and front_contents: "invar q \<Longrightarrow> contents q \<noteq> [] \<Longrightarrow> front q = hd (contents q)"
    and contents_pop: "invar q \<Longrightarrow> contents q \<noteq> [] \<Longrightarrow> contents (pop q) = tl (contents q)"
    and invar_pop: "invar q \<Longrightarrow> contents q \<noteq> [] \<Longrightarrow> invar (pop q)"
    and capacity_pop: "capacity (pop q) = capacity q"
begin

lemma front_then_pop:
  assumes "invar q" and "contents q \<noteq> []"
  shows "contents q = front q # contents (pop q)"
  using assms by (simp add: front_contents contents_pop)

lemma pushes:
  "invar q \<Longrightarrow> length (contents q) + length xs \<le> capacity q \<Longrightarrow>
     invar (fold push xs q) \<and> contents (fold push xs q) = contents q @ xs"
proof (induction xs arbitrary: q)
  case Nil
  then show ?case by simp
next
  case (Cons x xs)
  then have "length (contents q) < capacity q" by simp
  with Cons show ?case
    by (simp add: contents_push invar_push capacity_push)
qed

end

section \<open>The ring\<close>

record 'a ring =
  rg_buffer :: "'a list"
  rg_head :: u32
  rg_size :: u32

definition ring_tail :: "'a ring \<Rightarrow> nat" where
  "ring_tail r = unat (rg_head r + rg_size r) mod length (rg_buffer r)"

definition ring_full :: "'a ring \<Rightarrow> bool" where
  "ring_full r \<longleftrightarrow> unat (rg_size r) = length (rg_buffer r)"

definition ring_push :: "'a \<Rightarrow> 'a ring \<Rightarrow> 'a ring" where
  "ring_push x r = r\<lparr>rg_buffer := (rg_buffer r)[ring_tail r := x], rg_size := rg_size r + 1\<rparr>"

definition ring_front :: "'a ring \<Rightarrow> 'a" where
  "ring_front r = rg_buffer r ! unat (rg_head r)"

definition ring_pop :: "'a ring \<Rightarrow> 'a ring" where
  "ring_pop r = r\<lparr>rg_head := of_nat (unat (rg_head r + 1) mod length (rg_buffer r)),
                  rg_size := rg_size r - 1\<rparr>"

definition ring_contents :: "'a ring \<Rightarrow> 'a list" where
  "ring_contents r =
     map (\<lambda>k. rg_buffer r ! ((unat (rg_head r) + k) mod length (rg_buffer r)))
       [0..<unat (rg_size r)]"

definition ring_capacity :: "'a ring \<Rightarrow> nat" where
  "ring_capacity r = length (rg_buffer r)"

definition ring_ok :: "'a ring \<Rightarrow> bool" where
  "ring_ok r \<longleftrightarrow> unat (rg_head r) < length (rg_buffer r) \<and>
     unat (rg_size r) \<le> length (rg_buffer r) \<and> length (rg_buffer r) \<le> 2 ^ 31"

lemma length_ring_contents [simp]: "length (ring_contents r) = unat (rg_size r)"
  by (simp add: ring_contents_def)

lemma ring_contents_empty_iff: "ring_contents r = [] \<longleftrightarrow> rg_size r = 0"
  by (metis length_0_conv length_ring_contents unat_0_iff)

lemma unat_add_small_u32: "unat (a :: u32) + unat b < 2 ^ 32 \<Longrightarrow> unat (a + b) = unat a + unat b"
  using unat_add_lem [of a b] by simp

lemma ring_tail_eq:
  assumes "ring_ok r" and "unat (rg_size r) < length (rg_buffer r)"
  shows "ring_tail r = (unat (rg_head r) + unat (rg_size r)) mod length (rg_buffer r)"
proof -
  have "unat (rg_head r) + unat (rg_size r) < 2 ^ 32"
    using assms by (simp add: ring_ok_def)
  then show ?thesis by (simp add: ring_tail_def unat_add_small_u32)
qed

lemma mod_window_inj:
  assumes "(a + i) mod n = (a + j) mod n" and "i < n" and "j < (n :: nat)"
  shows "i = j"
  using assms
proof (induction i j rule: linorder_wlog)
  case (le i j)
  then have "n dvd (a + j) - (a + i)"
    by (metis add_le_cancel_left mod_eq_dvd_iff_nat)
  then have "n dvd j - i" by simp
  with le show ?case by (cases "j - i = 0") (auto dest: dvd_imp_le)
next
  case (sym i j)
  then show ?case by simp
qed

lemma ring_contents_push:
  assumes "ring_ok r" and "unat (rg_size r) < length (rg_buffer r)"
  shows "ring_contents (ring_push x r) = ring_contents r @ [x]"
proof -
  let ?n = "length (rg_buffer r)" and ?h = "unat (rg_head r)" and ?s = "unat (rg_size r)"
  have s: "unat (rg_size r + 1) = Suc ?s"
  proof (rule unat_Suc_word)
    show "rg_size r \<noteq> - 1"
    proof
      assume "rg_size r = - 1"
      with assms show False by (auto simp: ring_ok_def unat_max_u32)
    qed
  qed
  have tail: "ring_tail r = (?h + ?s) mod ?n" by (rule ring_tail_eq [OF assms])
  have keep: "(rg_buffer r)[(?h + ?s) mod ?n := x] ! ((?h + k) mod ?n) =
      rg_buffer r ! ((?h + k) mod ?n)" if "k < ?s" for k
  proof -
    have "(?h + k) mod ?n \<noteq> (?h + ?s) mod ?n"
      using mod_window_inj [of ?h k ?n ?s] that assms(2) by auto
    then show ?thesis by simp
  qed
  have "(?h + ?s) mod ?n < ?n" using assms(2) by (intro mod_less_divisor) linarith
  with keep s tail show ?thesis
    by (simp add: ring_contents_def ring_push_def)
qed

lemma ring_contents_pop:
  assumes "ring_ok r" and "rg_size r \<noteq> 0"
  shows "ring_contents (ring_pop r) = tl (ring_contents r)" and "ring_ok (ring_pop r)"
proof -
  let ?n = "length (rg_buffer r)" and ?h = "unat (rg_head r)" and ?s = "unat (rg_size r)"
  have h: "unat (rg_head r + 1) = ?h + 1"
    using assms(1) unat_add_small_u32 [of "rg_head r" 1] by (simp add: ring_ok_def)
  have s: "unat (rg_size r - 1) = ?s - 1" by (rule unat_pred_word [OF assms(2)])
  have pos: "0 < ?s" using assms(2) by (simp add: unat_gt_0_word)
  have "(?h + 1) mod ?n < 2 ^ 32"
    using assms(1) by (metis h mod_less_eq_dividend order_le_less_trans unat_lt_u32)
  then have head: "unat (rg_head (ring_pop r)) = (?h + 1) mod ?n"
    by (simp add: ring_pop_def h unat_of_nat del: of_nat_mod)
  have "ring_contents (ring_pop r) ! k = tl (ring_contents r) ! k" if "k < ?s - 1" for k
  proof -
    from that have "Suc k < ?s" by linarith
    with that head s show ?thesis
      by (simp add: ring_contents_def ring_pop_def nth_tl mod_simps)
  qed
  then show "ring_contents (ring_pop r) = tl (ring_contents r)"
    by (intro nth_equalityI) (simp_all add: ring_pop_def s)
  show "ring_ok (ring_pop r)"
    using assms(1) head s pos by (auto simp: ring_ok_def ring_pop_def intro!: mod_less_divisor)
qed

lemma ring_ok_push:
  assumes "ring_ok r" and "unat (rg_size r) < length (rg_buffer r)"
  shows "ring_ok (ring_push x r)"
  using assms arg_cong [OF ring_contents_push [OF assms, of x], of length]
  by (simp add: ring_ok_def) (simp add: ring_push_def)

lemma ring_front_contents:
  assumes "ring_ok r" and "rg_size r \<noteq> 0"
  shows "ring_front r = hd (ring_contents r)"
proof -
  have "0 < unat (rg_size r)" using assms(2) by (simp add: unat_gt_0_word)
  then show ?thesis
    using assms(1) by (simp add: ring_front_def ring_contents_def ring_ok_def hd_map upt_conv_Cons)
qed

interpretation ring_fifo: bounded_fifo ring_push ring_pop ring_front ring_contents ring_capacity ring_ok
proof unfold_locales
  show "ring_ok r \<Longrightarrow> length (ring_contents r) \<le> ring_capacity r" for r :: "'a ring"
    by (simp add: ring_ok_def ring_capacity_def)
  show "ring_ok r \<Longrightarrow> length (ring_contents r) < ring_capacity r \<Longrightarrow>
      ring_contents (ring_push x r) = ring_contents r @ [x]" for r and x :: 'a
    by (simp add: ring_contents_push ring_capacity_def)
  show "ring_ok r \<Longrightarrow> length (ring_contents r) < ring_capacity r \<Longrightarrow> ring_ok (ring_push x r)"
    for r and x :: 'a
    by (simp add: ring_ok_push ring_capacity_def)
  show "ring_ok r \<Longrightarrow> ring_contents r \<noteq> [] \<Longrightarrow> ring_front r = hd (ring_contents r)"
    for r :: "'a ring"
    by (simp add: ring_front_contents ring_contents_empty_iff)
  show "ring_ok r \<Longrightarrow> ring_contents r \<noteq> [] \<Longrightarrow> ring_contents (ring_pop r) = tl (ring_contents r)"
    and "ring_ok r \<Longrightarrow> ring_contents r \<noteq> [] \<Longrightarrow> ring_ok (ring_pop r)" for r :: "'a ring"
    by (simp_all add: ring_contents_pop ring_contents_empty_iff)
qed (simp_all add: ring_capacity_def ring_push_def ring_pop_def)

end
