(* ===== verification/Core.thy ===== *)
theory Core
  imports Prelude
begin

text \<open>
  \<open>include/pih/core\<close> and \<open>src/core/status.cpp\<close>: the status value every operation returns, the
  \<open>Result\<close> sum, and the overflow-checked 64-bit arithmetic of \<open>checked_math.h\<close>.

  \<open>Result<T>\<close> is \<open>status + 'a\<close> with \<open>Inl\<close> the error; an operation that returns a bare \<open>Status\<close>
  returns \<open>status\<close>, tested with \<open>ok\<close>. Every error keeps the source's message.
\<close>

section \<open>Messages\<close>

definition msg_u64_addition_overflow :: string where
  "msg_u64_addition_overflow = ''u64 addition overflow''"

definition msg_u64_multiplication_overflow :: string where
  "msg_u64_multiplication_overflow = ''u64 multiplication overflow''"

definition msg_alignment_must_be_a_nonzero_power_of_two :: string where
  "msg_alignment_must_be_a_nonzero_power_of_two = ''alignment must be a nonzero power of two''"

section \<open>Status\<close>

datatype status_code =
    kOk
  | kInvalidArgument
  | kResourceExhausted
  | kFailedPrecondition
  | kInternal
  | kUnavailable
  | kDeadlineExceeded

record status =
  st_code :: status_code
  st_message :: string

definition kMaxMessageBytes :: nat where
  "kMaxMessageBytes = 4096"

definition make_status :: "status_code \<Rightarrow> string \<Rightarrow> status" where
  "make_status c m =
     \<lparr>st_code = c,
      st_message = (if c = kOk then []
                    else if kMaxMessageBytes < length m then take kMaxMessageBytes m
                    else m)\<rparr>"

definition Ok :: status where
  "Ok = make_status kOk []"

definition InvalidArgument :: "string \<Rightarrow> status" where
  "InvalidArgument m = make_status kInvalidArgument m"

definition ResourceExhausted :: "string \<Rightarrow> status" where
  "ResourceExhausted m = make_status kResourceExhausted m"

definition FailedPrecondition :: "string \<Rightarrow> status" where
  "FailedPrecondition m = make_status kFailedPrecondition m"

definition Internal :: "string \<Rightarrow> status" where
  "Internal m = make_status kInternal m"

definition Unavailable :: "string \<Rightarrow> status" where
  "Unavailable m = make_status kUnavailable m"

definition DeadlineExceeded :: "string \<Rightarrow> status" where
  "DeadlineExceeded m = make_status kDeadlineExceeded m"

definition ok :: "status \<Rightarrow> bool" where
  "ok s \<longleftrightarrow> st_code s = kOk"

lemma st_code_simps [simp]:
  "st_code Ok = kOk"
  "st_code (InvalidArgument m) = kInvalidArgument"
  "st_code (ResourceExhausted m) = kResourceExhausted"
  "st_code (FailedPrecondition m) = kFailedPrecondition"
  "st_code (Internal m) = kInternal"
  "st_code (Unavailable m) = kUnavailable"
  "st_code (DeadlineExceeded m) = kDeadlineExceeded"
  by (simp_all add: Ok_def InvalidArgument_def ResourceExhausted_def FailedPrecondition_def
      Internal_def Unavailable_def DeadlineExceeded_def make_status_def)

lemma ok_simps [simp]:
  "ok Ok"
  "\<not> ok (InvalidArgument m)"
  "\<not> ok (ResourceExhausted m)"
  "\<not> ok (FailedPrecondition m)"
  "\<not> ok (Internal m)"
  "\<not> ok (Unavailable m)"
  "\<not> ok (DeadlineExceeded m)"
  by (simp_all add: ok_def)

lemma status_message_bound: "length (st_message (make_status c m)) \<le> kMaxMessageBytes"
  by (simp add: make_status_def)

lemma error_ne_Ok [simp]:
  "InvalidArgument m \<noteq> Ok" "ResourceExhausted m \<noteq> Ok" "FailedPrecondition m \<noteq> Ok"
  "Internal m \<noteq> Ok" "Ok \<noteq> InvalidArgument m" "Ok \<noteq> ResourceExhausted m"
  "Ok \<noteq> FailedPrecondition m" "Ok \<noteq> Internal m"
  by (simp_all add: Ok_def InvalidArgument_def ResourceExhausted_def FailedPrecondition_def
      Internal_def make_status_def)

lemma error_codes_distinct [simp]:
  "InvalidArgument m \<noteq> ResourceExhausted n" "InvalidArgument m \<noteq> FailedPrecondition n" "InvalidArgument m \<noteq> Internal n"
  "InvalidArgument m \<noteq> Unavailable n" "InvalidArgument m \<noteq> DeadlineExceeded n" "ResourceExhausted m \<noteq> InvalidArgument n"
  "ResourceExhausted m \<noteq> FailedPrecondition n" "ResourceExhausted m \<noteq> Internal n" "ResourceExhausted m \<noteq> Unavailable n"
  "ResourceExhausted m \<noteq> DeadlineExceeded n" "FailedPrecondition m \<noteq> InvalidArgument n" "FailedPrecondition m \<noteq> ResourceExhausted n"
  "FailedPrecondition m \<noteq> Internal n" "FailedPrecondition m \<noteq> Unavailable n" "FailedPrecondition m \<noteq> DeadlineExceeded n"
  "Internal m \<noteq> InvalidArgument n" "Internal m \<noteq> ResourceExhausted n" "Internal m \<noteq> FailedPrecondition n"
  "Internal m \<noteq> Unavailable n" "Internal m \<noteq> DeadlineExceeded n" "Unavailable m \<noteq> InvalidArgument n"
  "Unavailable m \<noteq> ResourceExhausted n" "Unavailable m \<noteq> FailedPrecondition n" "Unavailable m \<noteq> Internal n"
  "Unavailable m \<noteq> DeadlineExceeded n" "DeadlineExceeded m \<noteq> InvalidArgument n" "DeadlineExceeded m \<noteq> ResourceExhausted n"
  "DeadlineExceeded m \<noteq> FailedPrecondition n" "DeadlineExceeded m \<noteq> Internal n" "DeadlineExceeded m \<noteq> Unavailable n"
  by (auto dest: arg_cong [of _ _ st_code])

text \<open>The first failure of a sequence of checks, in order; \<open>Ok\<close> when all pass.\<close>

primrec first_error :: "status list \<Rightarrow> status" where
  "first_error [] = Ok"
| "first_error (s # ss) = (if ok s then first_error ss else s)"

lemma ok_first_error [simp]: "ok (first_error ss) \<longleftrightarrow> (\<forall>s\<in>set ss. ok s)"
  by (induction ss) auto

text \<open>
  An operation that returns a status with the new state is transactional when every error leaves
  the state as it was. The rewrite rules decide this branch by branch.
\<close>

definition transactional :: "'s \<Rightarrow> status \<times> 's \<Rightarrow> bool" where
  "transactional s r \<longleftrightarrow> ok (fst r) \<or> snd r = s"

lemma transactional_simps [simp]:
  "transactional s (e, s)"
  "transactional s (Ok, t)"
  "transactional s (if c then r else r') \<longleftrightarrow> (if c then transactional s r else transactional s r')"
  by (simp_all add: transactional_def)

lemma transactionalD: "transactional s r \<Longrightarrow> \<not> ok (fst r) \<Longrightarrow> r = (fst r, s)"
  by (cases r) (auto simp: transactional_def)

section \<open>Result\<close>

type_synonym 'a result = "status + 'a"

definition is_ok :: "'a result \<Rightarrow> bool" where
  "is_ok r = (case r of Inl _ \<Rightarrow> False | Inr _ \<Rightarrow> True)"

lemma is_ok_simps [simp]: "is_ok (Inr v)" "\<not> is_ok (Inl e)"
  by (simp_all add: is_ok_def)

lemma is_ok_iff: "is_ok r \<longleftrightarrow> (\<exists>v. r = Inr v)"
  by (cases r) auto

definition transactional_result :: "'s \<Rightarrow> 'a result \<times> 's \<Rightarrow> bool" where
  "transactional_result s r \<longleftrightarrow> is_ok (fst r) \<or> snd r = s"

lemma transactional_result_simps [simp]:
  "transactional_result s (v, s)"
  "transactional_result s (Inr w, t)"
  "transactional_result s (if c then r else r') \<longleftrightarrow>
     (if c then transactional_result s r else transactional_result s r')"
  by (simp_all add: transactional_result_def)

lemma transactional_resultD: "transactional_result s r \<Longrightarrow> fst r = Inl e \<Longrightarrow> r = (Inl e, s)"
  by (cases r) (auto simp: transactional_result_def)

section \<open>Checked arithmetic\<close>

definition checked_add_u64 :: "u64 \<Rightarrow> u64 \<Rightarrow> u64 result" where
  "checked_add_u64 lhs rhs =
     (if rhs > UINT64_MAX - lhs then Inl (ResourceExhausted msg_u64_addition_overflow)
      else Inr (lhs + rhs))"

definition checked_mul_u64 :: "u64 \<Rightarrow> u64 \<Rightarrow> u64 result" where
  "checked_mul_u64 lhs rhs =
     (if lhs \<noteq> 0 \<and> rhs > UINT64_MAX div lhs
      then Inl (ResourceExhausted msg_u64_multiplication_overflow)
      else Inr (lhs * rhs))"

definition checked_align_up_u64 :: "u64 \<Rightarrow> u64 \<Rightarrow> u64 result" where
  "checked_align_up_u64 value alignment =
     (if alignment = 0 \<or> alignment AND (alignment - 1) \<noteq> 0
      then Inl (InvalidArgument msg_alignment_must_be_a_nonzero_power_of_two)
      else let mask = alignment - 1 in
        case checked_add_u64 value mask of
          Inl e \<Rightarrow> Inl e
        | Inr s \<Rightarrow> Inr (s AND NOT mask))"

lemma unat_max_minus: "unat (UINT64_MAX - x) = 2 ^ 64 - 1 - unat x"
  by (simp add: unat_sub unat_max_u64)

lemma checked_add_u64_Inr_iff:
  "checked_add_u64 a b = Inr c \<longleftrightarrow> unat a + unat b < 2 ^ 64 \<and> unat c = unat a + unat b"
proof -
  have cond: "b > UINT64_MAX - a \<longleftrightarrow> \<not> unat a + unat b < 2 ^ 64"
    using unat_lt_u64 [of a] unat_lt_u64 [of b]
    by (auto simp: word_less_nat_alt unat_max_minus)
  show ?thesis
  proof (cases "unat a + unat b < 2 ^ 64")
    case True
    then have "unat (a + b) = unat a + unat b"
      using unat_add_lem [of a b] by simp
    with True cond show ?thesis
      by (auto simp: checked_add_u64_def word_unat_eq_iff)
  next
    case False
    with cond show ?thesis by (simp add: checked_add_u64_def)
  qed
qed

lemma checked_add_u64_Inl_iff:
  "checked_add_u64 a b = Inl e \<longleftrightarrow>
     2 ^ 64 \<le> unat a + unat b \<and> e = ResourceExhausted msg_u64_addition_overflow"
  using unat_lt_u64 [of a] unat_lt_u64 [of b]
  by (auto simp: checked_add_u64_def word_less_nat_alt unat_max_minus)

lemma checked_mul_u64_Inr_iff:
  "checked_mul_u64 a b = Inr c \<longleftrightarrow> unat a * unat b < 2 ^ 64 \<and> unat c = unat a * unat b"
proof -
  have cond: "a \<noteq> 0 \<and> b > UINT64_MAX div a \<longleftrightarrow> \<not> unat a * unat b < 2 ^ 64"
  proof (cases "a = 0")
    case False
    then have pos: "0 < unat a" by (simp add: unat_gt_0_word)
    have "b > UINT64_MAX div a \<longleftrightarrow> (2 ^ 64 - 1) div unat a < unat b"
      by (simp add: word_less_nat_alt unat_div unat_max_u64)
    also have "\<dots> \<longleftrightarrow> 2 ^ 64 - 1 < unat b * unat a"
      using pos by (simp add: div_less_iff_less_mult)
    finally show ?thesis using False by (auto simp: mult.commute)
  qed simp
  show ?thesis
  proof (cases "unat a * unat b < 2 ^ 64")
    case True
    then have "unat (a * b) = unat a * unat b"
      using unat_mult_lem [of a b] by simp
    with True cond show ?thesis
      by (auto simp: checked_mul_u64_def word_unat_eq_iff)
  next
    case False
    with cond show ?thesis by (simp add: checked_mul_u64_def)
  qed
qed

section \<open>Alignment\<close>

lemma nat_and_pred_pow2:
  "0 < n \<Longrightarrow> n AND (n - 1) = 0 \<Longrightarrow> \<exists>k. (n :: nat) = 2 ^ k"
proof (induction n rule: less_induct)
  case (less n)
  show ?case
  proof (cases "even n")
    case True
    then obtain m where n: "n = 2 * m" by (elim evenE)
    with less.prems have m: "0 < m" by simp
    then have "n - 1 = 2 * (m - 1) + 1" using n by simp
    then have "n AND (n - 1) = 2 * (m AND (m - 1))"
      using n by (subst and_rec) simp
    with less.prems have "m AND (m - 1) = 0" by simp
    with less.IH [of m] m n obtain k where "m = 2 ^ k" by auto
    with n have "n = 2 ^ Suc k" by simp
    then show ?thesis by blast
  next
    case False
    then obtain m where n: "n = 2 * m + 1" by (elim oddE)
    then have "n AND (n - 1) = 2 * m" by (subst and_rec) simp
    with less.prems n have "n = 2 ^ 0" by simp
    then show ?thesis by blast
  qed
qed

lemma unat_pow2_u64:
  assumes "k < 64"
  shows "unat (2 ^ k :: u64) = 2 ^ k"
proof -
  have "(2 :: nat) ^ k < 2 ^ 64" using assms by (intro power_strict_increasing) simp_all
  moreover have "(2 ^ k :: u64) = of_nat (2 ^ k)" by simp
  ultimately show ?thesis by (simp only: unat_of_nat) simp
qed

lemma u64_pow2_test:
  "a \<noteq> 0 \<and> (a :: u64) AND (a - 1) = 0 \<longleftrightarrow> (\<exists>k<64. a = 2 ^ k)"
proof
  assume a: "a \<noteq> 0 \<and> a AND (a - 1) = 0"
  then have "unat a AND (unat a - 1) = 0"
    by (metis unat_pred_word unsigned_and_eq unsigned_0)
  with a obtain k where k: "unat a = 2 ^ k"
    using nat_and_pred_pow2 [of "unat a"] by (auto simp: unat_gt_0_word)
  with unat_lt_u64 [of a] have "k < 64"
    by (simp only: power_strict_increasing_iff [of 2])
  moreover from k this have "a = 2 ^ k"
    by (simp add: word_unat_eq_iff unat_pow2_u64)
  ultimately show "\<exists>k<64. a = 2 ^ k" by blast
next
  assume "\<exists>k<64. a = 2 ^ k"
  then obtain k where k: "k < 64" "a = 2 ^ k" by blast
  then have "a \<noteq> 0" by (simp add: exp_eq_zero_iff)
  moreover have "a AND (a - 1) = 0"
    unfolding k(2) mask_eq_decr_exp [symmetric]
    by (rule bit_word_eqI) (simp add: bit_and_iff bit_mask_iff bit_exp_iff)
  ultimately show "a \<noteq> 0 \<and> a AND (a - 1) = 0" by blast
qed

lemma unat_clear_low_bits:
  assumes "k < 64"
  shows "unat ((s :: u64) AND NOT (2 ^ k - 1)) = unat s div 2 ^ k * 2 ^ k"
proof -
  have "s AND NOT (2 ^ k - 1) = push_bit k (drop_bit k s)"
    unfolding mask_eq_decr_exp [symmetric]
    by (rule bit_word_eqI)
      (auto simp: bit_and_iff bit_not_iff bit_mask_iff bit_push_bit_iff bit_drop_bit_eq)
  moreover have "unat s div 2 ^ k * 2 ^ k < 2 ^ 64"
    using unat_lt_u64 [of s] by (metis div_times_less_eq_dividend order_le_less_trans)
  ultimately show ?thesis
    by (simp only: unsigned_push_bit_eq unsigned_drop_bit_eq)
      (use unat_lt_u64 [of s] in \<open>simp add: push_bit_eq_mult drop_bit_eq_div take_bit_eq_mod\<close>)
qed

lemma round_up_nat:
  assumes "0 < (d :: nat)"
  shows "r = (v + (d - 1)) div d * d \<longleftrightarrow> d dvd r \<and> v \<le> r \<and> r < v + d"
proof
  assume r: "r = (v + (d - 1)) div d * d"
  have "(v + (d - 1)) = r + (v + (d - 1)) mod d" using r by simp
  moreover have "(v + (d - 1)) mod d < d" using assms by simp
  ultimately have "v \<le> r \<and> r < v + d" using assms by linarith
  with r show "d dvd r \<and> v \<le> r \<and> r < v + d" by simp
next
  assume "d dvd r \<and> v \<le> r \<and> r < v + d"
  then obtain q where q: "r = d * q" "v \<le> d * q" "d * q < v + d" by (auto simp: dvd_def)
  then have "(v + (d - 1)) div d = q"
    using assms by (intro div_nat_eqI) (auto simp: algebra_simps)
  with q show "r = (v + (d - 1)) div d * d" by simp
qed

text \<open>
  C1. \<open>checked_align_up_u64\<close> succeeds exactly when the alignment is a power of two and the sum
  with the mask fits in 64 bits, and then it returns the least multiple of the alignment that
  is not below the value.
\<close>

theorem checked_align_up_u64_correct:
  "checked_align_up_u64 v a = Inr r \<longleftrightarrow>
     (\<exists>k<64. a = 2 ^ k) \<and> unat v + (unat a - 1) < 2 ^ 64 \<and>
     unat a dvd unat r \<and> unat v \<le> unat r \<and> unat r < unat v + unat a"
proof (cases "\<exists>k<64. a = 2 ^ k")
  case False
  then show ?thesis
    using u64_pow2_test [of a] by (auto simp: checked_align_up_u64_def)
next
  case True
  then obtain k where k: "k < 64" "a = 2 ^ k" by blast
  then have a0: "a \<noteq> 0" and test: "a AND (a - 1) = 0"
    using u64_pow2_test [of a] by blast+
  have ua: "unat a = 2 ^ k" using k unat_pow2_u64 by simp
  have mask: "unat (a - 1) = unat a - 1" by (rule unat_pred_word [OF a0])
  show ?thesis
  proof (cases "unat v + (unat a - 1) < 2 ^ 64")
    case False
    then obtain e where "checked_add_u64 v (a - 1) = Inl e"
      using mask by (auto simp: checked_add_u64_Inl_iff not_less)
    with a0 test False show ?thesis
      by (simp add: checked_align_up_u64_def Let_def)
  next
    case fits: True
    then have "checked_add_u64 v (a - 1) = Inr (v + (a - 1))"
      using mask unat_add_lem [of v "a - 1"] by (simp add: checked_add_u64_Inr_iff)
    moreover have "unat (v + (a - 1)) = unat v + (unat a - 1)"
      using fits mask unat_add_lem [of v "a - 1"] by simp
    moreover from k(2) this
    have "unat (v + (a - 1) AND NOT (a - 1)) = (unat v + (unat a - 1)) div unat a * unat a"
      using unat_clear_low_bits [OF k(1), of "v + (a - 1)"] ua by simp
    ultimately have "checked_align_up_u64 v a = Inr r \<longleftrightarrow>
        unat r = (unat v + (unat a - 1)) div unat a * unat a"
      using a0 test
      by (simp add: checked_align_up_u64_def Let_def) (metis unsigned_word_eqI)
    also have "\<dots> \<longleftrightarrow> unat a dvd unat r \<and> unat v \<le> unat r \<and> unat r < unat v + unat a"
      by (rule round_up_nat) (simp add: ua)
    finally show ?thesis using True fits by simp
  qed
qed

end
