(* ===== verification/Sha256.thy ===== *)
theory Sha256
  imports Core
begin

text \<open>
  \<open>src/core/sha256.cpp\<close>: the streaming SHA-256 object, its digest type and the lowercase hex
  codec. The object's state is the chaining value, the 64-byte block buffer, the byte count and
  the finalized flag. The specification is the padded message cut into blocks and folded through
  the compression function; \<open>represents\<close> is the refinement relation between the two.
\<close>

section \<open>Messages\<close>

definition msg_SHA_256_text_must_be_lowercase_hexadecimal :: string where
  "msg_SHA_256_text_must_be_lowercase_hexadecimal = ''SHA-256 text must be lowercase hexadecimal''"

definition msg_SHA_256_text_must_contain_exactly_64_digits :: string where
  "msg_SHA_256_text_must_contain_exactly_64_digits = ''SHA-256 text must contain exactly 64 digits''"

definition msg_SHA_256_state_is_already_finalized :: string where
  "msg_SHA_256_state_is_already_finalized = ''SHA-256 state is already finalized''"

definition msg_SHA_256_bit_length_overflows_u64 :: string where
  "msg_SHA_256_bit_length_overflows_u64 = ''SHA-256 bit length overflows u64''"

section \<open>Digest\<close>

record Sha256Digest =
  dg_bytes :: "u8 list"

definition zero_digest :: Sha256Digest where
  "zero_digest = \<lparr>dg_bytes = replicate 32 0\<rparr>"

definition nibble :: "char \<Rightarrow> int" where
  "nibble c =
     (let n = int (of_char c) in
      if 48 \<le> n \<and> n \<le> 57 then n - 48
      else if 97 \<le> n \<and> n \<le> 102 then n - 97 + 10
      else -1)"

fun parse_hex_pairs :: "string \<Rightarrow> u8 list result" where
  "parse_hex_pairs (h # l # rest) =
     (if nibble h < 0 \<or> nibble l < 0
      then Inl (InvalidArgument msg_SHA_256_text_must_be_lowercase_hexadecimal)
      else case parse_hex_pairs rest of
             Inl e \<Rightarrow> Inl e
           | Inr bs \<Rightarrow> Inr (word_of_int (push_bit 4 (nibble h) OR nibble l) # bs))"
| "parse_hex_pairs _ = Inr []"

definition ParseHex :: "string \<Rightarrow> Sha256Digest result" where
  "ParseHex value =
     (if length value \<noteq> 64
      then Inl (InvalidArgument msg_SHA_256_text_must_contain_exactly_64_digits)
      else case parse_hex_pairs value of Inl e \<Rightarrow> Inl e | Inr bs \<Rightarrow> Inr \<lparr>dg_bytes = bs\<rparr>)"

definition kHex :: string where
  "kHex = ''0123456789abcdef''"

definition hex_of_byte :: "u8 \<Rightarrow> string" where
  "hex_of_byte b = [kHex ! unat (drop_bit 4 b), kHex ! unat (b AND 0x0f)]"

definition hex :: "Sha256Digest \<Rightarrow> string" where
  "hex d = concat (map hex_of_byte (dg_bytes d))"

section \<open>Compression function\<close>

definition kRoundConstants :: "u32 list" where
  "kRoundConstants =
     [0x428a2f98, 0x71374491, 0xb5c0fbcf, 0xe9b5dba5, 0x3956c25b] @
     [0x59f111f1, 0x923f82a4, 0xab1c5ed5, 0xd807aa98, 0x12835b01] @
     [0x243185be, 0x550c7dc3, 0x72be5d74, 0x80deb1fe, 0x9bdc06a7] @
     [0xc19bf174, 0xe49b69c1, 0xefbe4786, 0x0fc19dc6, 0x240ca1cc] @
     [0x2de92c6f, 0x4a7484aa, 0x5cb0a9dc, 0x76f988da, 0x983e5152] @
     [0xa831c66d, 0xb00327c8, 0xbf597fc7, 0xc6e00bf3, 0xd5a79147] @
     [0x06ca6351, 0x14292967, 0x27b70a85, 0x2e1b2138, 0x4d2c6dfc] @
     [0x53380d13, 0x650a7354, 0x766a0abb, 0x81c2c92e, 0x92722c85] @
     [0xa2bfe8a1, 0xa81a664b, 0xc24b8b70, 0xc76c51a3, 0xd192e819] @
     [0xd6990624, 0xf40e3585, 0x106aa070, 0x19a4c116, 0x1e376c08] @
     [0x2748774c, 0x34b0bcb5, 0x391c0cb3, 0x4ed8aa4a, 0x5b9cca4f] @
     [0x682e6ff3, 0x748f82ee, 0x78a5636f, 0x84c87814, 0x8cc70208] @
     [0x90befffa, 0xa4506ceb, 0xbef9a3f7, 0xc67178f2]"

definition rotr :: "u32 \<Rightarrow> nat \<Rightarrow> u32" where
  "rotr x n = drop_bit n x OR push_bit (32 - n) x"

definition load_be32 :: "u8 list \<Rightarrow> nat \<Rightarrow> u32" where
  "load_be32 input off =
     push_bit 24 (ucast (input ! off)) OR push_bit 16 (ucast (input ! (off + 1))) OR
     push_bit 8 (ucast (input ! (off + 2))) OR ucast (input ! (off + 3))"

definition store_be32 :: "u32 \<Rightarrow> u8 list" where
  "store_be32 value =
     [ucast (drop_bit 24 value), ucast (drop_bit 16 value), ucast (drop_bit 8 value), ucast value]"

text \<open>The schedule loop: entry \<open>index\<close> is appended from the entries before it.\<close>

definition schedule_next :: "u32 list \<Rightarrow> u32" where
  "schedule_next w =
     (let index = length w;
          s0 = rotr (w ! (index - 15)) 7 XOR rotr (w ! (index - 15)) 18 XOR
               drop_bit 3 (w ! (index - 15));
          s1 = rotr (w ! (index - 2)) 17 XOR rotr (w ! (index - 2)) 19 XOR
               drop_bit 10 (w ! (index - 2))
      in w ! (index - 16) + s0 + w ! (index - 7) + s1)"

primrec extend_schedule :: "nat \<Rightarrow> u32 list \<Rightarrow> u32 list" where
  "extend_schedule 0 w = w"
| "extend_schedule (Suc n) w = extend_schedule n (w @ [schedule_next w])"

definition schedule :: "u8 list \<Rightarrow> u32 list" where
  "schedule block = extend_schedule 48 (map (\<lambda>index. load_be32 block (index * 4)) [0..<16])"

type_synonym working = "u32 \<times> u32 \<times> u32 \<times> u32 \<times> u32 \<times> u32 \<times> u32 \<times> u32"

fun compress_round :: "u32 \<times> u32 \<Rightarrow> working \<Rightarrow> working" where
  "compress_round (k, w) (a, b, c, d, e, f, g, h) =
     (let sigma1 = rotr e 6 XOR rotr e 11 XOR rotr e 25;
          choice = (e AND f) XOR (NOT e AND g);
          temporary1 = h + sigma1 + choice + k + w;
          sigma0 = rotr a 2 XOR rotr a 13 XOR rotr a 22;
          majority = (a AND b) XOR (a AND c) XOR (b AND c);
          temporary2 = sigma0 + majority
      in (temporary1 + temporary2, a, b, c, d + temporary1, e, f, g))"

definition compress :: "working \<Rightarrow> u8 list \<Rightarrow> working" where
  "compress state block =
     (let (s0, s1, s2, s3, s4, s5, s6, s7) = state;
          (a, b, c, d, e, f, g, h) = fold compress_round (zip kRoundConstants (schedule block)) state
      in (s0 + a, s1 + b, s2 + c, s3 + d, s4 + e, s5 + f, s6 + g, s7 + h))"

section \<open>The streaming object\<close>

record Sha256 =
  sh_state :: working
  sh_buffer :: "u8 list"
  sh_total_bytes :: u64
  sh_buffered_bytes :: nat
  sh_finalized :: bool

definition initial_state :: working where
  "initial_state = (0x6a09e667, 0xbb67ae85, 0x3c6ef372, 0xa54ff53a,
                    0x510e527f, 0x9b05688c, 0x1f83d9ab, 0x5be0cd19)"

definition sha256_new :: Sha256 where
  "sha256_new = \<lparr>sh_state = initial_state, sh_buffer = replicate 64 0, sh_total_bytes = 0,
                 sh_buffered_bytes = 0, sh_finalized = False\<rparr>"

text \<open>The \<open>while\<close> loop of \<open>update\<close>: whole blocks are compressed straight from the input.\<close>

function compress_blocks :: "working \<Rightarrow> u8 list \<Rightarrow> working \<times> u8 list" where
  "compress_blocks st input =
     (if 64 \<le> length input then compress_blocks (compress st (take 64 input)) (drop 64 input)
      else (st, input))"
  by pat_completeness auto
termination
  by (relation "measure (\<lambda>(st, input). length input)") auto

declare compress_blocks.simps [simp del]

definition fill_buffer :: "Sha256 \<Rightarrow> u8 list \<Rightarrow> Sha256 \<times> u8 list" where
  "fill_buffer s input =
     (if sh_buffered_bytes s \<noteq> 0 then
        let copied = min (length (sh_buffer s) - sh_buffered_bytes s) (length input);
            buffer = overwrite (sh_buffer s) (sh_buffered_bytes s) (take copied input);
            buffered = sh_buffered_bytes s + copied
        in if buffered = length buffer
           then (s\<lparr>sh_state := compress (sh_state s) buffer, sh_buffer := buffer,
                   sh_buffered_bytes := 0\<rparr>, drop copied input)
           else (s\<lparr>sh_buffer := buffer, sh_buffered_bytes := buffered\<rparr>, drop copied input)
      else (s, input))"

definition update :: "Sha256 \<Rightarrow> u8 list \<Rightarrow> status \<times> Sha256" where
  "update s input =
     (if sh_finalized s
      then (FailedPrecondition msg_SHA_256_state_is_already_finalized, s)
      else if length input > unat (UINT64_MAX div 8 - sh_total_bytes s)
      then (ResourceExhausted msg_SHA_256_bit_length_overflows_u64, s)
      else
        let s1 = s\<lparr>sh_total_bytes := sh_total_bytes s + of_nat (length input)\<rparr>;
            (s2, rest) = fill_buffer s1 input;
            (st, tail) = compress_blocks (sh_state s2) rest;
            s3 = s2\<lparr>sh_state := st\<rparr>
        in (Ok, if tail \<noteq> []
                then s3\<lparr>sh_buffered_bytes := length tail,
                        sh_buffer := overwrite (sh_buffer s3) 0 tail\<rparr>
                else s3))"

definition be_bytes_u64 :: "u64 \<Rightarrow> u8 list" where
  "be_bytes_u64 v = map (\<lambda>index. ucast (drop_bit ((7 - index) * 8) v)) [0..<8]"

fun digest_of :: "working \<Rightarrow> Sha256Digest" where
  "digest_of (a, b, c, d, e, f, g, h) =
     \<lparr>dg_bytes = concat (map store_be32 [a, b, c, d, e, f, g, h])\<rparr>"

definition finalize :: "Sha256 \<Rightarrow> Sha256Digest result \<times> Sha256" where
  "finalize s =
     (if sh_finalized s
      then (Inl (FailedPrecondition msg_SHA_256_state_is_already_finalized), s)
      else
        let bit_length = sh_total_bytes s * 8;
            buffer1 = overwrite (sh_buffer s) (sh_buffered_bytes s) [0x80];
            buffered1 = sh_buffered_bytes s + 1;
            (st2, buffer2, buffered2) =
              (if buffered1 > 56
               then let b = overwrite buffer1 buffered1 (replicate (length buffer1 - buffered1) 0)
                    in (compress (sh_state s) b, b, 0)
               else (sh_state s, buffer1, buffered1));
            buffer3 = overwrite buffer2 buffered2 (replicate (56 - buffered2) 0);
            buffer4 = overwrite buffer3 56 (be_bytes_u64 bit_length);
            st3 = compress st2 buffer4
        in (Inr (digest_of st3),
            s\<lparr>sh_state := st3, sh_buffer := replicate (length buffer4) 0,
              sh_buffered_bytes := buffered2, sh_finalized := True\<rparr>))"

definition sha256 :: "u8 list \<Rightarrow> Sha256Digest result" where
  "sha256 input =
     (case update sha256_new input of
        (st, s) \<Rightarrow> if \<not> ok st then Inl st else fst (finalize s))"

section \<open>Specification and refinement\<close>

primrec fold_blocks :: "nat \<Rightarrow> working \<Rightarrow> u8 list \<Rightarrow> working" where
  "fold_blocks 0 st m = st"
| "fold_blocks (Suc n) st m = fold_blocks n (compress st (take 64 m)) (drop 64 m)"

definition pad :: "u8 list \<Rightarrow> u8 list" where
  "pad msg = msg @ [0x80] @ replicate ((119 - length msg mod 64) mod 64) 0 @
     be_bytes_u64 (of_nat (8 * length msg))"

definition sha256_spec :: "u8 list \<Rightarrow> Sha256Digest" where
  "sha256_spec msg = digest_of (fold_blocks (length (pad msg) div 64) initial_state (pad msg))"

definition max_message_bytes :: nat where
  "max_message_bytes = (2 ^ 64 - 1) div 8"

definition represents :: "Sha256 \<Rightarrow> u8 list \<Rightarrow> bool" where
  "represents s msg \<longleftrightarrow>
     \<not> sh_finalized s \<and> length (sh_buffer s) = 64 \<and> length msg \<le> max_message_bytes \<and>
     sh_total_bytes s = of_nat (length msg) \<and> sh_buffered_bytes s = length msg mod 64 \<and>
     take (length msg mod 64) (sh_buffer s) = drop (64 * (length msg div 64)) msg \<and>
     sh_state s = fold_blocks (length msg div 64) initial_state msg"

lemma length_be_bytes_u64 [simp]: "length (be_bytes_u64 v) = 8"
  by (simp add: be_bytes_u64_def)

lemma fold_blocks_append:
  "length xs = 64 * n \<Longrightarrow> fold_blocks (n + m) st (xs @ ys) = fold_blocks m (fold_blocks n st xs) ys"
proof (induction n arbitrary: st xs)
  case 0
  then show ?case by simp
next
  case (Suc n)
  then have "64 \<le> length xs" by simp
  with Suc show ?case by simp
qed

lemma fold_blocks_append_ignore:
  "64 * n \<le> length xs \<Longrightarrow> fold_blocks n st (xs @ ys) = fold_blocks n st xs"
  by (induction n arbitrary: st xs) simp_all

lemma compress_blocks_eq:
  "compress_blocks st m = (fold_blocks (length m div 64) st m, drop (64 * (length m div 64)) m)"
proof (induction st m rule: compress_blocks.induct)
  case (1 st m)
  show ?case
  proof (cases "64 \<le> length m")
    case True
    then have "length m div 64 = Suc (length (drop 64 m) div 64)"
      by (simp add: le_div_geq)
    with 1 True show ?thesis
      by (simp add: compress_blocks.simps [of st m] add.commute)
  next
    case False
    then show ?thesis by (simp add: compress_blocks.simps [of st m])
  qed
qed

lemma fill_buffer_cases:
  assumes "length (sh_buffer s) = 64" and "sh_buffered_bytes s = length part"
    and "length part < 64" and "take (length part) (sh_buffer s) = part"
  shows "part = [] \<Longrightarrow> fill_buffer s input = (s, input)"
    and "part \<noteq> [] \<Longrightarrow> 64 \<le> length (part @ input) \<Longrightarrow>
      fill_buffer s input =
        (s\<lparr>sh_state := compress (sh_state s) (take 64 (part @ input)),
           sh_buffer := take 64 (part @ input), sh_buffered_bytes := 0\<rparr>,
         drop 64 (part @ input))"
    and "part \<noteq> [] \<Longrightarrow> length (part @ input) < 64 \<Longrightarrow>
      fill_buffer s input =
        (s\<lparr>sh_buffer := overwrite (sh_buffer s) (length part) input,
           sh_buffered_bytes := length (part @ input)\<rparr>, [])"
proof -
  show "part = [] \<Longrightarrow> fill_buffer s input = (s, input)"
    using assms by (simp add: fill_buffer_def)
next
  assume part: "part \<noteq> []" and full: "64 \<le> length (part @ input)"
  then have min: "min (64 - length part) (length input) = 64 - length part" by simp
  have "overwrite (sh_buffer s) (length part) (take (64 - length part) input) = take 64 (part @ input)"
    using assms full by (simp add: overwrite_def)
  with assms part full min show "fill_buffer s input =
        (s\<lparr>sh_state := compress (sh_state s) (take 64 (part @ input)),
           sh_buffer := take 64 (part @ input), sh_buffered_bytes := 0\<rparr>,
         drop 64 (part @ input))"
    by (simp add: fill_buffer_def Let_def)
next
  assume part: "part \<noteq> []" and short: "length (part @ input) < 64"
  then have min: "min (64 - length part) (length input) = length input" by simp
  with assms part short show "fill_buffer s input =
        (s\<lparr>sh_buffer := overwrite (sh_buffer s) (length part) input,
           sh_buffered_bytes := length (part @ input)\<rparr>, [])"
    by (simp add: fill_buffer_def Let_def)
qed

text \<open>What \<open>fill_buffer\<close> and the block loop leave behind, in terms of the pending bytes.\<close>

definition stash :: "Sha256 \<Rightarrow> u8 list \<Rightarrow> Sha256" where
  "stash s tail =
     (if tail \<noteq> [] then s\<lparr>sh_buffered_bytes := length tail,
                           sh_buffer := overwrite (sh_buffer s) 0 tail\<rparr> else s)"

lemma stash_simps [simp]:
  "sh_state (stash s tail) = sh_state s"
  "sh_finalized (stash s tail) = sh_finalized s"
  "sh_total_bytes (stash s tail) = sh_total_bytes s"
  by (simp_all add: stash_def)

lemma stash_buffer:
  assumes "length (sh_buffer s) = 64" and "length tail < 64"
    and "tail = [] \<Longrightarrow> sh_buffered_bytes s = 0"
  shows "sh_buffered_bytes (stash s tail) = length tail"
    and "length (sh_buffer (stash s tail)) = 64"
    and "take (length tail) (sh_buffer (stash s tail)) = tail"
  using assms by (auto simp: stash_def overwrite_def)

definition absorb :: "Sha256 \<Rightarrow> u8 list \<Rightarrow> Sha256" where
  "absorb s input =
     (let (s2, rest) = fill_buffer s input; (st, tail) = compress_blocks (sh_state s2) rest
      in stash (s2\<lparr>sh_state := st\<rparr>) tail)"

lemma length_tail_block: "length (drop (64 * (length q div 64)) q) = length q mod 64"
  by (simp add: minus_mult_div_eq_mod)

lemma absorb_pending:
  assumes "length (sh_buffer s) = 64" and "sh_buffered_bytes s = length part"
    and "length part < 64" and "take (length part) (sh_buffer s) = part"
    and p: "p = part @ input"
  shows "sh_state (absorb s input) = fold_blocks (length p div 64) (sh_state s) p \<and>
    sh_buffered_bytes (absorb s input) = length p mod 64 \<and>
    length (sh_buffer (absorb s input)) = 64 \<and>
    take (length p mod 64) (sh_buffer (absorb s input)) = drop (64 * (length p div 64)) p \<and>
    sh_finalized (absorb s input) = sh_finalized s \<and>
    sh_total_bytes (absorb s input) = sh_total_bytes s"
proof -
  note cases = fill_buffer_cases [OF assms(1-4)]
  let ?stashed = "\<lambda>s2 q. stash (s2\<lparr>sh_state := fold_blocks (length q div 64) (sh_state s2) q\<rparr>)
    (drop (64 * (length q div 64)) q)"
  have stashed: "sh_buffered_bytes (?stashed s2 q) = length q mod 64 \<and>
      length (sh_buffer (?stashed s2 q)) = 64 \<and>
      take (length q mod 64) (sh_buffer (?stashed s2 q)) = drop (64 * (length q div 64)) q"
    if "length (sh_buffer s2) = 64" and "sh_buffered_bytes s2 = 0" for s2 and q :: "u8 list"
    using stash_buffer [of "s2\<lparr>sh_state := fold_blocks (length q div 64) (sh_state s2) q\<rparr>"
        "drop (64 * (length q div 64)) q"] that length_tail_block [of q] by simp
  consider (empty) "part = []" | (full) "part \<noteq> []" "64 \<le> length p" | (short) "part \<noteq> []" "length p < 64"
    by linarith
  then show ?thesis
  proof cases
    case empty
    with assms stashed [of s input] show ?thesis
      by (simp add: absorb_def cases(1) compress_blocks_eq)
  next
    case full
    let ?r = "drop 64 p"
    have "length p div 64 = Suc (length ?r div 64)" using full by (simp add: le_div_geq)
    moreover have "length p mod 64 = length ?r mod 64" using full by (simp add: le_mod_geq)
    moreover have "fill_buffer s input =
        (s\<lparr>sh_state := compress (sh_state s) (take 64 p), sh_buffer := take 64 p,
           sh_buffered_bytes := 0\<rparr>, ?r)"
      using cases(2) [of input] full p by simp
    ultimately show ?thesis
      using full stashed [of "s\<lparr>sh_state := compress (sh_state s) (take 64 p),
          sh_buffer := take 64 p, sh_buffered_bytes := 0\<rparr>" ?r]
      by (simp add: absorb_def compress_blocks_eq add.commute)
  next
    case short
    with assms cases(3) [of input] show ?thesis
      by (simp add: absorb_def compress_blocks_eq overwrite_def stash_def)
  qed
qed

lemma update_absorbs:
  assumes "\<not> sh_finalized s" and "length input \<le> unat (UINT64_MAX div 8 - sh_total_bytes s)"
  shows "update s input =
    (Ok, absorb (s\<lparr>sh_total_bytes := sh_total_bytes s + of_nat (length input)\<rparr>) input)"
  using assms by (simp add: update_def absorb_def stash_def Let_def split: prod.splits)

lemma remaining_bytes:
  assumes "n \<le> max_message_bytes"
  shows "unat (UINT64_MAX div 8 - (of_nat n :: u64)) = max_message_bytes - n"
proof -
  have n: "unat (of_nat n :: u64) = n"
    using assms by (simp add: unat_of_nat max_message_bytes_def)
  have "unat (UINT64_MAX div 8) = max_message_bytes"
    by (simp add: unat_div unat_max_u64 max_message_bytes_def)
  with n assms show ?thesis
    using unat_sub [of "of_nat n" "UINT64_MAX div 8 :: u64"] by (simp only: word_le_nat_alt)
qed

lemma represents_new: "represents sha256_new []"
  by (simp add: represents_def sha256_new_def)

lemma fold_blocks_split:
  assumes "part = drop (64 * (length msg div 64)) msg"
  shows "fold_blocks (length (msg @ rest) div 64) st (msg @ rest) =
    fold_blocks (length (part @ rest) div 64) (fold_blocks (length msg div 64) st msg) (part @ rest)"
    and "length (part @ rest) mod 64 = length (msg @ rest) mod 64"
    and "drop (64 * (length (part @ rest) div 64)) (part @ rest) =
      drop (64 * (length (msg @ rest) div 64)) (msg @ rest)"
proof -
  let ?n = "length msg div 64"
  let ?full = "take (64 * ?n) msg"
  have full: "length ?full = 64 * ?n" by (simp add: min_absorb2)
  have msg: "msg = ?full @ part" using assms by simp
  have len: "length (msg @ rest) = 64 * ?n + length (part @ rest)"
    using msg full by (metis append.assoc length_append)
  then have d: "length (msg @ rest) div 64 = ?n + length (part @ rest) div 64" by simp
  show "length (part @ rest) mod 64 = length (msg @ rest) mod 64"
    by (subst len) (simp only: mod_mult_self4)
  have "fold_blocks (length (msg @ rest) div 64) st (?full @ part @ rest) =
      fold_blocks (length (part @ rest) div 64) (fold_blocks ?n st ?full) (part @ rest)"
    unfolding d by (rule fold_blocks_append [OF full])
  moreover have "fold_blocks ?n st ?full = fold_blocks ?n st msg"
    using fold_blocks_append_ignore [of ?n ?full st part] full msg by simp
  ultimately show "fold_blocks (length (msg @ rest) div 64) st (msg @ rest) =
    fold_blocks (length (part @ rest) div 64) (fold_blocks ?n st msg) (part @ rest)"
    using msg by (metis append.assoc)
  have "drop (64 * (length (msg @ rest) div 64)) (?full @ part @ rest) =
      drop (64 * (length (part @ rest) div 64)) (part @ rest)"
    using full unfolding d by (simp add: distrib_left)
  then show "drop (64 * (length (part @ rest) div 64)) (part @ rest) =
      drop (64 * (length (msg @ rest) div 64)) (msg @ rest)"
    using msg by (metis append.assoc)
qed

lemma update_represents:
  assumes rep: "represents s msg" and fits: "length msg + length input \<le> max_message_bytes"
  shows "\<exists>s'. update s input = (Ok, s') \<and> represents s' (msg @ input)"
proof -
  define part where "part = drop (64 * (length msg div 64)) msg"
  define s1 where "s1 = s\<lparr>sh_total_bytes := sh_total_bytes s + of_nat (length input)\<rparr>"
  have part: "length msg mod 64 = length part"
    unfolding part_def by (simp add: length_tail_block [symmetric])
  have "length input \<le> unat (UINT64_MAX div 8 - sh_total_bytes s)"
    using rep fits remaining_bytes [of "length msg"] by (simp add: represents_def)
  then have upd: "update s input = (Ok, absorb s1 input)"
    using rep unfolding s1_def by (intro update_absorbs) (simp_all add: represents_def)
  have s1: "length (sh_buffer s1) = 64" "sh_buffered_bytes s1 = length part"
      "take (length part) (sh_buffer s1) = part" "\<not> sh_finalized s1"
      "sh_state s1 = fold_blocks (length msg div 64) initial_state msg"
      "sh_total_bytes s1 = of_nat (length (msg @ input))"
    using rep part by (simp_all add: represents_def s1_def flip: part_def)
  have "length part < 64" by (simp flip: part)
  note absorbed = absorb_pending [OF s1(1,2) this s1(3) refl, of input]
  have "length (msg @ input) \<le> max_message_bytes" using fits by simp
  with absorbed s1(4-6) have "represents (absorb s1 input) (msg @ input)"
    unfolding represents_def fold_blocks_split(1) [OF part_def]
      fold_blocks_split(2,3) [OF part_def, symmetric]
    by (simp only: simp_thms)
  with upd show ?thesis by blast
qed

lemma overwrite_append: "overwrite (xs @ ys) (length xs) zs = xs @ zs @ drop (length zs) ys"
  by (simp add: overwrite_def)

lemma overwrite_padding:
  assumes "length part < n" and "n \<le> length buf" and "take (length part) buf = part"
  shows "overwrite (overwrite buf (length part) [x]) (length part + 1)
      (replicate (n - (length part + 1)) 0) =
    (part @ [x] @ replicate (n - (length part + 1)) 0) @ drop n buf"
proof -
  obtain c where buf: "buf = part @ c" using assms(3) by (metis append_take_drop_id)
  have "overwrite buf (length part) [x] = (part @ [x]) @ drop 1 c"
    unfolding buf overwrite_append by simp
  moreover have "overwrite ((part @ [x]) @ drop 1 c) (length (part @ [x]))
      (replicate (n - (length part + 1)) 0) =
    (part @ [x]) @ replicate (n - (length part + 1)) 0 @ drop n buf"
    unfolding overwrite_append using assms(1) buf by (simp add: Suc_diff_Suc)
  ultimately show ?thesis by simp
qed

lemma fold_blocks_1: "length b = 64 \<Longrightarrow> fold_blocks (length b div 64) st b = compress st b"
  by simp

lemma fold_blocks_2:
  "length b = 64 \<Longrightarrow> length c = 64 \<Longrightarrow>
     fold_blocks (length (b @ c) div 64) st (b @ c) = compress (compress st b) c"
  by (simp add: numeral_2_eq_2 [symmetric]) (simp add: numeral_2_eq_2)

lemma finalize_represents:
  assumes rep: "represents s msg"
  shows "fst (finalize s) = Inr (sha256_spec msg)"
proof -
  define part where "part = drop (64 * (length msg div 64)) msg"
  define len where "len = be_bytes_u64 (of_nat (8 * length msg))"
  let ?rest = "[0x80] @ replicate ((119 - length msg mod 64) mod 64) 0 @ len"
  have part: "length msg mod 64 = length part"
    unfolding part_def by (simp add: length_tail_block [symmetric])
  have lt: "length part < 64" by (simp flip: part)
  have len8: "length len = 8" by (simp add: len_def)
  have buf: "length (sh_buffer s) = 64" "sh_buffered_bytes s = length part"
      "take (length part) (sh_buffer s) = part"
    and st: "sh_state s = fold_blocks (length msg div 64) initial_state msg"
    and total: "be_bytes_u64 (sh_total_bytes s * 8) = len"
    and open_: "\<not> sh_finalized s"
    using rep part by (simp_all add: represents_def mult.commute len_def flip: part_def)
  have spec: "sha256_spec msg =
      digest_of (fold_blocks (length (part @ ?rest) div 64) (sh_state s) (part @ ?rest))"
    using fold_blocks_split(1) [OF part_def, of ?rest initial_state] st
    by (simp add: sha256_spec_def pad_def len_def)
  show ?thesis
  proof (cases "length part < 56")
    case True
    then have z: "(119 - length part) mod 64 = 56 - (length part + 1)" by (simp add: le_mod_geq)
    let ?block = "part @ [0x80] @ replicate (56 - (length part + 1)) 0 @ len"
    have "length ?block = 64" using True len8 by simp
    then have "sha256_spec msg = digest_of (compress (sh_state s) ?block)"
      using spec part z fold_blocks_1 [of ?block "sh_state s"] by simp
    moreover have "overwrite (overwrite (overwrite (sh_buffer s) (length part) [0x80])
          (length part + 1) (replicate (56 - (length part + 1)) 0)) 56 len = ?block"
      using overwrite_padding [of part 56 "sh_buffer s" "0x80"] True buf len8
        overwrite_append [of "part @ [0x80] @ replicate (56 - (length part + 1)) 0"
          "drop 56 (sh_buffer s)" len] by simp
    ultimately show ?thesis
      using open_ buf total True by (simp add: finalize_def Let_def)
  next
    case False
    then have z: "(119 - length part) mod 64 = (64 - (length part + 1)) + 56" using lt by simp
    let ?first = "part @ [0x80] @ replicate (64 - (length part + 1)) 0"
    let ?second = "replicate 56 0 @ len"
    have split: "part @ ?rest = ?first @ ?second"
      unfolding part z replicate_add by simp
    have lens: "length ?first = 64" "length ?second = 64"
      using lt len8 by simp_all
    then have "fold_blocks (length (?first @ ?second) div 64) (sh_state s) (?first @ ?second) =
        compress (compress (sh_state s) ?first) ?second"
      by (rule fold_blocks_2)
    then have "sha256_spec msg = digest_of (compress (compress (sh_state s) ?first) ?second)"
      by (simp only: spec split)
    moreover have "overwrite (overwrite (sh_buffer s) (length part) [0x80]) (length part + 1)
          (replicate (64 - (length part + 1)) 0) = ?first"
      using overwrite_padding [of part 64 "sh_buffer s" "0x80"] lt buf by simp
    moreover have "overwrite (overwrite ?first 0 (replicate 56 0)) 56 len = ?second"
      using lens len8 by (simp add: overwrite_def)
    ultimately show ?thesis
      using open_ buf total False lt by (simp add: finalize_def Let_def)
  qed
qed

text \<open>
  The idiom \<open>Sha256 digest; status = digest.update(a); if (status.ok()) status =
  digest.update(b); ... if (!status.ok()) return status; return digest.finalize();\<close> that every
  digest of the runtime is written with.
\<close>

primrec update_all :: "Sha256 \<Rightarrow> u8 list list \<Rightarrow> status \<times> Sha256" where
  "update_all s [] = (Ok, s)"
| "update_all s (c # cs) =
     (case update s c of (st, s') \<Rightarrow> if ok st then update_all s' cs else (st, s'))"

definition digest_chunks :: "u8 list list \<Rightarrow> Sha256Digest result" where
  "digest_chunks cs =
     (case update_all sha256_new cs of (st, s) \<Rightarrow> if ok st then fst (finalize s) else Inl st)"

lemma update_all_represents:
  "represents s msg \<Longrightarrow> length msg + length (concat cs) \<le> max_message_bytes \<Longrightarrow>
     \<exists>s'. update_all s cs = (Ok, s') \<and> represents s' (msg @ concat cs)"
proof (induction cs arbitrary: s msg)
  case Nil
  then show ?case by simp
next
  case (Cons c cs)
  then obtain s' where "update s c = (Ok, s')" and "represents s' (msg @ c)"
    using update_represents [of s msg c] by auto
  with Cons.IH [of s' "msg @ c"] Cons.prems show ?case by simp
qed

lemma update_too_long:
  assumes "represents s msg" and "max_message_bytes < length msg + length input"
  shows "update s input = (ResourceExhausted msg_SHA_256_bit_length_overflows_u64, s)"
proof -
  have "unat (UINT64_MAX div 8 - sh_total_bytes s) = max_message_bytes - length msg"
    and "length msg \<le> max_message_bytes"
    using assms(1) remaining_bytes [of "length msg"] by (simp_all add: represents_def)
  with assms(2) have "length input > unat (UINT64_MAX div 8 - sh_total_bytes s)" by linarith
  moreover have "\<not> sh_finalized s" using assms(1) by (simp add: represents_def)
  ultimately show ?thesis unfolding update_def by (simp only: simp_thms if_True if_False)
qed

lemma update_all_too_long:
  "represents s msg \<Longrightarrow> max_message_bytes < length msg + length (concat cs) \<Longrightarrow>
     fst (update_all s cs) = ResourceExhausted msg_SHA_256_bit_length_overflows_u64"
proof (induction cs arbitrary: s msg)
  case Nil
  then show ?case by (simp add: represents_def)
next
  case (Cons c cs)
  show ?case
  proof (cases "length msg + length c \<le> max_message_bytes")
    case True
    with Cons.prems obtain s' where "update s c = (Ok, s')" and "represents s' (msg @ c)"
      using update_represents by blast
    with Cons.IH [of s' "msg @ c"] Cons.prems show ?thesis by simp
  next
    case False
    with Cons.prems show ?thesis by (simp add: update_too_long not_le)
  qed
qed

lemma digest_chunks_fits:
  assumes "length (concat cs) \<le> max_message_bytes"
  shows "digest_chunks cs = Inr (sha256_spec (concat cs))"
proof -
  obtain s where "update_all sha256_new cs = (Ok, s)" and "represents s (concat cs)"
    using update_all_represents [OF represents_new, of cs] assms by auto
  with assms show ?thesis by (simp add: digest_chunks_def finalize_represents)
qed

lemma digest_chunks_too_long:
  assumes "\<not> length (concat cs) \<le> max_message_bytes"
  shows "digest_chunks cs = Inl (ResourceExhausted msg_SHA_256_bit_length_overflows_u64)"
proof -
  have "fst (update_all sha256_new cs) = ResourceExhausted msg_SHA_256_bit_length_overflows_u64"
    using update_all_too_long [OF represents_new, of cs] assms by simp
  then show ?thesis
    by (cases "update_all sha256_new cs") (simp add: digest_chunks_def)
qed

text \<open>
  C2. Streaming is chunking-independent and correct: feeding any chunks one after another and
  finalizing gives the digest of their concatenation by the block specification of SHA-256, and
  fails with \<open>ResourceExhausted\<close> exactly when the bit length would not fit in 64 bits.
\<close>

theorem digest_chunks_refines_spec:
  "digest_chunks cs =
     (if length (concat cs) \<le> max_message_bytes then Inr (sha256_spec (concat cs))
      else Inl (ResourceExhausted msg_SHA_256_bit_length_overflows_u64))"
  by (simp add: digest_chunks_fits digest_chunks_too_long)

lemma sha256_eq_digest_chunks: "sha256 m = digest_chunks [m]"
  by (auto simp: sha256_def digest_chunks_def split: prod.splits)

section \<open>Hexadecimal text\<close>

lemma nibble_kHex: "n < 16 \<Longrightarrow> nibble (kHex ! n) = int n"
proof -
  have "\<forall>n\<in>set [0..<16]. nibble (kHex ! n) = int n" by code_simp
  then show "n < 16 \<Longrightarrow> ?thesis" by simp
qed

lemma kHex_eq:
  "n < 10 \<Longrightarrow> kHex ! n = char_of (48 + n)"
  "10 \<le> n \<Longrightarrow> n < 16 \<Longrightarrow> kHex ! n = char_of (87 + n)"
proof -
  have "\<forall>n<10. kHex ! n = char_of (48 + n)"
    and "\<forall>n<16. 10 \<le> n \<longrightarrow> kHex ! n = char_of (87 + n)" by code_simp+
  then show "n < 10 \<Longrightarrow> kHex ! n = char_of (48 + n)"
    and "10 \<le> n \<Longrightarrow> n < 16 \<Longrightarrow> kHex ! n = char_of (87 + n)" by blast+
qed

lemma kHex_nibble:
  assumes "0 \<le> nibble c"
  shows "nibble c < 16 \<and> kHex ! nat (nibble c) = c"
proof -
  obtain n where n: "of_char c = (n :: nat)" by blast
  then have c: "c = char_of n" by (metis char_of_char)
  consider (digit) "48 \<le> n" "n \<le> 57" "nibble c = int n - 48"
    | (letter) "97 \<le> n" "n \<le> 102" "nibble c = int n - 87"
    using assms n by (auto simp: nibble_def Let_def split: if_splits)
  then show ?thesis
  proof cases
    case digit
    then have "nat (nibble c) = n - 48" by simp
    with digit c kHex_eq(1) [of "n - 48"] show ?thesis by simp
  next
    case letter
    then have "nat (nibble c) = n - 87" by simp
    with letter c kHex_eq(2) [of "n - 87"] show ?thesis by simp
  qed
qed

lemma nibbles_or: "0 \<le> l \<Longrightarrow> l < 16 \<Longrightarrow> push_bit 4 h OR l = 16 * h + (l :: int)"
proof -
  assume l: "0 \<le> l" "l < 16"
  then have "take_bit 4 l = l" by (simp add: take_bit_eq_mod)
  then have "\<not> bit (push_bit 4 h) n \<or> \<not> bit l n" for n
    by (metis bit_push_bit_iff bit_take_bit_iff not_le)
  then have "push_bit 4 h + l = push_bit 4 h OR l" by (rule disjunctive_add)
  then show ?thesis by (simp add: push_bit_eq_mult)
qed

lemma and_mask_15: "n AND 15 = n mod (16 :: nat)"
  using take_bit_eq_mask [of 4 n] by (simp add: take_bit_eq_mod mask_eq_exp_minus_1)

lemma unat_high_nibble: "unat (drop_bit 4 (b :: u8)) = unat b div 16"
  by (simp add: drop_bit_eq_div unat_div)

lemma unat_low_nibble: "unat ((b :: u8) AND 0x0f) = unat b mod 16"
  by (simp add: unsigned_and_eq and_mask_15)

lemma byte_of_nibbles:
  assumes "0 \<le> h" "h < 16" "0 \<le> l" "l < 16"
  shows "unat (drop_bit 4 (word_of_int (push_bit 4 h OR l) :: u8)) = nat h"
    and "unat ((word_of_int (push_bit 4 h OR l) :: u8) AND 0x0f) = nat l"
proof -
  let ?b = "word_of_int (push_bit 4 h OR l) :: u8"
  obtain i j where ij: "h = int i" "l = int j" using assms nonneg_int_cases by metis
  then have "?b = of_nat (16 * i + j)" using assms by (simp add: nibbles_or)
  then have b: "unat ?b = 16 * nat h + nat l"
    using assms ij by (simp only: unat_of_nat) simp
  from b assms show "unat (drop_bit 4 ?b) = nat h" and "unat (?b AND 0x0f) = nat l"
    by (simp_all only: unat_high_nibble unat_low_nibble) simp_all
qed

lemma nibbles_of_byte:
  "word_of_int (push_bit 4 (int (unat (drop_bit 4 b))) OR int (unat (b AND 0x0f))) = (b :: u8)"
proof -
  have "push_bit 4 (int (unat b div 16)) OR int (unat b mod 16) = int (unat b)"
    using nibbles_or [of "int (unat b mod 16)" "int (unat b div 16)"] by (simp add: zdiv_int zmod_int)
  then show ?thesis unfolding unat_high_nibble unat_low_nibble by simp
qed

lemma parse_hex_of_bytes: "parse_hex_pairs (concat (map hex_of_byte bs)) = Inr bs"
proof (induction bs)
  case Nil
  then show ?case by simp
next
  case (Cons b bs)
  have "unat (drop_bit 4 b) < 16" and "unat (b AND 0x0f) < 16"
    using unsigned_less [of b, where ?'a = nat]
    by (simp_all only: unat_high_nibble unat_low_nibble) simp_all
  with Cons show ?case
    by (simp add: hex_of_byte_def nibble_kHex nibbles_of_byte [unfolded of_nat_unat])
qed

lemma bytes_of_parse_hex:
  "parse_hex_pairs t = Inr bs \<Longrightarrow> even (length t) \<Longrightarrow>
     concat (map hex_of_byte bs) = t \<and> 2 * length bs = length t"
proof (induction t arbitrary: bs rule: parse_hex_pairs.induct)
  case (1 h l rest)
  then obtain bs' where nn: "0 \<le> nibble h" "0 \<le> nibble l"
    and rest: "parse_hex_pairs rest = Inr bs'"
    and bs: "bs = word_of_int (push_bit 4 (nibble h) OR nibble l) # bs'"
    by (auto split: if_splits sum.splits)
  from 1 nn rest have "concat (map hex_of_byte bs') = rest \<and> 2 * length bs' = length rest"
    by (simp add: not_less)
  moreover have "hex_of_byte (word_of_int (push_bit 4 (nibble h) OR nibble l)) = [h, l]"
    using nn kHex_nibble [OF nn(1)] kHex_nibble [OF nn(2)]
    by (simp add: hex_of_byte_def byte_of_nibbles)
  ultimately show ?case using bs by simp
qed simp_all

text \<open>
  C3. \<open>hex\<close> and \<open>ParseHex\<close> are mutually inverse on 32-byte digests: printing then parsing
  returns the digest, and any accepted text is exactly the printed form of the digest it denotes
  (so uppercase or short text is never accepted).
\<close>

theorem hex_ParseHex_inverse:
  "ParseHex t = Inr d \<longleftrightarrow> length (dg_bytes d) = 32 \<and> t = hex d"
proof
  assume parse: "ParseHex t = Inr d"
  then have "length t = 64" and "parse_hex_pairs t = Inr (dg_bytes d)"
    by (auto simp: ParseHex_def split: if_splits sum.splits)
  with bytes_of_parse_hex [of t "dg_bytes d"] show "length (dg_bytes d) = 32 \<and> t = hex d"
    by (simp add: hex_def)
next
  assume d: "length (dg_bytes d) = 32 \<and> t = hex d"
  have "length (concat (map hex_of_byte bs)) = 2 * length bs" for bs
    by (induction bs) (simp_all add: hex_of_byte_def)
  with d have "length t = 64" by (simp add: hex_def)
  with d show "ParseHex t = Inr d"
    by (simp add: ParseHex_def hex_def parse_hex_of_bytes)
qed

end
