(* ===== verification/Wire.thy ===== *)
theory Wire
  imports Sha256
begin

text \<open>
  The byte encodings every digest input of the runtime is assembled from: little-endian 32- and
  64-bit fields (\<open>update_u32\<close>, \<open>update_u64\<close> and \<open>write_u64\<close> of the source), length-prefixed
  strings, and the all-zero test on digests. Each encoder is injective, which is what the
  unambiguity of the digest inputs rests on.
\<close>

definition le_bytes_u32 :: "u32 \<Rightarrow> u8 list" where
  "le_bytes_u32 v =
     [ucast v, ucast (drop_bit 8 v), ucast (drop_bit 16 v), ucast (drop_bit 24 v)]"

definition le_bytes_u64 :: "u64 \<Rightarrow> u8 list" where
  "le_bytes_u64 v = map (\<lambda>i. ucast (drop_bit (i * 8) v)) [0..<8]"

definition string_bytes :: "string \<Rightarrow> u8 list" where
  "string_bytes s = map of_char s"

definition update_bytes_chunks :: "string \<Rightarrow> u8 list list" where
  "update_bytes_chunks s = [le_bytes_u64 (of_nat (length s)), string_bytes s]"

definition nonzero :: "Sha256Digest \<Rightarrow> bool" where
  "nonzero d \<longleftrightarrow> (\<exists>b\<in>set (dg_bytes d). b \<noteq> 0)"

definition valid_digest :: "Sha256Digest \<Rightarrow> bool" where
  "valid_digest d \<longleftrightarrow> length (dg_bytes d) = 32"

lemma length_le_bytes [simp]: "length (le_bytes_u32 v) = 4" "length (le_bytes_u64 w) = 8"
  by (simp_all add: le_bytes_u32_def le_bytes_u64_def)

lemma bit_ucast_drop: "n < 8 \<Longrightarrow> bit (ucast (drop_bit k (v :: 'a :: len word)) :: u8) n = bit v (k + n)"
  by (simp add: bit_ucast_iff bit_drop_bit_eq)

lemma le_bytes_u64_inj: "le_bytes_u64 v = le_bytes_u64 w \<Longrightarrow> v = w"
proof (rule bit_word_eqI)
  fix n assume eq: "le_bytes_u64 v = le_bytes_u64 w" and "n < LENGTH(64)"
  then have n: "n div 8 < 8" by simp
  have "(ucast (drop_bit (n div 8 * 8) v) :: u8) = ucast (drop_bit (n div 8 * 8) w)"
    using arg_cong [OF eq, of "\<lambda>xs. xs ! (n div 8)"] n by (simp add: le_bytes_u64_def)
  then have "bit v (n div 8 * 8 + n mod 8) = bit w (n div 8 * 8 + n mod 8)"
    by (metis bit_ucast_drop mod_less_divisor zero_less_numeral)
  then show "bit v n = bit w n" by simp
qed

lemma le_bytes_u32_alt: "le_bytes_u32 v = map (\<lambda>i. ucast (drop_bit (i * 8) v)) [0..<4]"
  by (simp add: le_bytes_u32_def upt_rec)

lemma le_bytes_u32_inj: "le_bytes_u32 v = le_bytes_u32 w \<Longrightarrow> v = w"
proof (rule bit_word_eqI)
  fix n assume eq: "le_bytes_u32 v = le_bytes_u32 w" and "n < LENGTH(32)"
  then have n: "n div 8 < 4" by simp
  have "(ucast (drop_bit (n div 8 * 8) v) :: u8) = ucast (drop_bit (n div 8 * 8) w)"
    using arg_cong [OF eq, of "\<lambda>xs. xs ! (n div 8)"] n by (simp add: le_bytes_u32_alt)
  then have "bit v (n div 8 * 8 + n mod 8) = bit w (n div 8 * 8 + n mod 8)"
    by (metis bit_ucast_drop mod_less_divisor zero_less_numeral)
  then show "bit v n = bit w n" by simp
qed

lemma le_bytes_append_inj:
  "le_bytes_u32 a @ xs = le_bytes_u32 b @ ys \<longleftrightarrow> a = b \<and> xs = ys"
  "le_bytes_u64 c @ xs = le_bytes_u64 d @ ys \<longleftrightarrow> c = d \<and> xs = ys"
  using le_bytes_u32_inj le_bytes_u64_inj by auto

lemma concat_le_bytes_u32_inj:
  "concat (map le_bytes_u32 xs) = concat (map le_bytes_u32 ys) \<Longrightarrow> xs = ys"
proof (induction xs arbitrary: ys)
  case Nil
  then show ?case by (cases ys) (auto simp: le_bytes_u32_def)
next
  case (Cons x xs)
  then show ?case by (cases ys) (auto simp: le_bytes_append_inj(1), simp add: le_bytes_u32_def)
qed

lemma of_char_u8_inj: "(of_char c :: u8) = of_char d \<Longrightarrow> c = d"
proof -
  assume "(of_char c :: u8) = of_char d"
  then have "unat (of_char c :: u8) = unat (of_char d :: u8)" by simp
  moreover have "unat (of_char c :: u8) = of_char c" for c
    by (cases c) (simp add: of_char_def unat_of_nat)
  ultimately show ?thesis by simp
qed

lemma string_bytes_inj: "string_bytes s = string_bytes t \<Longrightarrow> s = t"
  unfolding string_bytes_def by (rule map_injective) (auto intro: injI of_char_u8_inj)

lemma length_string_bytes [simp]: "length (string_bytes s) = length s"
  by (simp add: string_bytes_def)

text \<open>A digest for concrete runs.\<close>

definition ones_digest :: Sha256Digest where
  "ones_digest = \<lparr>dg_bytes = replicate 32 1\<rparr>"

lemma nonzero_ones_digest [simp]: "nonzero ones_digest"
  by (simp add: nonzero_def ones_digest_def)

end
