(* ===== verification/Mailbox.thy ===== *)
theory Mailbox
  imports Ring Wire
begin

text \<open>
  \<open>controller_mailbox.h\<close> and \<open>controller_mailbox.cpp\<close>: two bounded queues between the request
  threads and the one controller thread. Commands travel in, output events travel out. Every
  operation runs under the mailbox mutex, so it is one atomic step; the calling thread's id is an
  explicit argument of the operations that check it. Both queues are rings of \<open>Ring\<close>. \<open>Create\<close> has
  no handler for a failed allocation of the two queues: the exception leaves it without a mailbox, so
  it is no outcome of \<open>mailbox_Create\<close>.

  The lemmas show, for every sequence of operations from \<open>Create\<close>, that each direction is a
  lossless FIFO whose sequence numbers are \<open>1, 2, 3, ...\<close> with no gap, that only the thread that
  first acted as the controller may take commands or publish events, and that the 32-bit tail
  arithmetic breaks for a capacity above \<open>2 ^ 31\<close>.
\<close>

section \<open>Messages\<close>

definition msg_controller_mailbox_limits_must_be_nonzero :: string where
  "msg_controller_mailbox_limits_must_be_nonzero = ''controller mailbox limits must be nonzero''"

definition msg_controller_command_identity_is_invalid :: string where
  "msg_controller_command_identity_is_invalid = ''controller command identity is invalid''"

definition msg_controller_command_mailbox_is_full :: string where
  "msg_controller_command_mailbox_is_full = ''controller command mailbox is full''"

definition msg_controller_command_sequence_wrapped :: string where
  "msg_controller_command_sequence_wrapped = ''controller command sequence wrapped''"

definition msg_controller_mailbox_has_another_owner :: string where
  "msg_controller_mailbox_has_another_owner = ''controller mailbox has another owner''"

definition msg_controller_output_event_is_invalid :: string where
  "msg_controller_output_event_is_invalid = ''controller output event is invalid''"

definition msg_controller_output_mailbox_is_full :: string where
  "msg_controller_output_mailbox_is_full = ''controller output mailbox is full''"

definition msg_controller_event_sequence_wrapped :: string where
  "msg_controller_event_sequence_wrapped = ''controller event sequence wrapped''"

section \<open>Data\<close>

text \<open>The \<open>_other\<close> constructors stand for the values of the enum's byte with no enumerator.\<close>

datatype ControllerCommandKind =
    kAdmit
  | kCancel
  | kShutdown
  | ControllerCommandKind_other u8

record ControllerCommand =
  cc_kind :: ControllerCommandKind
  cc_command_sequence :: u64
  cc_epoch :: u64
  cc_request_generation :: u64
  cc_payload_digest :: Sha256Digest

datatype ControllerOutputEventKind =
    kAdmitted
  | kTokenCommitted
  | kDraining
  | kCompleted
  | kCancelled
  | kFailed
  | ControllerOutputEventKind_other u8

datatype ControllerFinishReason = kNone | kStop | kLength | ControllerFinishReason_other u8

record ControllerOutputEventDraft =
  ed_kind :: ControllerOutputEventKind
  ed_epoch :: u64
  ed_request_generation :: u64
  ed_token_ordinal :: u64
  ed_token_id :: u32
  ed_state_digest :: Sha256Digest
  ed_plan_sequence :: u64
  ed_plan_event_index :: u32
  ed_plan_event_count :: u32
  ed_finish_reason :: ControllerFinishReason

record ControllerOutputEvent =
  ev_kind :: ControllerOutputEventKind
  ev_event_sequence :: u64
  ev_epoch :: u64
  ev_request_generation :: u64
  ev_token_ordinal :: u64
  ev_token_id :: u32
  ev_state_digest :: Sha256Digest
  ev_plan_sequence :: u64
  ev_plan_event_index :: u32
  ev_plan_event_count :: u32
  ev_finish_reason :: ControllerFinishReason

record ControllerMailboxLimits =
  ml_command_capacity :: u32
  ml_event_capacity :: u32

type_synonym thread_id = nat

record ControllerMailbox =
  mb_commands :: "ControllerCommand ring"
  mb_events :: "ControllerOutputEvent ring"
  mb_next_command_sequence :: u64
  mb_next_event_sequence :: u64
  mb_controller_thread :: "thread_id option"

section \<open>Operations\<close>

definition valid_command :: "ControllerCommandKind \<Rightarrow> bool" where
  "valid_command kind \<longleftrightarrow> kind = kAdmit \<or> kind = kCancel \<or> kind = kShutdown"

definition valid_event :: "ControllerOutputEventKind \<Rightarrow> bool" where
  "valid_event kind \<longleftrightarrow>
     kind \<in> {kAdmitted, kTokenCommitted, kDraining, kCompleted, kCancelled, kFailed}"

text \<open>Value-initialised vector elements.\<close>

definition default_command :: ControllerCommand where
  "default_command =
     \<lparr>cc_kind = ControllerCommandKind_other 0, cc_command_sequence = 0, cc_epoch = 0,
      cc_request_generation = 0, cc_payload_digest = zero_digest\<rparr>"

definition default_event :: ControllerOutputEvent where
  "default_event =
     \<lparr>ev_kind = ControllerOutputEventKind_other 0, ev_event_sequence = 0, ev_epoch = 0,
      ev_request_generation = 0, ev_token_ordinal = 0, ev_token_id = 0,
      ev_state_digest = zero_digest, ev_plan_sequence = 0, ev_plan_event_index = 0,
      ev_plan_event_count = 0, ev_finish_reason = kNone\<rparr>"

definition mailbox_new :: "ControllerMailboxLimits \<Rightarrow> ControllerMailbox" where
  "mailbox_new limits =
     \<lparr>mb_commands =
        \<lparr>rg_buffer = replicate (unat (ml_command_capacity limits)) default_command,
         rg_head = 0, rg_size = 0\<rparr>,
      mb_events =
        \<lparr>rg_buffer = replicate (unat (ml_event_capacity limits)) default_event,
         rg_head = 0, rg_size = 0\<rparr>,
      mb_next_command_sequence = 1,
      mb_next_event_sequence = 1,
      mb_controller_thread = None\<rparr>"

definition mailbox_Create :: "ControllerMailboxLimits \<Rightarrow> ControllerMailbox result" where
  "mailbox_Create limits =
     (if ml_command_capacity limits = 0 \<or> ml_event_capacity limits = 0
      then Inl (InvalidArgument msg_controller_mailbox_limits_must_be_nonzero)
      else Inr (mailbox_new limits))"

definition submit_command ::
  "ControllerCommandKind \<Rightarrow> u64 \<Rightarrow> u64 \<Rightarrow> Sha256Digest \<Rightarrow> ControllerMailbox \<Rightarrow>
     ControllerCommand result \<times> ControllerMailbox" where
  "submit_command kind epoch request_generation payload_digest mb =
     (if \<not> valid_command kind \<or> epoch = 0 \<or> request_generation = 0 \<or> \<not> nonzero payload_digest
      then (Inl (InvalidArgument msg_controller_command_identity_is_invalid), mb)
      else if ring_full (mb_commands mb)
      then (Inl (ResourceExhausted msg_controller_command_mailbox_is_full), mb)
      else if mb_next_command_sequence mb = 0
      then (Inl (FailedPrecondition msg_controller_command_sequence_wrapped), mb)
      else
        let command =
          \<lparr>cc_kind = kind, cc_command_sequence = mb_next_command_sequence mb, cc_epoch = epoch,
           cc_request_generation = request_generation, cc_payload_digest = payload_digest\<rparr>
        in (Inr command,
            mb\<lparr>mb_commands := ring_push command (mb_commands mb),
               mb_next_command_sequence := mb_next_command_sequence mb + 1\<rparr>))"

definition require_controller_thread_locked ::
  "thread_id \<Rightarrow> ControllerMailbox \<Rightarrow> status \<times> ControllerMailbox" where
  "require_controller_thread_locked current mb =
     (case mb_controller_thread mb of
        None \<Rightarrow> (Ok, mb\<lparr>mb_controller_thread := Some current\<rparr>)
      | Some owner \<Rightarrow>
          if owner \<noteq> current
          then (FailedPrecondition msg_controller_mailbox_has_another_owner, mb)
          else (Ok, mb))"

definition try_take_command ::
  "thread_id \<Rightarrow> ControllerMailbox \<Rightarrow> ControllerCommand option result \<times> ControllerMailbox" where
  "try_take_command current mb0 =
     (let (owner, mb) = require_controller_thread_locked current mb0 in
      if \<not> ok owner then (Inl owner, mb)
      else if rg_size (mb_commands mb) = 0 then (Inr None, mb)
      else (Inr (Some (ring_front (mb_commands mb))),
            mb\<lparr>mb_commands := ring_pop (mb_commands mb)\<rparr>))"

definition kTokenLimit :: u32 where
  "kTokenLimit = 151936"

definition event_draft_invalid :: "ControllerOutputEventDraft \<Rightarrow> bool" where
  "event_draft_invalid draft \<longleftrightarrow>
     (let token_event = (ed_kind draft = kTokenCommitted);
          plan_bundle = (ed_plan_sequence draft \<noteq> 0 \<or> ed_plan_event_index draft \<noteq> 0 \<or>
                         ed_plan_event_count draft \<noteq> 0);
          terminal_reason = (ed_finish_reason draft \<noteq> kNone)
      in \<not> valid_event (ed_kind draft) \<or> ed_epoch draft = 0 \<or> ed_request_generation draft = 0 \<or>
         \<not> nonzero (ed_state_digest draft) \<or>
         (token_event \<and> (ed_token_ordinal draft = 0 \<or> ed_token_id draft \<ge> kTokenLimit)) \<or>
         (\<not> token_event \<and> (ed_token_ordinal draft \<noteq> 0 \<or> ed_token_id draft \<noteq> 0)) \<or>
         (plan_bundle \<and> (ed_plan_sequence draft = 0 \<or> ed_plan_event_count draft = 0 \<or>
                         ed_plan_event_index draft \<ge> ed_plan_event_count draft)) \<or>
         (token_event \<and> (\<not> plan_bundle \<or> terminal_reason)) \<or>
         (terminal_reason \<and> (ed_kind draft \<noteq> kDraining \<or> \<not> plan_bundle)))"

definition event_of_draft :: "ControllerOutputEventDraft \<Rightarrow> u64 \<Rightarrow> ControllerOutputEvent" where
  "event_of_draft draft sequence =
     \<lparr>ev_kind = ed_kind draft, ev_event_sequence = sequence, ev_epoch = ed_epoch draft,
      ev_request_generation = ed_request_generation draft,
      ev_token_ordinal = ed_token_ordinal draft, ev_token_id = ed_token_id draft,
      ev_state_digest = ed_state_digest draft, ev_plan_sequence = ed_plan_sequence draft,
      ev_plan_event_index = ed_plan_event_index draft,
      ev_plan_event_count = ed_plan_event_count draft,
      ev_finish_reason = ed_finish_reason draft\<rparr>"

definition publish_event ::
  "thread_id \<Rightarrow> ControllerOutputEventDraft \<Rightarrow> ControllerMailbox \<Rightarrow>
     ControllerOutputEvent result \<times> ControllerMailbox" where
  "publish_event current draft mb0 =
     (let (owner, mb) = require_controller_thread_locked current mb0 in
      if \<not> ok owner then (Inl owner, mb)
      else if event_draft_invalid draft
      then (Inl (InvalidArgument msg_controller_output_event_is_invalid), mb)
      else if ring_full (mb_events mb)
      then (Inl (ResourceExhausted msg_controller_output_mailbox_is_full), mb)
      else if mb_next_event_sequence mb = 0
      then (Inl (FailedPrecondition msg_controller_event_sequence_wrapped), mb)
      else
        let event = event_of_draft draft (mb_next_event_sequence mb)
        in (Inr event,
            mb\<lparr>mb_events := ring_push event (mb_events mb),
               mb_next_event_sequence := mb_next_event_sequence mb + 1\<rparr>))"

definition try_take_event ::
  "ControllerMailbox \<Rightarrow> ControllerOutputEvent option result \<times> ControllerMailbox" where
  "try_take_event mb =
     (if rg_size (mb_events mb) = 0 then (Inr None, mb)
      else (Inr (Some (ring_front (mb_events mb))),
            mb\<lparr>mb_events := ring_pop (mb_events mb)\<rparr>))"

definition command_size :: "ControllerMailbox \<Rightarrow> u32" where
  "command_size mb = rg_size (mb_commands mb)"

definition event_size :: "ControllerMailbox \<Rightarrow> u32" where
  "event_size mb = rg_size (mb_events mb)"

definition event_available_capacity :: "ControllerMailbox \<Rightarrow> u32" where
  "event_available_capacity mb = of_nat (length (rg_buffer (mb_events mb))) - rg_size (mb_events mb)"

section \<open>Histories\<close>

text \<open>One call of the mailbox by some thread, and what it returned.\<close>

datatype mailbox_op =
    SubmitCommand ControllerCommandKind u64 u64 Sha256Digest
  | TakeCommand thread_id
  | PublishEvent thread_id ControllerOutputEventDraft
  | TakeEvent

datatype mailbox_reply =
    SubmitReply "ControllerCommand result"
  | TakeCommandReply "ControllerCommand option result"
  | PublishReply "ControllerOutputEvent result"
  | TakeEventReply "ControllerOutputEvent option result"

primrec mailbox_step :: "mailbox_op \<Rightarrow> ControllerMailbox \<Rightarrow> mailbox_reply \<times> ControllerMailbox" where
  "mailbox_step (SubmitCommand k e g d) mb = apfst SubmitReply (submit_command k e g d mb)"
| "mailbox_step (TakeCommand t) mb = apfst TakeCommandReply (try_take_command t mb)"
| "mailbox_step (PublishEvent t d) mb = apfst PublishReply (publish_event t d mb)"
| "mailbox_step TakeEvent mb = apfst TakeEventReply (try_take_event mb)"

primrec mailbox_run ::
  "mailbox_op list \<Rightarrow> ControllerMailbox \<Rightarrow> mailbox_reply list \<times> ControllerMailbox" where
  "mailbox_run [] mb = ([], mb)"
| "mailbox_run (op # ops) mb =
     (let (r, mb1) = mailbox_step op mb; (rs, mb2) = mailbox_run ops mb1 in (r # rs, mb2))"

fun accepted_command :: "mailbox_reply \<Rightarrow> ControllerCommand list" where
  "accepted_command (SubmitReply (Inr c)) = [c]"
| "accepted_command _ = []"

fun taken_command :: "mailbox_reply \<Rightarrow> ControllerCommand list" where
  "taken_command (TakeCommandReply (Inr (Some c))) = [c]"
| "taken_command _ = []"

fun accepted_event :: "mailbox_reply \<Rightarrow> ControllerOutputEvent list" where
  "accepted_event (PublishReply (Inr e)) = [e]"
| "accepted_event _ = []"

fun taken_event :: "mailbox_reply \<Rightarrow> ControllerOutputEvent list" where
  "taken_event (TakeEventReply (Inr (Some e))) = [e]"
| "taken_event _ = []"

definition mailbox_ok :: "ControllerMailbox \<Rightarrow> bool" where
  "mailbox_ok mb \<longleftrightarrow> ring_ok (mb_commands mb) \<and> ring_ok (mb_events mb)"

section \<open>Outcomes of each operation\<close>

definition owner_error :: status where
  "owner_error = FailedPrecondition msg_controller_mailbox_has_another_owner"

lemma owner_error_distinct:
  "InvalidArgument m \<noteq> owner_error" "ResourceExhausted m \<noteq> owner_error"
  "FailedPrecondition msg_controller_event_sequence_wrapped \<noteq> owner_error"
  by (simp_all add: owner_error_def)
    (simp add: FailedPrecondition_def make_status_def kMaxMessageBytes_def
      msg_controller_event_sequence_wrapped_def msg_controller_mailbox_has_another_owner_def)

lemma submit_command_cases:
  assumes "submit_command k e g d mb = (r, mb')"
  obtains (rejected) err where "r = Inl err" "mb' = mb"
  | (accepted) c where "r = Inr c" "\<not> ring_full (mb_commands mb)" "mb_next_command_sequence mb \<noteq> 0"
      "cc_command_sequence c = mb_next_command_sequence mb"
      "mb' = mb\<lparr>mb_commands := ring_push c (mb_commands mb),
                mb_next_command_sequence := mb_next_command_sequence mb + 1\<rparr>"
proof -
  have "(\<exists>err. r = Inl err \<and> mb' = mb) \<or>
    (\<exists>c. r = Inr c \<and> \<not> ring_full (mb_commands mb) \<and> mb_next_command_sequence mb \<noteq> 0 \<and>
      cc_command_sequence c = mb_next_command_sequence mb \<and>
      mb' = mb\<lparr>mb_commands := ring_push c (mb_commands mb),
                mb_next_command_sequence := mb_next_command_sequence mb + 1\<rparr>)"
    using assms by (auto simp: submit_command_def Let_def split: if_splits)
  with that show ?thesis by blast
qed

lemma require_controller_cases:
  obtains (other) "require_controller_thread_locked t mb = (owner_error, mb)"
    "mb_controller_thread mb \<noteq> None" "mb_controller_thread mb \<noteq> Some t"
  | (mine) "require_controller_thread_locked t mb = (Ok, mb\<lparr>mb_controller_thread := Some t\<rparr>)"
    "mb_controller_thread mb = None \<or> mb_controller_thread mb = Some t"
proof (cases "mb_controller_thread mb")
  case None
  then show ?thesis by (intro mine) (simp_all add: require_controller_thread_locked_def)
next
  case (Some u)
  show ?thesis
  proof (cases "u = t")
    case True
    with Some have "mb\<lparr>mb_controller_thread := Some t\<rparr> = mb" by simp
    with Some True show ?thesis by (intro mine) (simp_all add: require_controller_thread_locked_def)
  next
    case False
    with Some show ?thesis
      by (intro other) (simp_all add: require_controller_thread_locked_def owner_error_def)
  qed
qed

lemma not_ok_owner_error [simp]: "\<not> ok owner_error"
  by (simp add: owner_error_def)

lemma try_take_command_cases:
  assumes "try_take_command t mb = (r, mb')"
  obtains (other) "r = Inl owner_error" "mb' = mb" "mb_controller_thread mb \<noteq> None"
      "mb_controller_thread mb \<noteq> Some t"
  | (empty) "r = Inr None" "mb' = mb\<lparr>mb_controller_thread := Some t\<rparr>"
      "mb_controller_thread mb = None \<or> mb_controller_thread mb = Some t"
  | (taken) "r = Inr (Some (ring_front (mb_commands mb)))" "rg_size (mb_commands mb) \<noteq> 0"
      "mb' = mb\<lparr>mb_controller_thread := Some t, mb_commands := ring_pop (mb_commands mb)\<rparr>"
      "mb_controller_thread mb = None \<or> mb_controller_thread mb = Some t"
proof (rule require_controller_cases [of t mb])
  assume "require_controller_thread_locked t mb = (owner_error, mb)"
    "mb_controller_thread mb \<noteq> None" "mb_controller_thread mb \<noteq> Some t"
  with assms show ?thesis by (intro other) (simp_all add: try_take_command_def)
next
  assume "require_controller_thread_locked t mb = (Ok, mb\<lparr>mb_controller_thread := Some t\<rparr>)"
    and own: "mb_controller_thread mb = None \<or> mb_controller_thread mb = Some t"
  with assms show ?thesis
    by (cases "rg_size (mb_commands mb) = 0")
      (auto simp: try_take_command_def intro: empty [OF _ _ own] taken [OF _ _ _ own])
qed

lemma publish_event_cases:
  assumes "publish_event t draft mb = (r, mb')"
  obtains (other) "r = Inl owner_error" "mb' = mb" "mb_controller_thread mb \<noteq> None"
      "mb_controller_thread mb \<noteq> Some t"
  | (rejected) err where "r = Inl err" "err \<noteq> owner_error" "mb' = mb\<lparr>mb_controller_thread := Some t\<rparr>"
      "mb_controller_thread mb = None \<or> mb_controller_thread mb = Some t"
  | (accepted) e where "r = Inr e" "e = event_of_draft draft (mb_next_event_sequence mb)"
      "\<not> event_draft_invalid draft" "\<not> ring_full (mb_events mb)" "mb_next_event_sequence mb \<noteq> 0"
      "mb' = mb\<lparr>mb_controller_thread := Some t, mb_events := ring_push e (mb_events mb),
                mb_next_event_sequence := mb_next_event_sequence mb + 1\<rparr>"
      "mb_controller_thread mb = None \<or> mb_controller_thread mb = Some t"
proof (rule require_controller_cases [of t mb])
  assume "require_controller_thread_locked t mb = (owner_error, mb)"
    "mb_controller_thread mb \<noteq> None" "mb_controller_thread mb \<noteq> Some t"
  with assms show ?thesis by (intro other) (simp_all add: publish_event_def)
next
  assume req: "require_controller_thread_locked t mb = (Ok, mb\<lparr>mb_controller_thread := Some t\<rparr>)"
    and own: "mb_controller_thread mb = None \<or> mb_controller_thread mb = Some t"
  show ?thesis
  proof (cases "event_draft_invalid draft \<or> ring_full (mb_events mb) \<or> mb_next_event_sequence mb = 0")
    case True
    then have "\<exists>err. publish_event t draft mb = (Inl err, mb\<lparr>mb_controller_thread := Some t\<rparr>) \<and>
        err \<noteq> owner_error"
      by (simp add: publish_event_def req owner_error_distinct) blast
    with assms show ?thesis by (auto intro: rejected [OF _ _ _ own])
  next
    case False
    with assms req show ?thesis
      by (intro accepted [OF _ refl _ _ _ _ own]) (auto simp: publish_event_def Let_def)
  qed
qed

lemma try_take_event_cases:
  assumes "try_take_event mb = (r, mb')"
  obtains (empty) "r = Inr None" "mb' = mb"
  | (taken) "r = Inr (Some (ring_front (mb_events mb)))" "rg_size (mb_events mb) \<noteq> 0"
      "mb' = mb\<lparr>mb_events := ring_pop (mb_events mb)\<rparr>"
  using assms by (cases "rg_size (mb_events mb) = 0") (auto simp: try_take_event_def intro: empty taken)

lemma apfst_eqE: "apfst f p = (r, q) \<Longrightarrow> (\<And>x. p = (x, q) \<Longrightarrow> r = f x \<Longrightarrow> thesis) \<Longrightarrow> thesis"
  by (cases p) auto

lemmas mailbox_op_cases =
  submit_command_cases try_take_command_cases publish_event_cases try_take_event_cases

section \<open>Each direction is a FIFO\<close>

lemma not_full_push:
  assumes "ring_ok r" and "\<not> ring_full r"
  shows "ring_ok (ring_push x r)" and "ring_contents (ring_push x r) = ring_contents r @ [x]"
proof -
  have "length (ring_contents r) < ring_capacity r"
    using assms by (simp add: ring_full_def ring_ok_def ring_capacity_def)
  with assms(1) show "ring_ok (ring_push x r)" "ring_contents (ring_push x r) = ring_contents r @ [x]"
    by (rule ring_fifo.invar_push, intro ring_fifo.contents_push)
qed

lemma nonempty_pop:
  assumes "ring_ok r" and "rg_size r \<noteq> 0"
  shows "ring_ok (ring_pop r)" and "ring_front r # ring_contents (ring_pop r) = ring_contents r"
  using assms ring_fifo.invar_pop [of r] ring_fifo.front_then_pop [of r]
  by (simp_all add: ring_contents_empty_iff)

lemma mailbox_step_fifo:
  assumes "mailbox_ok mb" and "mailbox_step op mb = (r, mb')"
  shows "mailbox_ok mb'"
    and "ring_contents (mb_commands mb) @ accepted_command r =
      taken_command r @ ring_contents (mb_commands mb')"
    and "ring_contents (mb_events mb) @ accepted_event r =
      taken_event r @ ring_contents (mb_events mb')"
  using assms
  by (cases op; auto elim!: apfst_eqE mailbox_op_cases
      simp: mailbox_ok_def not_full_push nonempty_pop)+

lemma mailbox_run_fifo:
  assumes "mailbox_ok mb" and "mailbox_run ops mb = (rs, mb')"
  shows "mailbox_ok mb' \<and>
    ring_contents (mb_commands mb) @ concat (map accepted_command rs) =
      concat (map taken_command rs) @ ring_contents (mb_commands mb') \<and>
    ring_contents (mb_events mb) @ concat (map accepted_event rs) =
      concat (map taken_event rs) @ ring_contents (mb_events mb')"
  using assms
proof (induction ops arbitrary: mb rs)
  case Nil
  then show ?case by simp
next
  case (Cons op ops)
  obtain r mb1 where s: "mailbox_step op mb = (r, mb1)" by fastforce
  obtain rs1 where rs: "mailbox_run ops mb1 = (rs1, mb')" "rs = r # rs1"
    using Cons.prems(2) s by (auto split: prod.splits)
  note st = mailbox_step_fifo [OF Cons.prems(1) s]
  note IH = Cons.IH [OF st(1) rs(1)]
  show ?case
    using IH st(2,3) rs(2) by simp (metis append.assoc)
qed

section \<open>Sequence numbers\<close>

lemma word_of_nat_Suc_next:
  assumes "Suc k \<le> 2 ^ 64" and "(of_nat (Suc k) :: u64) \<noteq> 0"
  shows "Suc (Suc k) \<le> 2 ^ 64" and "unat (of_nat (Suc k) :: u64) = Suc k"
proof -
  have "Suc k \<noteq> 2 ^ 64"
  proof
    assume "Suc k = 2 ^ 64"
    then have "(of_nat (Suc k) :: u64) = of_nat (2 ^ 64)" by (rule arg_cong)
    also have "\<dots> = 0" by (simp only: of_nat_power of_nat_numeral) simp
    finally show False using assms(2) by simp
  qed
  with assms(1) have "Suc k < 2 ^ 64" by simp
  then show "Suc (Suc k) \<le> 2 ^ 64" and "unat (of_nat (Suc k) :: u64) = Suc k"
    by (simp_all add: unat_of_nat del: of_nat_Suc)
qed

definition sequences_at :: "nat \<Rightarrow> nat \<Rightarrow> ControllerMailbox \<Rightarrow> bool" where
  "sequences_at c e mb \<longleftrightarrow>
     mb_next_command_sequence mb = of_nat (Suc c) \<and> Suc c \<le> 2 ^ 64 \<and>
     mb_next_event_sequence mb = of_nat (Suc e) \<and> Suc e \<le> 2 ^ 64"

lemma mailbox_step_sequences:
  assumes "sequences_at c e mb" and "mailbox_step op mb = (r, mb')"
  shows "sequences_at (c + length (accepted_command r)) (e + length (accepted_event r)) mb'"
    and "map (unat \<circ> cc_command_sequence) (accepted_command r) =
      [Suc c..<Suc (c + length (accepted_command r))]"
    and "map (unat \<circ> ev_event_sequence) (accepted_event r) =
      [Suc e..<Suc (e + length (accepted_event r))]"
proof -
  note c = word_of_nat_Suc_next [of c] and e = word_of_nat_Suc_next [of e]
  show "sequences_at (c + length (accepted_command r)) (e + length (accepted_event r)) mb'"
    using assms c e
    by (cases op) (auto elim!: apfst_eqE mailbox_op_cases simp: sequences_at_def algebra_simps)
  show "map (unat \<circ> cc_command_sequence) (accepted_command r) =
      [Suc c..<Suc (c + length (accepted_command r))]"
    using assms c
    by (cases op) (auto elim!: apfst_eqE mailbox_op_cases simp: sequences_at_def simp del: of_nat_Suc)
  show "map (unat \<circ> ev_event_sequence) (accepted_event r) =
      [Suc e..<Suc (e + length (accepted_event r))]"
    using assms e
    by (cases op) (auto elim!: apfst_eqE mailbox_op_cases
        simp: sequences_at_def event_of_draft_def simp del: of_nat_Suc)
qed

lemma numbered_append:
  assumes "map f xs = [Suc a..<Suc (a + length xs)]"
    and "map f ys = [Suc (a + length xs)..<Suc (a + length xs + length ys)]"
  shows "map f (xs @ ys) = [Suc a..<Suc (a + length (xs @ ys))]"
proof -
  have "[Suc a..<Suc (a + length (xs @ ys))] =
      [Suc a..<Suc (a + length xs)] @ [Suc (a + length xs)..<Suc (a + length xs + length ys)]"
    using upt_add_eq_append [of "Suc a" "Suc (a + length xs)" "length ys"]
    by (simp add: add.assoc del: upt_Suc)
  with assms show ?thesis by (simp del: upt_Suc)
qed

lemma numbered_nth: "map f xs = [Suc 0..<Suc (length xs)] \<Longrightarrow> k < length xs \<Longrightarrow> f (xs ! k) = Suc k"
  by (drule arg_cong [of _ _ "\<lambda>ys. ys ! k"]) (simp del: upt_Suc)

lemma mailbox_run_sequences:
  assumes "sequences_at c e mb" and "mailbox_run ops mb = (rs, mb')"
  shows "map (unat \<circ> cc_command_sequence) (concat (map accepted_command rs)) =
      [Suc c..<Suc (c + length (concat (map accepted_command rs)))] \<and>
    map (unat \<circ> ev_event_sequence) (concat (map accepted_event rs)) =
      [Suc e..<Suc (e + length (concat (map accepted_event rs)))]"
  using assms
proof (induction ops arbitrary: mb rs c e)
  case Nil
  then show ?case by simp
next
  case (Cons op ops)
  obtain r mb1 where s: "mailbox_step op mb = (r, mb1)" by fastforce
  obtain rs1 where rs: "mailbox_run ops mb1 = (rs1, mb')" "rs = r # rs1"
    using Cons.prems(2) s by (auto split: prod.splits)
  note st = mailbox_step_sequences [OF Cons.prems(1) s]
  note IH = Cons.IH [OF st(1) rs(1)]
  show ?case
    using numbered_append [OF st(2) conjunct1 [OF IH]] numbered_append [OF st(3) conjunct2 [OF IH]]
    by (simp only: rs(2) list.map concat.simps)
qed

lemma mailbox_ok_Create:
  assumes "mailbox_Create limits = Inr mb"
    and "ml_command_capacity limits \<le> 2 ^ 31" and "ml_event_capacity limits \<le> 2 ^ 31"
  shows "mailbox_ok mb" and "ring_contents (mb_commands mb) = []" and "ring_contents (mb_events mb) = []"
proof -
  have mb: "mb = mailbox_new limits" "ml_command_capacity limits \<noteq> 0" "ml_event_capacity limits \<noteq> 0"
    using assms(1) by (auto simp: mailbox_Create_def split: if_splits)
  have cap: "0 < unat w \<and> unat w \<le> 2 ^ 31" if "w \<le> 2 ^ 31" "w \<noteq> 0" for w :: u32
    using that unat_gt_0_word [of w] word_le_nat_alt [of w "2 ^ 31"] by simp
  show "mailbox_ok mb"
    using cap [OF assms(2) mb(2)] cap [OF assms(3) mb(3)]
    by (simp add: mb(1) mailbox_ok_def mailbox_new_def ring_ok_def)
  show "ring_contents (mb_commands mb) = []" "ring_contents (mb_events mb) = []"
    by (simp_all add: mb(1) mailbox_new_def ring_contents_def)
qed

text \<open>
  C4. For capacities of at most \<open>2 ^ 31\<close> and any sequence of mailbox calls by any threads, starting
  from a freshly created mailbox: the commands accepted so far are exactly the commands taken so
  far, in order, followed by those still queued, and the same holds of events; and in each
  direction the accepted items carry the sequence numbers 1, 2, 3, ... without gap or repetition.
\<close>

theorem mailbox_delivers_in_order:
  assumes "mailbox_Create limits = Inr mb"
    and "ml_command_capacity limits \<le> 2 ^ 31" and "ml_event_capacity limits \<le> 2 ^ 31"
    and "mailbox_run ops mb = (rs, mb')"
  shows "concat (map accepted_command rs) =
      concat (map taken_command rs) @ ring_contents (mb_commands mb') \<and>
    concat (map accepted_event rs) =
      concat (map taken_event rs) @ ring_contents (mb_events mb') \<and>
    map (unat \<circ> cc_command_sequence) (concat (map accepted_command rs)) =
      [1..<Suc (length (concat (map accepted_command rs)))] \<and>
    map (unat \<circ> ev_event_sequence) (concat (map accepted_event rs)) =
      [1..<Suc (length (concat (map accepted_event rs)))]"
proof -
  have mb: "mb = mailbox_new limits"
    using assms(1) by (auto simp: mailbox_Create_def split: if_splits)
  have "mailbox_ok mb" using mailbox_ok_Create [OF assms(1-3)] by simp
  note fifo = mailbox_run_fifo [OF this assms(4)]
  note empty = mailbox_ok_Create(2,3) [OF assms(1-3)]
  have "sequences_at 0 0 mb" by (simp add: mb mailbox_new_def sequences_at_def)
  from mailbox_run_sequences [OF this assms(4)] fifo empty show ?thesis
    by (simp del: upt_Suc)
qed

definition example_mailbox_ops :: "mailbox_op list" where
  "example_mailbox_ops =
     [SubmitCommand kAdmit 7 1 ones_digest, SubmitCommand kCancel 7 1 ones_digest, TakeCommand 3]"

definition example_mailbox_limits :: ControllerMailboxLimits where
  "example_mailbox_limits = \<lparr>ml_command_capacity = 2, ml_event_capacity = 2\<rparr>"

theorem mailbox_delivers_in_order_witness:
  "\<exists>rs mb'. mailbox_run example_mailbox_ops (mailbox_new example_mailbox_limits) = (rs, mb') \<and>
     concat (map accepted_command rs) =
       concat (map taken_command rs) @ ring_contents (mb_commands mb') \<and>
     concat (map accepted_event rs) =
       concat (map taken_event rs) @ ring_contents (mb_events mb') \<and>
     map (unat \<circ> cc_command_sequence) (concat (map accepted_command rs)) =
       [1..<Suc (length (concat (map accepted_command rs)))] \<and>
     map (unat \<circ> ev_event_sequence) (concat (map accepted_event rs)) =
       [1..<Suc (length (concat (map accepted_event rs)))]"
proof -
  obtain rs mb' where
    run: "mailbox_run example_mailbox_ops (mailbox_new example_mailbox_limits) = (rs, mb')"
    by fastforce
  have "mailbox_Create example_mailbox_limits = Inr (mailbox_new example_mailbox_limits)"
    by (simp add: mailbox_Create_def example_mailbox_limits_def)
  moreover have "ml_command_capacity example_mailbox_limits \<le> 2 ^ 31"
    "ml_event_capacity example_mailbox_limits \<le> 2 ^ 31"
    by (simp_all add: example_mailbox_limits_def)
  ultimately show ?thesis
    using mailbox_delivers_in_order [OF _ _ _ run] run by blast
qed

section \<open>One controller thread\<close>

text \<open>The thread an operation acts for as the controller, and whether it was turned away.\<close>

fun controller_thread_of :: "mailbox_op \<Rightarrow> thread_id option" where
  "controller_thread_of (TakeCommand t) = Some t"
| "controller_thread_of (PublishEvent t _) = Some t"
| "controller_thread_of _ = None"

fun turned_away :: "mailbox_reply \<Rightarrow> bool" where
  "turned_away (TakeCommandReply (Inl e)) \<longleftrightarrow> e = owner_error"
| "turned_away (PublishReply (Inl e)) \<longleftrightarrow> e = owner_error"
| "turned_away _ \<longleftrightarrow> False"

lemma mailbox_step_owner:
  assumes "mailbox_step op mb = (r, mb')"
  shows "mb_controller_thread mb = Some t \<Longrightarrow> mb_controller_thread mb' = Some t"
    and "controller_thread_of op = Some u \<Longrightarrow> \<not> turned_away r \<Longrightarrow> mb_controller_thread mb' = Some u"
    and "controller_thread_of op = Some u \<Longrightarrow> turned_away r \<Longrightarrow> mb' = mb"
  using assms by (cases op; auto elim!: apfst_eqE mailbox_op_cases)+

lemma mailbox_run_owner:
  assumes "mailbox_run ops mb = (rs, mb')" and "mb_controller_thread mb = Some t"
  shows "mb_controller_thread mb' = Some t \<and>
    (\<forall>(op, r)\<in>set (zip ops rs). \<forall>u. controller_thread_of op = Some u \<longrightarrow> \<not> turned_away r \<longrightarrow> u = t)"
  using assms
proof (induction ops arbitrary: mb rs)
  case Nil
  then show ?case by simp
next
  case (Cons op ops)
  obtain r mb1 where s: "mailbox_step op mb = (r, mb1)" by fastforce
  obtain rs1 where rs: "mailbox_run ops mb1 = (rs1, mb')" "rs = r # rs1"
    using Cons.prems(1) s by (auto split: prod.splits)
  note own = mailbox_step_owner [OF s]
  have "\<forall>u. controller_thread_of op = Some u \<longrightarrow> \<not> turned_away r \<longrightarrow> u = t"
    using own(1) [OF Cons.prems(2)] own(2) by auto
  with Cons.IH [OF rs(1) own(1) [OF Cons.prems(2)]] rs(2) show ?case by simp
qed

lemma mailbox_run_single_owner:
  assumes "mailbox_run ops mb = (rs, mb')"
  shows "\<exists>t. \<forall>(op, r)\<in>set (zip ops rs). \<forall>u.
    controller_thread_of op = Some u \<longrightarrow> \<not> turned_away r \<longrightarrow> u = t"
  using assms
proof (induction ops arbitrary: mb rs)
  case Nil
  then show ?case by simp
next
  case (Cons op ops)
  obtain r mb1 where s: "mailbox_step op mb = (r, mb1)" by fastforce
  obtain rs1 where rs: "mailbox_run ops mb1 = (rs1, mb')" "rs = r # rs1"
    using Cons.prems s by (auto split: prod.splits)
  show ?case
  proof (cases "\<exists>t. mb_controller_thread mb1 = Some t")
    case True
    then obtain t where t: "mb_controller_thread mb1 = Some t" ..
    with mailbox_run_owner [OF rs(1) t] mailbox_step_owner(2) [OF s] rs(2)
    show ?thesis by (intro exI [of _ t]) auto
  next
    case False
    with mailbox_step_owner(2) [OF s] Cons.IH [OF rs(1)] rs(2) show ?thesis by fastforce
  qed
qed

text \<open>
  C5. In every history of mailbox calls there is one thread such that every \<open>try_take_command\<close> and
  every \<open>publish_event\<close> call by any other thread was turned away with the ownership error; so no two
  threads ever act as the controller of one mailbox.
\<close>

theorem mailbox_has_one_controller:
  assumes "mailbox_run ops mb = (rs, mb')"
    and "(op1, r1) \<in> set (zip ops rs)" and "controller_thread_of op1 = Some t" and "\<not> turned_away r1"
    and "(op2, r2) \<in> set (zip ops rs)" and "controller_thread_of op2 = Some u" and "t \<noteq> u"
  shows "turned_away r2"
proof -
  obtain v where v: "\<forall>(op, r)\<in>set (zip ops rs). \<forall>u.
      controller_thread_of op = Some u \<longrightarrow> \<not> turned_away r \<longrightarrow> u = v"
    using mailbox_run_single_owner [OF assms(1)] by blast
  have "t = v" using bspec [OF v assms(2)] assms(3,4) by simp
  with bspec [OF v assms(5)] assms(6,7) show ?thesis by auto
qed

definition example_owner_ops :: "mailbox_op list" where
  "example_owner_ops = [TakeCommand 3, TakeCommand 4]"

theorem mailbox_has_one_controller_witness:
  "\<exists>mb'. mailbox_run example_owner_ops (mailbox_new example_mailbox_limits) =
     ([TakeCommandReply (Inr None), TakeCommandReply (Inl owner_error)], mb') \<and>
     turned_away (TakeCommandReply (Inl owner_error))"
proof -
  have run: "mailbox_run example_owner_ops (mailbox_new example_mailbox_limits) =
     ([TakeCommandReply (Inr None), TakeCommandReply (Inl owner_error)],
      (mailbox_new example_mailbox_limits)\<lparr>mb_controller_thread := Some 3\<rparr>)"
    by (simp add: example_owner_ops_def try_take_command_def require_controller_thread_locked_def
        mailbox_new_def owner_error_def)
  have "turned_away (TakeCommandReply (Inl owner_error))"
    by (rule mailbox_has_one_controller
        [OF run, of "TakeCommand 3" "TakeCommandReply (Inr None)" 3 "TakeCommand 4" _ 4])
      (simp_all add: example_owner_ops_def)
  with run show ?thesis by blast
qed

section \<open>The capacity bound is needed\<close>

lemma ring_contents_nth:
  "k < unat (rg_size r) \<Longrightarrow>
     ring_contents r ! k = rg_buffer r ! ((unat (rg_head r) + k) mod length (rg_buffer r))"
  by (simp add: ring_contents_def)

lemma mailbox_run_append:
  "mailbox_run ops mb = (rs, mb1) \<Longrightarrow> mailbox_run ops' mb1 = (rs', mb2) \<Longrightarrow>
     mailbox_run (ops @ ops') mb = (rs @ rs', mb2)"
proof (induction ops arbitrary: mb rs)
  case Nil
  then show ?case by simp
next
  case (Cons op ops)
  obtain r mb3 where s: "mailbox_step op mb = (r, mb3)" by fastforce
  obtain rs3 where "mailbox_run ops mb3 = (rs3, mb1)" "rs = r # rs3"
    using Cons.prems(1) s by (auto split: prod.splits)
  with Cons.IH Cons.prems(2) s show ?case by simp
qed

text \<open>The command ring of a mailbox is at head \<open>h\<close> with \<open>s\<close> entries, out of \<open>2 ^ 31 + 1\<close>.\<close>

definition ring_at :: "nat \<Rightarrow> nat \<Rightarrow> nat \<Rightarrow> ControllerMailbox \<Rightarrow> bool" where
  "ring_at h s k mb \<longleftrightarrow>
     length (rg_buffer (mb_commands mb)) = 2147483649 \<and> rg_head (mb_commands mb) = of_nat h \<and>
     rg_size (mb_commands mb) = of_nat s \<and> mb_next_command_sequence mb = of_nat (Suc k) \<and>
     mb_controller_thread mb \<in> {None, Some 0}"

lemma submit_one:
  assumes "ring_at h s k mb" and "s \<le> 2147483648" and "k < 2 ^ 33"
  shows "\<exists>c mb'. submit_command kAdmit 1 1 ones_digest mb = (Inr c, mb') \<and>
    ring_at h (Suc s) (Suc k) mb' \<and> cc_command_sequence c = of_nat (Suc k) \<and>
    mb_commands mb' = ring_push c (mb_commands mb)"
proof -
  have "unat (of_nat s :: u32) = s" using assms(2) by (simp add: unat_of_nat)
  then have full: "\<not> ring_full (mb_commands mb)"
    using assms(1,2) by (simp add: ring_full_def ring_at_def)
  have "unat (of_nat (Suc k) :: u64) = Suc k" using assms(3) by (simp add: unat_of_nat del: of_nat_Suc)
  then have seq: "(of_nat (Suc k) :: u64) \<noteq> 0" by (metis nat.distinct(1) unat_0)
  show ?thesis
    using assms(1) full seq
    by (simp add: submit_command_def ring_at_def ring_push_def valid_command_def Let_def add.commute)
qed

lemma submit_many:
  "ring_at h s k mb \<Longrightarrow> s + n \<le> 2147483649 \<Longrightarrow> k + n \<le> 2 ^ 33 \<Longrightarrow>
    \<exists>rs mb'. mailbox_run (replicate n (SubmitCommand kAdmit 1 1 ones_digest)) mb = (rs, mb') \<and>
      ring_at h (s + n) (k + n) mb' \<and> length (concat (map accepted_command rs)) = n \<and>
      concat (map taken_command rs) = []"
proof (induction n arbitrary: s k mb)
  case 0
  then show ?case by simp
next
  case (Suc n)
  then obtain c mb1 where c: "submit_command kAdmit 1 1 ones_digest mb = (Inr c, mb1)"
    "ring_at h (Suc s) (Suc k) mb1"
    using submit_one [of h s k mb] by auto
  obtain rs mb' where "mailbox_run (replicate n (SubmitCommand kAdmit 1 1 ones_digest)) mb1 = (rs, mb')"
    "ring_at h (Suc s + n) (Suc k + n) mb'" "length (concat (map accepted_command rs)) = n"
    "concat (map taken_command rs) = []"
    using Suc.IH [OF c(2)] Suc.prems by auto
  with c show ?case by (intro exI [of _ "SubmitReply (Inr c) # rs"] exI [of _ mb']) simp
qed

lemma take_one:
  assumes "ring_at h (Suc n) k mb" and "h + n < 2147483648"
  shows "\<exists>c mb'. try_take_command 0 mb = (Inr (Some c), mb') \<and> ring_at (Suc h) n k mb'"
proof -
  have h: "unat (rg_head (mb_commands mb) + 1) = Suc h"
  proof -
    have "rg_head (mb_commands mb) + 1 = of_nat (Suc h)"
      using assms(1) by (simp add: ring_at_def)
    then show ?thesis using assms(2) by (simp add: unat_of_nat del: of_nat_Suc)
  qed
  have "unat (of_nat (Suc n) :: u32) = Suc n"
    using assms(2) by (simp add: unat_of_nat del: of_nat_Suc)
  then have n: "rg_size (mb_commands mb) \<noteq> 0"
    using assms(1) by (metis nat.distinct(1) ring_at_def unat_0)
  have "ring_at (Suc h) n k (mb\<lparr>mb_controller_thread := Some 0, mb_commands := ring_pop (mb_commands mb)\<rparr>)"
    using assms h by (simp add: ring_at_def ring_pop_def)
  moreover have "mb\<lparr>mb_controller_thread := Some 0\<rparr> = mb" if "mb_controller_thread mb = Some 0"
    using that by simp
  ultimately show ?thesis
    using assms(1) n
    by (cases "mb_controller_thread mb")
      (auto simp: try_take_command_def require_controller_thread_locked_def ring_at_def)
qed

lemma take_many:
  "ring_at h n k mb \<Longrightarrow> h + n \<le> 2147483648 \<Longrightarrow>
    \<exists>rs mb'. mailbox_run (replicate n (TakeCommand 0)) mb = (rs, mb') \<and>
      ring_at (h + n) 0 k mb' \<and> length (concat (map taken_command rs)) = n \<and>
      concat (map accepted_command rs) = []"
proof (induction n arbitrary: h mb)
  case 0
  then show ?case by simp
next
  case (Suc n)
  obtain c mb1 where c: "try_take_command 0 mb = (Inr (Some c), mb1)" "ring_at (Suc h) n k mb1"
    using take_one [OF Suc.prems(1)] Suc.prems(2) by auto
  obtain rs mb' where "mailbox_run (replicate n (TakeCommand 0)) mb1 = (rs, mb')"
    "ring_at (Suc h + n) 0 k mb'" "length (concat (map taken_command rs)) = n"
    "concat (map accepted_command rs) = []"
    using Suc.IH [OF c(2)] Suc.prems by auto
  with c show ?case by (intro exI [of _ "TakeCommandReply (Inr (Some c)) # rs"] exI [of _ mb']) simp
qed

lemma wrapped_push:
  assumes "ring_at 2147483648 2147483648 k mb"
  shows "ring_contents (ring_push c (mb_commands mb)) ! 1 = c"
proof -
  let ?r = "mb_commands mb"
  have r: "length (rg_buffer ?r) = 2147483649" "rg_head ?r = 2147483648" "rg_size ?r = 2147483648"
    using assms by (simp_all add: ring_at_def)
  have tail: "ring_tail ?r = 0" by (simp add: ring_tail_def r)
  have "ring_contents (ring_push c ?r) ! 1 =
      rg_buffer (ring_push c ?r) ! ((unat (rg_head ?r) + 1) mod length (rg_buffer ?r))"
    by (subst ring_contents_nth) (simp_all add: ring_push_def r)
  also have "(unat (rg_head ?r) + 1) mod length (rg_buffer ?r) = 0"
    by (simp add: r)
  finally show ?thesis
    using r(1) by (simp add: ring_push_def tail)
qed

lemma fill_drain_fill:
  assumes at0: "ring_at 0 0 0 mb"
  obtains ops rs mb' where "mailbox_run ops mb = (rs, mb')"
    "ring_at 2147483648 2147483648 4294967296 mb'"
    "length (concat (map accepted_command rs)) = 4294967296"
    "length (concat (map taken_command rs)) = 2147483648"
proof -
  let ?N = "2147483648 :: nat"
  let ?sub = "SubmitCommand kAdmit 1 1 ones_digest"
  obtain rs1 mb1 where r1: "mailbox_run (replicate ?N ?sub) mb = (rs1, mb1)" "ring_at 0 ?N ?N mb1"
    "length (concat (map accepted_command rs1)) = ?N" "concat (map taken_command rs1) = []"
    using submit_many [OF at0, of ?N] by auto
  obtain rs2 mb2 where r2: "mailbox_run (replicate ?N (TakeCommand 0)) mb1 = (rs2, mb2)"
    "ring_at ?N 0 ?N mb2" "length (concat (map taken_command rs2)) = ?N"
    "concat (map accepted_command rs2) = []"
    using take_many [OF r1(2)] by auto
  obtain rs3 mb3 where r3: "mailbox_run (replicate ?N ?sub) mb2 = (rs3, mb3)" "ring_at ?N ?N (?N + ?N) mb3"
    "length (concat (map accepted_command rs3)) = ?N" "concat (map taken_command rs3) = []"
    using submit_many [OF r2(2), of ?N] by auto
  have "mailbox_run (replicate ?N ?sub @ replicate ?N (TakeCommand 0) @ replicate ?N ?sub) mb =
      (rs1 @ rs2 @ rs3, mb3)"
    by (intro mailbox_run_append [OF r1(1)] mailbox_run_append [OF r2(1)] r3(1))
  moreover have "length (concat (map accepted_command (rs1 @ rs2 @ rs3))) = 4294967296"
    "length (concat (map taken_command (rs1 @ rs2 @ rs3))) = ?N"
    using r1(3,4) r2(3,4) r3(3,4) by (simp_all del: concat_eq_Nil_conv)
  moreover have "ring_at ?N ?N 4294967296 mb3" using r3(2) by simp
  ultimately show thesis by (intro that)
qed

text \<open>
  C6. The bound of \<open>2 ^ 31\<close> on the capacities is needed. \<open>Create\<close> accepts a command capacity of
  \<open>2 ^ 31 + 1\<close>, and some sequence of valid submissions and takes on such a mailbox ends with a queue
  that is not the accepted commands minus the taken ones: the 32-bit sum
  \<open>command_head_ + command_size_\<close> wraps, and the last submission overwrites a queued command.
\<close>

theorem mailbox_large_capacity_loses_command:
  "\<exists>mb ops rs mb'.
     mailbox_Create \<lparr>ml_command_capacity = 2 ^ 31 + 1, ml_event_capacity = 1\<rparr> = Inr mb \<and>
     mailbox_run ops mb = (rs, mb') \<and>
     concat (map accepted_command rs) \<noteq>
       concat (map taken_command rs) @ ring_contents (mb_commands mb')"
proof -
  let ?N = "2147483648 :: nat" and ?sub = "SubmitCommand kAdmit 1 1 ones_digest"
  let ?mb = "mailbox_new \<lparr>ml_command_capacity = 2 ^ 31 + 1, ml_event_capacity = 1\<rparr>"
  have create: "mailbox_Create \<lparr>ml_command_capacity = 2 ^ 31 + 1, ml_event_capacity = 1\<rparr> = Inr ?mb"
    by (simp add: mailbox_Create_def)
  have "ring_at 0 0 0 ?mb" by (simp add: ring_at_def mailbox_new_def)
  then obtain ops rs mb3 where r: "mailbox_run ops ?mb = (rs, mb3)" "ring_at ?N ?N 4294967296 mb3"
    "length (concat (map accepted_command rs)) = 4294967296"
    "length (concat (map taken_command rs)) = ?N"
    by (rule fill_drain_fill)
  obtain c mb4 where c: "submit_command kAdmit 1 1 ones_digest mb3 = (Inr c, mb4)"
    "mb_commands mb4 = ring_push c (mb_commands mb3)"
    using submit_one [OF r(2)] by auto
  let ?rs = "rs @ [SubmitReply (Inr c)]" and ?acc = "concat (map accepted_command rs) @ [c]"
  have run: "mailbox_run (ops @ [?sub]) ?mb = (?rs, mb4)"
    using c(1) by (intro mailbox_run_append [OF r(1)]) simp
  have "sequences_at 0 0 ?mb" by (simp add: mailbox_new_def sequences_at_def)
  then have "map (unat \<circ> cc_command_sequence) ?acc = [Suc 0..<Suc (length ?acc)]"
    using mailbox_run_sequences [OF _ run] by (simp del: upt_Suc)
  then have seq: "unat (cc_command_sequence (?acc ! k)) = Suc k" if "k < length ?acc" for k
    using numbered_nth [of "unat \<circ> cc_command_sequence" ?acc k] that by (simp only: comp_apply)
  have "?acc \<noteq> concat (map taken_command rs) @ ring_contents (mb_commands mb4)"
  proof
    assume eq: "?acc = concat (map taken_command rs) @ ring_contents (mb_commands mb4)"
    have "?acc ! (?N + 1) = ring_contents (mb_commands mb4) ! 1"
      unfolding eq by (simp add: nth_append r(4))
    also have "\<dots> = c" using wrapped_push [OF r(2)] c(2) by simp
    also have "c = ?acc ! 4294967296" by (simp add: nth_append r(3))
    finally show False
      using seq [of "?N + 1"] seq [of 4294967296] r(3) by simp
  qed
  then have "concat (map accepted_command ?rs) \<noteq>
      concat (map taken_command ?rs) @ ring_contents (mb_commands mb4)" by simp
  with create run show ?thesis by blast
qed

end
