(* ===== verification/RequestArena.thy ===== *)
theory RequestArena
  imports Wire
begin

text \<open>
  \<open>controller_request_arena.h\<close> and \<open>controller_request_arena.cpp\<close>: the fixed arena of request
  payloads. A producer publishes a prompt with its sampling parameters into a free slot, the
  controller claims it by generation and digest, and releases it when the request retires.

  The token storage is one shared vector, as in the source; a view of a claimed request is an
  offset and a length into it, so a reader of a view sees later writes. \<open>float\<close> values are their
  IEEE-754 bit patterns, with the comparisons of the source spelled out on them. Allocation
  failure in \<open>Create\<close> is an argument. The digest is computed with the SHA-256 model.

  The lemmas show the well-formedness invariant of every reachable arena (free slots are
  scrubbed, live generations are distinct, each live slot's digest is the digest of the tokens
  actually stored), the publish/claim round trip, that a released handle is dead for ever, and
  that the digest input determines the request.
\<close>

section \<open>Messages\<close>

definition msg_controller_stop_token_descriptor_tail_is_not_canonical :: string where
  "msg_controller_stop_token_descriptor_tail_is_not_canonical = ''controller stop-token descriptor tail is not canonical''"

definition msg_controller_stop_token_id_is_outside_the_vocabulary :: string where
  "msg_controller_stop_token_id_is_outside_the_vocabulary = ''controller stop-token id is outside the vocabulary''"

definition msg_controller_stop_token_descriptor_contains_duplicates :: string where
  "msg_controller_stop_token_descriptor_contains_duplicates = ''controller stop-token descriptor contains duplicates''"

definition msg_controller_request_sampling_descriptor_is_invalid :: string where
  "msg_controller_request_sampling_descriptor_is_invalid = ''controller request sampling descriptor is invalid''"

definition msg_controller_greedy_sampling_parameters_conflict :: string where
  "msg_controller_greedy_sampling_parameters_conflict = ''controller greedy sampling parameters conflict''"

definition msg_controller_stochastic_sampling_parameters_are_invalid :: string where
  "msg_controller_stochastic_sampling_parameters_are_invalid = ''controller stochastic sampling parameters are invalid''"

definition msg_controller_request_digest_input_is_invalid :: string where
  "msg_controller_request_digest_input_is_invalid = ''controller request digest input is invalid''"

definition msg_controller_request_arena_limits_are_invalid :: string where
  "msg_controller_request_arena_limits_are_invalid = ''controller request arena limits are invalid''"

definition msg_controller_request_token_arena_is_too_large :: string where
  "msg_controller_request_token_arena_is_too_large = ''controller request token arena is too large''"

definition msg_controller_request_token_allocation_failed :: string where
  "msg_controller_request_token_allocation_failed = ''controller request token allocation failed''"

definition msg_controller_request_exceeds_its_token_profile :: string where
  "msg_controller_request_exceeds_its_token_profile = ''controller request exceeds its token profile''"

definition msg_controller_request_has_invalid_token_id :: string where
  "msg_controller_request_has_invalid_token_id = ''controller request has invalid token id''"

definition msg_request_generation_is_already_resident :: string where
  "msg_request_generation_is_already_resident = ''request generation is already resident''"

definition msg_controller_request_arena_is_full :: string where
  "msg_controller_request_arena_is_full = ''controller request arena is full''"

definition msg_controller_request_slot_generation_wrapped :: string where
  "msg_controller_request_slot_generation_wrapped = ''controller request slot generation wrapped''"

definition msg_controller_request_is_not_published :: string where
  "msg_controller_request_is_not_published = ''controller request is not published''"

definition msg_controller_request_digest_drifted :: string where
  "msg_controller_request_digest_drifted = ''controller request digest drifted''"

definition msg_controller_request_receipt_index_is_invalid :: string where
  "msg_controller_request_receipt_index_is_invalid = ''controller request receipt index is invalid''"

definition msg_controller_request_receipt_is_stale :: string where
  "msg_controller_request_receipt_is_stale = ''controller request receipt is stale''"

definition msg_controller_request_slot_index_is_invalid :: string where
  "msg_controller_request_slot_index_is_invalid = ''controller request slot index is invalid''"

definition msg_controller_request_claim_is_stale :: string where
  "msg_controller_request_claim_is_stale = ''controller request claim is stale''"

section \<open>Data\<close>

definition kVocabulary :: u32 where
  "kVocabulary = 151936"

datatype ControllerSamplingMode = kGreedy | kStochastic | ControllerSamplingMode_other u8

record ControllerRequestSampling =
  sp_mode :: ControllerSamplingMode
  sp_temperature :: u32
  sp_top_p :: u32
  sp_top_k :: "u32 option"
  sp_effective_seed :: u64
  sp_sample_ordinal :: u64
  sp_minimum_new_tokens :: u32
  sp_logprobs_enabled :: bool
  sp_top_logprobs_count :: u32
  sp_stop_token_ids :: "u32 list"
  sp_stop_token_count :: u32

definition kMaximumStopTokenIds :: nat where
  "kMaximumStopTokenIds = 16"

definition default_sampling :: ControllerRequestSampling where
  "default_sampling =
     \<lparr>sp_mode = kGreedy, sp_temperature = 0, sp_top_p = 0x3f800000, sp_top_k = None,
      sp_effective_seed = 0, sp_sample_ordinal = 0, sp_minimum_new_tokens = 0,
      sp_logprobs_enabled = False, sp_top_logprobs_count = 0,
      sp_stop_token_ids = replicate kMaximumStopTokenIds 0, sp_stop_token_count = 0\<rparr>"

record ControllerRequestArenaLimits =
  rl_maximum_requests :: u32
  rl_maximum_prompt_tokens_per_request :: u32
  rl_maximum_context_tokens :: u32

record ControllerRequestReceipt =
  rc_slot_index :: u32
  rc_slot_generation :: u64
  rc_request_generation :: u64
  rc_payload_digest :: Sha256Digest

text \<open>The span of prompt tokens is an offset and a length into the arena's token vector.\<close>

record ControllerRequestView =
  rv_slot_index :: u32
  rv_slot_generation :: u64
  rv_request_generation :: u64
  rv_prompt_offset :: nat
  rv_prompt_length :: nat
  rv_maximum_new_tokens :: u32
  rv_sampling :: ControllerRequestSampling
  rv_payload_digest :: Sha256Digest

datatype RequestSlotState = kFree | kPublished | kClaimed

record RequestSlot =
  rs_state :: RequestSlotState
  rs_generation :: u64
  rs_request_generation :: u64
  rs_prompt_tokens :: u32
  rs_maximum_new_tokens :: u32
  rs_sampling :: ControllerRequestSampling
  rs_payload_digest :: Sha256Digest

record ControllerRequestArena =
  ra_limits :: ControllerRequestArenaLimits
  ra_tokens :: "u32 list"
  ra_slots :: "RequestSlot list"

definition default_request_slot :: RequestSlot where
  "default_request_slot =
     \<lparr>rs_state = kFree, rs_generation = 0, rs_request_generation = 0, rs_prompt_tokens = 0,
      rs_maximum_new_tokens = 0, rs_sampling = default_sampling, rs_payload_digest = zero_digest\<rparr>"

section \<open>Sampling parameters\<close>

definition f32_nan :: "u32 \<Rightarrow> bool" where
  "f32_nan x \<longleftrightarrow> x AND 0x7fffffff > 0x7f800000"

definition f32_isfinite :: "u32 \<Rightarrow> bool" where
  "f32_isfinite x \<longleftrightarrow> x AND 0x7f800000 \<noteq> 0x7f800000"

definition f32_eq_zero :: "u32 \<Rightarrow> bool" where
  "f32_eq_zero x \<longleftrightarrow> x AND 0x7fffffff = 0"

definition f32_eq_one :: "u32 \<Rightarrow> bool" where
  "f32_eq_one x \<longleftrightarrow> x = 0x3f800000"

definition f32_le_zero :: "u32 \<Rightarrow> bool" where
  "f32_le_zero x \<longleftrightarrow> \<not> f32_nan x \<and> (bit x 31 \<or> x = 0)"

text \<open>\<open>x > c\<close> for a positive constant with bit pattern \<open>c\<close>.\<close>

definition f32_gt :: "u32 \<Rightarrow> u32 \<Rightarrow> bool" where
  "f32_gt x c \<longleftrightarrow> \<not> f32_nan x \<and> \<not> bit x 31 \<and> x > c"

definition validate_stop_token :: "ControllerRequestSampling \<Rightarrow> nat \<Rightarrow> status" where
  "validate_stop_token sampling i =
     (let ids = sp_stop_token_ids sampling in
      if i \<ge> unat (sp_stop_token_count sampling) then
        if ids ! i \<noteq> 0
        then InvalidArgument msg_controller_stop_token_descriptor_tail_is_not_canonical
        else Ok
      else if ids ! i \<ge> kVocabulary
      then InvalidArgument msg_controller_stop_token_id_is_outside_the_vocabulary
      else if \<exists>previous<i. ids ! previous = ids ! i
      then InvalidArgument msg_controller_stop_token_descriptor_contains_duplicates
      else Ok)"

definition validate_sampling :: "ControllerRequestSampling \<Rightarrow> u32 \<Rightarrow> status" where
  "validate_sampling sampling maximum_new_tokens =
     (if sp_sample_ordinal sampling \<noteq> 0 \<or>
         sp_minimum_new_tokens sampling > maximum_new_tokens \<or>
         sp_top_logprobs_count sampling > 20 \<or>
         (\<not> sp_logprobs_enabled sampling \<and> sp_top_logprobs_count sampling \<noteq> 0) \<or>
         unat (sp_stop_token_count sampling) > kMaximumStopTokenIds
      then InvalidArgument msg_controller_request_sampling_descriptor_is_invalid
      else
        let stops = first_error (map (validate_stop_token sampling)
                                   [0..<length (sp_stop_token_ids sampling)])
        in if \<not> ok stops then stops
           else if sp_mode sampling = kGreedy then
             if \<not> f32_eq_zero (sp_temperature sampling) \<or> \<not> f32_eq_one (sp_top_p sampling) \<or>
                sp_top_k sampling \<noteq> None
             then InvalidArgument msg_controller_greedy_sampling_parameters_conflict
             else Ok
           else if sp_mode sampling \<noteq> kStochastic \<or>
             \<not> f32_isfinite (sp_temperature sampling) \<or>
             f32_le_zero (sp_temperature sampling) \<or>
             f32_gt (sp_temperature sampling) 0x40000000 \<or>
             \<not> f32_isfinite (sp_top_p sampling) \<or>
             f32_le_zero (sp_top_p sampling) \<or>
             f32_gt (sp_top_p sampling) 0x3f800000 \<or>
             (case sp_top_k sampling of None \<Rightarrow> False | Some k \<Rightarrow> k = 0 \<or> k > kVocabulary)
           then InvalidArgument msg_controller_stochastic_sampling_parameters_are_invalid
           else Ok)"

section \<open>The payload digest\<close>

definition kDigestDomain :: string where
  "kDigestDomain = ''pih-controller-request-v1''"

fun mode_byte :: "ControllerSamplingMode \<Rightarrow> u8" where
  "mode_byte kGreedy = 0"
| "mode_byte kStochastic = 1"
| "mode_byte (ControllerSamplingMode_other v) = v"

definition request_payload_chunks ::
  "u64 \<Rightarrow> u32 list \<Rightarrow> u32 \<Rightarrow> ControllerRequestSampling \<Rightarrow> u8 list list" where
  "request_payload_chunks request_generation prompt maximum_new_tokens sampling =
     [string_bytes kDigestDomain,
      le_bytes_u64 request_generation,
      le_bytes_u32 (of_nat (length prompt)),
      le_bytes_u32 maximum_new_tokens,
      le_bytes_u32 (ucast (mode_byte (sp_mode sampling))),
      le_bytes_u32 (sp_temperature sampling),
      le_bytes_u32 (sp_top_p sampling),
      le_bytes_u32 (if sp_top_k sampling \<noteq> None then 1 else 0),
      le_bytes_u32 (case sp_top_k sampling of None \<Rightarrow> 0 | Some k \<Rightarrow> k),
      le_bytes_u64 (sp_effective_seed sampling),
      le_bytes_u64 (sp_sample_ordinal sampling),
      le_bytes_u32 (sp_minimum_new_tokens sampling),
      le_bytes_u32 (if sp_logprobs_enabled sampling then 1 else 0),
      le_bytes_u32 (sp_top_logprobs_count sampling),
      le_bytes_u32 (sp_stop_token_count sampling)] @
     map (\<lambda>i. le_bytes_u32 (sp_stop_token_ids sampling ! i))
       [0..<unat (sp_stop_token_count sampling)] @
     map le_bytes_u32 prompt"

definition controller_request_payload_digest ::
  "u64 \<Rightarrow> u32 list \<Rightarrow> u32 \<Rightarrow> ControllerRequestSampling \<Rightarrow> Sha256Digest result" where
  "controller_request_payload_digest request_generation prompt maximum_new_tokens sampling =
     (if request_generation = 0 \<or> prompt = [] \<or> length prompt > unat UINT32_MAX \<or>
         maximum_new_tokens = 0 \<or> \<not> ok (validate_sampling sampling maximum_new_tokens)
      then Inl (InvalidArgument msg_controller_request_digest_input_is_invalid)
      else digest_chunks
             (request_payload_chunks request_generation prompt maximum_new_tokens sampling))"

section \<open>Operations\<close>

text \<open>\<open>std::vector<std::uint32_t>().max_size()\<close>.\<close>

definition max_size_u32 :: nat where
  "max_size_u32 = (2 ^ 63 - 1) div 4"

definition request_arena_new :: "ControllerRequestArenaLimits \<Rightarrow> u32 list \<Rightarrow> ControllerRequestArena" where
  "request_arena_new limits tokens =
     \<lparr>ra_limits = limits, ra_tokens = tokens,
      ra_slots = replicate (unat (rl_maximum_requests limits)) default_request_slot\<rparr>"

definition request_arena_Create ::
  "bool \<Rightarrow> ControllerRequestArenaLimits \<Rightarrow> ControllerRequestArena result" where
  "request_arena_Create allocates limits =
     (if rl_maximum_requests limits = 0 \<or> rl_maximum_prompt_tokens_per_request limits = 0 \<or>
         rl_maximum_context_tokens limits = 0 \<or>
         rl_maximum_prompt_tokens_per_request limits > rl_maximum_context_tokens limits
      then Inl (InvalidArgument msg_controller_request_arena_limits_are_invalid)
      else case checked_mul_u64 (ucast (rl_maximum_requests limits))
                  (ucast (rl_maximum_prompt_tokens_per_request limits)) of
        Inl _ \<Rightarrow> Inl (ResourceExhausted msg_controller_request_token_arena_is_too_large)
      | Inr capacity \<Rightarrow>
          if unat capacity > max_size_u32
          then Inl (ResourceExhausted msg_controller_request_token_arena_is_too_large)
          else if \<not> allocates
          then Inl (ResourceExhausted msg_controller_request_token_allocation_failed)
          else Inr (request_arena_new limits (replicate (unat capacity) 0)))"

definition slot_offset :: "ControllerRequestArena \<Rightarrow> nat \<Rightarrow> nat" where
  "slot_offset a i = i * unat (rl_maximum_prompt_tokens_per_request (ra_limits a))"

definition exceeds_token_profile ::
  "ControllerRequestArena \<Rightarrow> u64 \<Rightarrow> u32 list \<Rightarrow> u32 \<Rightarrow> ControllerRequestSampling \<Rightarrow> bool" where
  "exceeds_token_profile a request_generation prompt maximum_new_tokens sampling \<longleftrightarrow>
     (let context = rl_maximum_context_tokens (ra_limits a) in
      request_generation = 0 \<or> prompt = [] \<or>
      length prompt > unat (rl_maximum_prompt_tokens_per_request (ra_limits a)) \<or>
      maximum_new_tokens = 0 \<or>
      length prompt > unat (context - min maximum_new_tokens context) \<or>
      maximum_new_tokens > context \<or>
      \<not> ok (validate_sampling sampling maximum_new_tokens))"

definition publish ::
  "u64 \<Rightarrow> u32 list \<Rightarrow> u32 \<Rightarrow> ControllerRequestSampling \<Rightarrow> ControllerRequestArena \<Rightarrow>
     ControllerRequestReceipt result \<times> ControllerRequestArena" where
  "publish request_generation prompt maximum_new_tokens sampling a =
     (if exceeds_token_profile a request_generation prompt maximum_new_tokens sampling
      then (Inl (InvalidArgument msg_controller_request_exceeds_its_token_profile), a)
      else if \<exists>token\<in>set prompt. token \<ge> kVocabulary
      then (Inl (InvalidArgument msg_controller_request_has_invalid_token_id), a)
      else case controller_request_payload_digest request_generation prompt maximum_new_tokens
                  sampling of
        Inl e \<Rightarrow> (Inl e, a)
      | Inr digest \<Rightarrow>
          if \<exists>slot\<in>set (ra_slots a).
               rs_state slot \<noteq> kFree \<and> rs_request_generation slot = request_generation
          then (Inl (FailedPrecondition msg_request_generation_is_already_resident), a)
          else case find_index (\<lambda>slot. rs_state slot = kFree) (ra_slots a) of
            None \<Rightarrow> (Inl (ResourceExhausted msg_controller_request_arena_is_full), a)
          | Some free_index \<Rightarrow>
              let slot = ra_slots a ! free_index in
              if rs_generation slot = UINT64_MAX
              then (Inl (FailedPrecondition msg_controller_request_slot_generation_wrapped), a)
              else
                (Inr \<lparr>rc_slot_index = of_nat free_index,
                      rc_slot_generation = rs_generation slot + 1,
                      rc_request_generation = request_generation,
                      rc_payload_digest = digest\<rparr>,
                 a\<lparr>ra_tokens := overwrite (ra_tokens a) (slot_offset a free_index) prompt,
                   ra_slots := (ra_slots a)[free_index :=
                     \<lparr>rs_state = kPublished, rs_generation = rs_generation slot + 1,
                      rs_request_generation = request_generation,
                      rs_prompt_tokens = of_nat (length prompt),
                      rs_maximum_new_tokens = maximum_new_tokens,
                      rs_sampling = sampling, rs_payload_digest = digest\<rparr>]\<rparr>))"

definition claim ::
  "u64 \<Rightarrow> Sha256Digest \<Rightarrow> ControllerRequestArena \<Rightarrow>
     ControllerRequestView result \<times> ControllerRequestArena" where
  "claim request_generation payload_digest a =
     (case find_index (\<lambda>slot. rs_state slot = kPublished \<and>
                              rs_request_generation slot = request_generation) (ra_slots a) of
        None \<Rightarrow> (Inl (FailedPrecondition msg_controller_request_is_not_published), a)
      | Some i \<Rightarrow>
          let slot = ra_slots a ! i in
          if rs_payload_digest slot \<noteq> payload_digest
          then (Inl (FailedPrecondition msg_controller_request_digest_drifted), a)
          else
            (Inr \<lparr>rv_slot_index = of_nat i, rv_slot_generation = rs_generation slot,
                  rv_request_generation = rs_request_generation slot,
                  rv_prompt_offset = slot_offset a i,
                  rv_prompt_length = unat (rs_prompt_tokens slot),
                  rv_maximum_new_tokens = rs_maximum_new_tokens slot,
                  rv_sampling = rs_sampling slot, rv_payload_digest = rs_payload_digest slot\<rparr>,
             a\<lparr>ra_slots := (ra_slots a)[i := slot\<lparr>rs_state := kClaimed\<rparr>]\<rparr>))"

definition clear_slot :: "nat \<Rightarrow> ControllerRequestArena \<Rightarrow> ControllerRequestArena" where
  "clear_slot i a =
     a\<lparr>ra_tokens := overwrite (ra_tokens a) (slot_offset a i)
         (replicate (unat (rl_maximum_prompt_tokens_per_request (ra_limits a))) 0),
       ra_slots := (ra_slots a)[i :=
         (ra_slots a ! i)\<lparr>rs_state := kFree, rs_request_generation := 0, rs_prompt_tokens := 0,
           rs_maximum_new_tokens := 0, rs_sampling := default_sampling,
           rs_payload_digest := zero_digest\<rparr>]\<rparr>"

definition rollback_published ::
  "ControllerRequestReceipt \<Rightarrow> ControllerRequestArena \<Rightarrow> status \<times> ControllerRequestArena" where
  "rollback_published receipt a =
     (if unat (rc_slot_index receipt) \<ge> length (ra_slots a)
      then (InvalidArgument msg_controller_request_receipt_index_is_invalid, a)
      else
        let slot = ra_slots a ! unat (rc_slot_index receipt) in
        if rs_state slot \<noteq> kPublished \<or> rs_generation slot \<noteq> rc_slot_generation receipt \<or>
           rs_request_generation slot \<noteq> rc_request_generation receipt \<or>
           rs_payload_digest slot \<noteq> rc_payload_digest receipt
        then (FailedPrecondition msg_controller_request_receipt_is_stale, a)
        else (Ok, clear_slot (unat (rc_slot_index receipt)) a))"

definition release_claimed ::
  "u32 \<Rightarrow> u64 \<Rightarrow> ControllerRequestArena \<Rightarrow> status \<times> ControllerRequestArena" where
  "release_claimed slot_index slot_generation a =
     (if unat slot_index \<ge> length (ra_slots a)
      then (InvalidArgument msg_controller_request_slot_index_is_invalid, a)
      else
        let slot = ra_slots a ! unat slot_index in
        if rs_state slot \<noteq> kClaimed \<or> rs_generation slot \<noteq> slot_generation
        then (FailedPrecondition msg_controller_request_claim_is_stale, a)
        else (Ok, clear_slot (unat slot_index) a))"

definition published_count :: "ControllerRequestArena \<Rightarrow> u32" where
  "published_count a = of_nat (count_if (\<lambda>s. rs_state s = kPublished) (ra_slots a))"

definition claimed_count :: "ControllerRequestArena \<Rightarrow> u32" where
  "claimed_count a = of_nat (count_if (\<lambda>s. rs_state s = kClaimed) (ra_slots a))"

text \<open>Reading the prompt through a view.\<close>

definition view_tokens :: "ControllerRequestArena \<Rightarrow> ControllerRequestView \<Rightarrow> u32 list" where
  "view_tokens a v = take (rv_prompt_length v) (drop (rv_prompt_offset v) (ra_tokens a))"

section \<open>The invariant\<close>

abbreviation prompt_capacity :: "ControllerRequestArena \<Rightarrow> nat" where
  "prompt_capacity a \<equiv> unat (rl_maximum_prompt_tokens_per_request (ra_limits a))"

definition slot_region :: "ControllerRequestArena \<Rightarrow> nat \<Rightarrow> u32 list" where
  "slot_region a i = take (prompt_capacity a) (drop (slot_offset a i) (ra_tokens a))"

definition slot_prompt :: "ControllerRequestArena \<Rightarrow> nat \<Rightarrow> u32 list" where
  "slot_prompt a i = take (unat (rs_prompt_tokens (ra_slots a ! i))) (slot_region a i)"

definition shape_ok :: "ControllerRequestArena \<Rightarrow> bool" where
  "shape_ok a \<longleftrightarrow>
     length (ra_slots a) = unat (rl_maximum_requests (ra_limits a)) \<and>
     length (ra_tokens a) = length (ra_slots a) * prompt_capacity a"

text \<open>A free slot carries nothing but its generation; a live slot describes what is stored.\<close>

definition free_slot_ok :: "RequestSlot \<Rightarrow> u32 list \<Rightarrow> bool" where
  "free_slot_ok slot region \<longleftrightarrow>
     slot = default_request_slot\<lparr>rs_generation := rs_generation slot\<rparr> \<and> (\<forall>t\<in>set region. t = 0)"

definition live_slot_ok :: "ControllerRequestArenaLimits \<Rightarrow> RequestSlot \<Rightarrow> u32 list \<Rightarrow> bool" where
  "live_slot_ok limits slot region \<longleftrightarrow>
     (let n = unat (rs_prompt_tokens slot) in
      rs_generation slot \<noteq> 0 \<and> n \<le> length region \<and>
      n + unat (rs_maximum_new_tokens slot) \<le> unat (rl_maximum_context_tokens limits) \<and>
      (\<forall>t\<in>set (take n region). t < kVocabulary) \<and> (\<forall>t\<in>set (drop n region). t = 0) \<and>
      controller_request_payload_digest (rs_request_generation slot) (take n region)
        (rs_maximum_new_tokens slot) (rs_sampling slot) = Inr (rs_payload_digest slot))"

definition slot_ok :: "ControllerRequestArena \<Rightarrow> nat \<Rightarrow> bool" where
  "slot_ok a i \<longleftrightarrow>
     (if rs_state (ra_slots a ! i) = kFree then free_slot_ok (ra_slots a ! i) (slot_region a i)
      else live_slot_ok (ra_limits a) (ra_slots a ! i) (slot_region a i))"

definition live_generations_distinct :: "RequestSlot list \<Rightarrow> bool" where
  "live_generations_distinct slots \<longleftrightarrow>
     (\<forall>i<length slots. \<forall>j<length slots.
        rs_state (slots ! i) \<noteq> kFree \<and> rs_state (slots ! j) \<noteq> kFree \<and>
        rs_request_generation (slots ! i) = rs_request_generation (slots ! j) \<longrightarrow> i = j)"

lemma live_generations_distinctD:
  "live_generations_distinct slots \<Longrightarrow> i < length slots \<Longrightarrow> j < length slots \<Longrightarrow>
     rs_state (slots ! i) \<noteq> kFree \<Longrightarrow> rs_state (slots ! j) \<noteq> kFree \<Longrightarrow>
     rs_request_generation (slots ! i) = rs_request_generation (slots ! j) \<Longrightarrow> i = j"
  by (simp add: live_generations_distinct_def)

definition arena_ok :: "ControllerRequestArena \<Rightarrow> bool" where
  "arena_ok a \<longleftrightarrow>
     shape_ok a \<and> (\<forall>i<length (ra_slots a). slot_ok a i) \<and> live_generations_distinct (ra_slots a)"

section \<open>Writing one slot\<close>

lemma slot_offset_fits:
  assumes "shape_ok a" and "i < length (ra_slots a)"
  shows "slot_offset a i + prompt_capacity a \<le> length (ra_tokens a)"
proof -
  have "Suc i * prompt_capacity a \<le> length (ra_slots a) * prompt_capacity a"
    using assms(2) by (intro mult_le_mono1) simp
  with assms(1) show ?thesis by (simp add: shape_ok_def slot_offset_def)
qed

lemma slot_offset_disjoint:
  "i < j \<Longrightarrow> slot_offset a i + prompt_capacity a \<le> slot_offset a j"
  using mult_le_mono1 [of "Suc i" j "prompt_capacity a"] by (simp add: slot_offset_def)

lemma length_slot_region:
  "shape_ok a \<Longrightarrow> i < length (ra_slots a) \<Longrightarrow> length (slot_region a i) = prompt_capacity a"
  using slot_offset_fits [of a i] by (simp add: slot_region_def)

text \<open>Storing \<open>data\<close> at the start of slot \<open>i\<close> and replacing its descriptor, as both
  \<open>publish\<close> and \<open>clear_slot\<close> do.\<close>

definition store_slot ::
  "nat \<Rightarrow> u32 list \<Rightarrow> RequestSlot \<Rightarrow> ControllerRequestArena \<Rightarrow> ControllerRequestArena" where
  "store_slot i data slot a =
     a\<lparr>ra_tokens := overwrite (ra_tokens a) (slot_offset a i) data,
       ra_slots := (ra_slots a)[i := slot]\<rparr>"

lemma store_slot_simps [simp]:
  "ra_limits (store_slot i data slot a) = ra_limits a"
  "ra_slots (store_slot i data slot a) = (ra_slots a)[i := slot]"
  "slot_offset (store_slot i data slot a) j = slot_offset a j"
  by (simp_all add: store_slot_def slot_offset_def)

lemma shape_ok_store_slot:
  assumes "shape_ok a" and "i < length (ra_slots a)" and "length data \<le> prompt_capacity a"
  shows "shape_ok (store_slot i data slot a)"
  using assms slot_offset_fits [OF assms(1,2)] by (simp add: shape_ok_def store_slot_def)

lemma slot_region_store_other:
  assumes "shape_ok a" and "i < length (ra_slots a)" and "j < length (ra_slots a)" and "i \<noteq> j"
    and "length data \<le> prompt_capacity a"
  shows "slot_region (store_slot i data slot a) j = slot_region a j"
proof -
  have "slot_offset a j + prompt_capacity a \<le> slot_offset a i \<or>
      slot_offset a i + length data \<le> slot_offset a j"
    using assms(4,5) slot_offset_disjoint [of i j a] slot_offset_disjoint [of j i a]
    by (cases "i < j") auto
  with slot_offset_fits [OF assms(1,2)] slot_offset_fits [OF assms(1,3)] assms(5) show ?thesis
    by (simp add: slot_region_def take_drop_overwrite_other store_slot_def slot_offset_def)
qed

lemma slot_region_store_same:
  assumes "shape_ok a" and "i < length (ra_slots a)" and "length data \<le> prompt_capacity a"
  shows "slot_region (store_slot i data slot a) i = data @ drop (length data) (slot_region a i)"
  using assms slot_offset_fits [OF assms(1,2)]
  by (simp add: slot_region_def store_slot_def slot_offset_def overwrite_def drop_take add.commute)

lemma slot_ok_store_other:
  assumes "shape_ok a" and "i < length (ra_slots a)" and "j < length (ra_slots a)" and "i \<noteq> j"
    and "length data \<le> prompt_capacity a" and "slot_ok a j"
  shows "slot_ok (store_slot i data slot a) j"
  using assms by (simp add: slot_ok_def slot_region_store_other)

lemma live_generations_distinct_update:
  assumes "live_generations_distinct slots"
    and "rs_state slot = kFree \<or>
      (\<forall>j<length slots. j \<noteq> i \<longrightarrow> rs_state (slots ! j) \<noteq> kFree \<longrightarrow>
        rs_request_generation (slots ! j) \<noteq> rs_request_generation slot)"
  shows "live_generations_distinct (slots[i := slot])"
  unfolding live_generations_distinct_def
proof (intro allI impI, elim conjE)
  fix k j
  assume kj: "k < length (slots[i := slot])" "j < length (slots[i := slot])"
    and live: "rs_state (slots[i := slot] ! k) \<noteq> kFree" "rs_state (slots[i := slot] ! j) \<noteq> kFree"
    and eq: "rs_request_generation (slots[i := slot] ! k) = rs_request_generation (slots[i := slot] ! j)"
  show "k = j"
  proof (cases "k = i \<or> j = i")
    case True
    with kj live eq assms(2) show ?thesis by (auto simp: nth_list_update split: if_splits)
  next
    case False
    with kj live eq assms(1) show ?thesis unfolding live_generations_distinct_def by simp
  qed
qed

lemma arena_ok_store_slot:
  assumes "arena_ok a" and "i < length (ra_slots a)" and "length data \<le> prompt_capacity a"
    and "slot_ok (store_slot i data slot a) i"
    and "rs_state slot = kFree \<or>
      (\<forall>j<length (ra_slots a). j \<noteq> i \<longrightarrow> rs_state (ra_slots a ! j) \<noteq> kFree \<longrightarrow>
        rs_request_generation (ra_slots a ! j) \<noteq> rs_request_generation slot)"
  shows "arena_ok (store_slot i data slot a)"
  unfolding arena_ok_def
proof (intro conjI allI impI)
  show "shape_ok (store_slot i data slot a)"
    using assms by (intro shape_ok_store_slot) (simp_all add: arena_ok_def)
  show "slot_ok (store_slot i data slot a) j" if "j < length (ra_slots (store_slot i data slot a))" for j
    using assms that by (cases "j = i") (auto simp: arena_ok_def intro: slot_ok_store_other)
  show "live_generations_distinct (ra_slots (store_slot i data slot a))"
    using assms(1,5) by (simp add: arena_ok_def live_generations_distinct_update)
qed

section \<open>Outcomes of each operation\<close>

definition published_slot :: "u64 \<Rightarrow> u64 \<Rightarrow> u32 list \<Rightarrow> u32 \<Rightarrow> ControllerRequestSampling \<Rightarrow>
    Sha256Digest \<Rightarrow> RequestSlot" where
  "published_slot generation request_generation prompt maximum_new_tokens sampling digest =
     \<lparr>rs_state = kPublished, rs_generation = generation,
      rs_request_generation = request_generation, rs_prompt_tokens = of_nat (length prompt),
      rs_maximum_new_tokens = maximum_new_tokens, rs_sampling = sampling,
      rs_payload_digest = digest\<rparr>"

lemma publish_accepted:
  assumes "publish g prompt n sampling a = (Inr r, a')"
  obtains i where "find_index (\<lambda>slot. rs_state slot = kFree) (ra_slots a) = Some i"
    and "\<not> exceeds_token_profile a g prompt n sampling"
    and "\<forall>token\<in>set prompt. token < kVocabulary"
    and "controller_request_payload_digest g prompt n sampling = Inr (rc_payload_digest r)"
    and "\<forall>slot\<in>set (ra_slots a). rs_state slot \<noteq> kFree \<longrightarrow> rs_request_generation slot \<noteq> g"
    and "rs_generation (ra_slots a ! i) \<noteq> UINT64_MAX"
    and "r = \<lparr>rc_slot_index = of_nat i, rc_slot_generation = rs_generation (ra_slots a ! i) + 1,
              rc_request_generation = g, rc_payload_digest = rc_payload_digest r\<rparr>"
    and "a' = store_slot i prompt
           (published_slot (rs_generation (ra_slots a ! i) + 1) g prompt n sampling
              (rc_payload_digest r)) a"
proof -
  have "\<exists>i. find_index (\<lambda>slot. rs_state slot = kFree) (ra_slots a) = Some i \<and>
     \<not> exceeds_token_profile a g prompt n sampling \<and> (\<forall>token\<in>set prompt. token < kVocabulary) \<and>
     controller_request_payload_digest g prompt n sampling = Inr (rc_payload_digest r) \<and>
     (\<forall>slot\<in>set (ra_slots a). rs_state slot \<noteq> kFree \<longrightarrow> rs_request_generation slot \<noteq> g) \<and>
     rs_generation (ra_slots a ! i) \<noteq> UINT64_MAX \<and>
     r = \<lparr>rc_slot_index = of_nat i, rc_slot_generation = rs_generation (ra_slots a ! i) + 1,
              rc_request_generation = g, rc_payload_digest = rc_payload_digest r\<rparr> \<and>
     a' = store_slot i prompt
           (published_slot (rs_generation (ra_slots a ! i) + 1) g prompt n sampling
              (rc_payload_digest r)) a"
    using assms unfolding publish_def Let_def
    by (auto simp: store_slot_def published_slot_def not_le split: if_splits sum.splits option.splits)
  with that show thesis by blast
qed

lemma publish_rejected: "publish g prompt n sampling a = (Inl e, a') \<Longrightarrow> a' = a"
  unfolding publish_def Let_def by (auto split: if_splits sum.splits option.splits)

lemma publish_outcome:
  "publish g prompt n sampling a = (r, a') \<Longrightarrow> (\<exists>e. r = Inl e \<and> a' = a) \<or> (\<exists>x. r = Inr x)"
  by (cases r) (auto dest: publish_rejected)

lemma publish_accepted_length:
  "publish g prompt n sampling a = (Inr r, a') \<Longrightarrow> length (ra_slots a') = length (ra_slots a)"
  by (erule publish_accepted) simp

lemma claim_cases:
  assumes "claim g d a = (r, a')"
  obtains (rejected) e where "r = Inl e" "a' = a"
  | (claimed) i where
      "find_index (\<lambda>slot. rs_state slot = kPublished \<and> rs_request_generation slot = g) (ra_slots a) = Some i"
      "rs_payload_digest (ra_slots a ! i) = d"
      "r = Inr \<lparr>rv_slot_index = of_nat i, rv_slot_generation = rs_generation (ra_slots a ! i),
                rv_request_generation = g, rv_prompt_offset = slot_offset a i,
                rv_prompt_length = unat (rs_prompt_tokens (ra_slots a ! i)),
                rv_maximum_new_tokens = rs_maximum_new_tokens (ra_slots a ! i),
                rv_sampling = rs_sampling (ra_slots a ! i), rv_payload_digest = d\<rparr>"
      "a' = store_slot i [] ((ra_slots a ! i)\<lparr>rs_state := kClaimed\<rparr>) a"
proof (cases "find_index (\<lambda>slot. rs_state slot = kPublished \<and> rs_request_generation slot = g) (ra_slots a)")
  case None
  with assms show ?thesis by (intro rejected) (auto simp: claim_def)
next
  case (Some i)
  then have g: "rs_request_generation (ra_slots a ! i) = g" by (auto dest: find_index_SomeD)
  show ?thesis
  proof (cases "rs_payload_digest (ra_slots a ! i) = d")
    case True
    with Some assms g show ?thesis
      by (intro claimed [OF Some True]) (auto simp: claim_def store_slot_def Let_def)
  next
    case False
    with Some assms show ?thesis by (intro rejected) (auto simp: claim_def Let_def)
  qed
qed

lemma clear_slot_eq:
  "clear_slot i a = store_slot i (replicate (prompt_capacity a) 0)
     (default_request_slot\<lparr>rs_generation := rs_generation (ra_slots a ! i)\<rparr>) a"
  by (cases "ra_slots a ! i") (simp add: clear_slot_def store_slot_def default_request_slot_def)

lemma rollback_published_cases:
  assumes "rollback_published receipt a = (st, a')"
  obtains (rejected) "\<not> ok st" "a' = a"
  | (cleared) "st = Ok" "unat (rc_slot_index receipt) < length (ra_slots a)"
      "rs_state (ra_slots a ! unat (rc_slot_index receipt)) = kPublished"
      "rs_generation (ra_slots a ! unat (rc_slot_index receipt)) = rc_slot_generation receipt"
      "a' = clear_slot (unat (rc_slot_index receipt)) a"
proof (cases "unat (rc_slot_index receipt) < length (ra_slots a)")
  case True
  let ?slot = "ra_slots a ! unat (rc_slot_index receipt)"
  show ?thesis
  proof (cases "rs_state ?slot = kPublished \<and> rs_generation ?slot = rc_slot_generation receipt \<and>
      rs_request_generation ?slot = rc_request_generation receipt \<and>
      rs_payload_digest ?slot = rc_payload_digest receipt")
    case match: True
    with True assms show ?thesis by (intro cleared) (auto simp: rollback_published_def Let_def)
  next
    case False
    with True assms show ?thesis by (intro rejected) (auto simp: rollback_published_def Let_def)
  qed
next
  case False
  with assms show ?thesis by (intro rejected) (auto simp: rollback_published_def)
qed

lemma release_claimed_cases:
  assumes "release_claimed i g a = (st, a')"
  obtains (rejected) "\<not> ok st" "a' = a"
  | (cleared) "st = Ok" "unat i < length (ra_slots a)"
      "rs_state (ra_slots a ! unat i) = kClaimed" "rs_generation (ra_slots a ! unat i) = g"
      "a' = clear_slot (unat i) a"
proof (cases "unat i < length (ra_slots a)")
  case True
  show ?thesis
  proof (cases "rs_state (ra_slots a ! unat i) = kClaimed \<and> rs_generation (ra_slots a ! unat i) = g")
    case match: True
    with True assms show ?thesis by (intro cleared) (auto simp: release_claimed_def Let_def)
  next
    case False
    with True assms show ?thesis by (intro rejected) (auto simp: release_claimed_def Let_def)
  qed
next
  case False
  with assms show ?thesis by (intro rejected) (auto simp: release_claimed_def)
qed

section \<open>The invariant is kept\<close>

lemma unat_of_nat_length:
  "shape_ok a \<Longrightarrow> i \<le> length (ra_slots a) \<Longrightarrow> unat (of_nat i :: u32) = i"
  using unat_lt_u32 [of "rl_maximum_requests (ra_limits a)"]
  by (simp add: shape_ok_def unat_of_nat)

lemma arena_ok_new:
  assumes "request_arena_Create allocates limits = Inr a"
  shows "arena_ok a"
proof -
  let ?n = "rl_maximum_requests limits" and ?m = "rl_maximum_prompt_tokens_per_request limits"
  obtain c where c: "checked_mul_u64 (ucast ?n) (ucast ?m) = Inr c"
    and a: "a = request_arena_new limits (replicate (unat c) 0)"
    using assms by (auto simp: request_arena_Create_def split: if_splits sum.splits)
  from c have "unat c = unat ?n * unat ?m"
    by (auto simp: checked_mul_u64_Inr_iff)
  with a show ?thesis
    by (auto simp: arena_ok_def shape_ok_def request_arena_new_def slot_ok_def free_slot_ok_def
        slot_region_def live_generations_distinct_def default_request_slot_def
        dest: in_set_takeD in_set_dropD)
qed

lemma arena_ok_clear_slot:
  assumes "arena_ok a" and "i < length (ra_slots a)"
  shows "arena_ok (clear_slot i a)"
  unfolding clear_slot_eq
proof (rule arena_ok_store_slot [OF assms])
  let ?a = "store_slot i (replicate (prompt_capacity a) 0)
    (default_request_slot\<lparr>rs_generation := rs_generation (ra_slots a ! i)\<rparr>) a"
  have "slot_region ?a i = replicate (prompt_capacity a) 0"
    using assms by (subst slot_region_store_same) (auto simp: arena_ok_def length_slot_region)
  then show "slot_ok ?a i"
    using assms(2) by (simp add: slot_ok_def free_slot_ok_def default_request_slot_def)
qed (simp_all add: default_request_slot_def)

lemma arena_ok_publish:
  assumes "arena_ok a" and "publish g prompt n sampling a = (Inr r, a')"
  shows "arena_ok a'"
  using assms(2)
proof (rule publish_accepted)
  fix i
  let ?slot = "published_slot (rs_generation (ra_slots a ! i) + 1) g prompt n sampling (rc_payload_digest r)"
  assume i: "find_index (\<lambda>slot. rs_state slot = kFree) (ra_slots a) = Some i"
    and fits: "\<not> exceeds_token_profile a g prompt n sampling"
    and vocab: "\<forall>token\<in>set prompt. token < kVocabulary"
    and digest: "controller_request_payload_digest g prompt n sampling = Inr (rc_payload_digest r)"
    and fresh: "\<forall>slot\<in>set (ra_slots a). rs_state slot \<noteq> kFree \<longrightarrow> rs_request_generation slot \<noteq> g"
    and gen: "rs_generation (ra_slots a ! i) \<noteq> UINT64_MAX"
    and a': "a' = store_slot i prompt ?slot a"
  have free: "i < length (ra_slots a)" "rs_state (ra_slots a ! i) = kFree"
    using i by (auto dest: find_index_SomeD)
  have shape: "shape_ok a" using assms(1) by (simp add: arena_ok_def)
  have len: "length prompt \<le> prompt_capacity a"
    using fits by (simp add: exceeds_token_profile_def Let_def)
  have n: "unat (of_nat (length prompt) :: u32) = length prompt"
    using len unat_lt_u32 [of "rl_maximum_prompt_tokens_per_request (ra_limits a)"]
    by (simp add: unat_of_nat)
  have ctx: "length prompt + unat n \<le> unat (rl_maximum_context_tokens (ra_limits a))"
    using fits by (auto simp: exceeds_token_profile_def Let_def min_def unat_sub not_le not_less
        word_le_nat_alt word_less_nat_alt split: if_splits)
  have "free_slot_ok (ra_slots a ! i) (slot_region a i)"
    using assms(1) free by (auto simp: arena_ok_def slot_ok_def)
  then have zeros: "\<forall>t\<in>set (drop (length prompt) (slot_region a i)). t = 0"
    by (auto simp: free_slot_ok_def dest: in_set_dropD)
  have gen1: "rs_generation (ra_slots a ! i) + 1 \<noteq> 0"
    using gen by (simp add: word_plus_1_eq_0_iff)
  show "arena_ok a'"
    unfolding a'
  proof (rule arena_ok_store_slot [OF assms(1) free(1) len])
    show "slot_ok (store_slot i prompt ?slot a) i"
      using free(1) zeros vocab digest n ctx gen1 slot_region_store_same [OF shape free(1) len]
      by (simp add: slot_ok_def live_slot_ok_def published_slot_def Let_def)
    show "rs_state ?slot = kFree \<or>
      (\<forall>j<length (ra_slots a). j \<noteq> i \<longrightarrow> rs_state (ra_slots a ! j) \<noteq> kFree \<longrightarrow>
        rs_request_generation (ra_slots a ! j) \<noteq> rs_request_generation ?slot)"
      using fresh by (simp add: published_slot_def)
  qed
qed

lemma arena_ok_claim:
  assumes "arena_ok a" and "claim g d a = (r, a')"
  shows "arena_ok a'"
  using assms(2)
proof (cases rule: claim_cases)
  case (rejected e)
  with assms(1) show ?thesis by simp
next
  case (claimed i)
  let ?slot = "(ra_slots a ! i)\<lparr>rs_state := kClaimed\<rparr>"
  have i: "i < length (ra_slots a)" "rs_state (ra_slots a ! i) = kPublished"
    using claimed(1) by (auto dest: find_index_SomeD)
  have shape: "shape_ok a" using assms(1) by (simp add: arena_ok_def)
  have "slot_ok a i" using assms(1) i by (simp add: arena_ok_def)
  then have "slot_ok (store_slot i [] ?slot a) i"
    using i slot_region_store_same [OF shape i(1), of "[]" ?slot]
    by (simp add: slot_ok_def live_slot_ok_def)
  moreover have "\<forall>j<length (ra_slots a). j \<noteq> i \<longrightarrow> rs_state (ra_slots a ! j) \<noteq> kFree \<longrightarrow>
      rs_request_generation (ra_slots a ! j) \<noteq> rs_request_generation ?slot"
    using assms(1) i by (auto simp: arena_ok_def live_generations_distinct_def)
  ultimately show ?thesis
    using assms(1) i(1) claimed(4) by (simp add: arena_ok_store_slot)
qed

lemma arena_ok_rollback:
  "arena_ok a \<Longrightarrow> rollback_published receipt a = (st, a') \<Longrightarrow> arena_ok a'"
  by (erule rollback_published_cases) (simp_all add: arena_ok_clear_slot)

lemma arena_ok_release: "arena_ok a \<Longrightarrow> release_claimed i g a = (st, a') \<Longrightarrow> arena_ok a'"
  by (erule release_claimed_cases) (simp_all add: arena_ok_clear_slot)

definition arena_init :: "ControllerRequestArena \<Rightarrow> bool" where
  "arena_init a \<longleftrightarrow> (\<exists>allocates limits. request_arena_Create allocates limits = Inr a)"

inductive arena_step :: "ControllerRequestArena \<Rightarrow> ControllerRequestArena \<Rightarrow> bool" where
  arena_publish: "publish g prompt n sampling a = (r, a') \<Longrightarrow> arena_step a a'"
| arena_claim: "claim g d a = (v, a') \<Longrightarrow> arena_step a a'"
| arena_rollback: "rollback_published receipt a = (st, a') \<Longrightarrow> arena_step a a'"
| arena_release: "release_claimed i g a = (st, a') \<Longrightarrow> arena_step a a'"

lemma arena_ok_step: "arena_step a a' \<Longrightarrow> arena_ok a \<Longrightarrow> arena_ok a'"
proof (induction rule: arena_step.induct)
  case (arena_publish g prompt n sampling a r a')
  from publish_outcome [OF arena_publish(1)] show ?case
    using arena_publish arena_ok_publish by (elim disjE exE conjE) (simp, blast)
qed (auto intro: arena_ok_claim arena_ok_rollback arena_ok_release)

interpretation request_arena: inductive_invariant arena_init arena_step arena_ok
  by unfold_locales (auto simp: arena_init_def intro: arena_ok_new arena_ok_step)

section \<open>Slot lifetimes\<close>

text \<open>
  A slot's lifetime number grows with every publication and every clearing, so two states in which
  it is the same lie within one lifetime of the slot.
\<close>

definition lifetime :: "ControllerRequestArena \<Rightarrow> nat \<Rightarrow> nat" where
  "lifetime a i =
     (if i < length (ra_slots a)
      then 2 * unat (rs_generation (ra_slots a ! i)) +
           (if rs_state (ra_slots a ! i) = kFree then 1 else 0)
      else 0)"

definition same_payload :: "ControllerRequestArena \<Rightarrow> ControllerRequestArena \<Rightarrow> nat \<Rightarrow> bool" where
  "same_payload a b i \<longleftrightarrow>
     ra_limits b = ra_limits a \<and> slot_region b i = slot_region a i \<and>
     (ra_slots b ! i)\<lparr>rs_state := kFree\<rparr> = (ra_slots a ! i)\<lparr>rs_state := kFree\<rparr>"

lemma same_payload_refl [simp]: "same_payload a a i"
  by (simp add: same_payload_def)

lemma same_payload_trans: "same_payload a b i \<Longrightarrow> same_payload b c i \<Longrightarrow> same_payload a c i"
  by (simp add: same_payload_def)

lemma lifetime_store_other:
  assumes "arena_ok a" and "i < length (ra_slots a)" and "j < length (ra_slots a)" and "j \<noteq> i"
    and "length data \<le> prompt_capacity a"
  shows "lifetime (store_slot i data slot a) j = lifetime a j \<and>
    same_payload a (store_slot i data slot a) j"
  using assms slot_region_store_other [of a i j data slot]
  by (simp add: lifetime_def same_payload_def arena_ok_def)

lemma lifetime_clear:
  assumes "arena_ok a" and "i < length (ra_slots a)" and "rs_state (ra_slots a ! i) \<noteq> kFree"
    and "j < length (ra_slots a)"
  shows "lifetime a j \<le> lifetime (clear_slot i a) j \<and>
    (lifetime (clear_slot i a) j = lifetime a j \<longrightarrow> same_payload a (clear_slot i a) j)"
proof (cases "j = i")
  case True
  with assms show ?thesis by (simp add: clear_slot_eq lifetime_def default_request_slot_def)
next
  case False
  with assms lifetime_store_other [of a i j "replicate (prompt_capacity a) 0"] show ?thesis
    by (simp add: clear_slot_eq)
qed

lemma lifetime_publish:
  assumes "arena_ok a" and "publish g prompt n sampling a = (Inr r, a')"
    and "j < length (ra_slots a)"
  shows "lifetime a j \<le> lifetime a' j \<and> (lifetime a' j = lifetime a j \<longrightarrow> same_payload a a' j)"
  using assms(2)
proof (rule publish_accepted)
  fix i
  let ?slot = "published_slot (rs_generation (ra_slots a ! i) + 1) g prompt n sampling (rc_payload_digest r)"
  assume i: "find_index (\<lambda>slot. rs_state slot = kFree) (ra_slots a) = Some i"
    and fits: "\<not> exceeds_token_profile a g prompt n sampling"
    and gen: "rs_generation (ra_slots a ! i) \<noteq> UINT64_MAX"
    and a': "a' = store_slot i prompt ?slot a"
  have free: "i < length (ra_slots a)" "rs_state (ra_slots a ! i) = kFree"
    using i by (auto dest: find_index_SomeD)
  show ?thesis
  proof (cases "j = i")
    case True
    with free gen show ?thesis by (simp add: a' lifetime_def published_slot_def unat_Suc_word)
  next
    case False
    have "length prompt \<le> prompt_capacity a"
      using fits by (simp add: exceeds_token_profile_def Let_def)
    with False lifetime_store_other [OF assms(1) free(1) assms(3), of prompt ?slot] show ?thesis
      by (simp add: a')
  qed
qed

lemma lifetime_claim:
  assumes "arena_ok a" and "claim g d a = (r, a')" and "j < length (ra_slots a)"
  shows "lifetime a' j = lifetime a j \<and> same_payload a a' j"
  using assms(2)
proof (cases rule: claim_cases)
  case (rejected e)
  then show ?thesis by simp
next
  case (claimed i)
  then have i: "i < length (ra_slots a)" "rs_state (ra_slots a ! i) = kPublished"
    by (auto dest: find_index_SomeD)
  have "shape_ok a" using assms(1) by (simp add: arena_ok_def)
  with i claimed(4) lifetime_store_other [OF assms(1) i(1) assms(3), of "[]"]
    slot_region_store_same [of a i "[]"]
  show ?thesis
    by (cases "j = i") (simp_all add: lifetime_def same_payload_def)
qed

lemma lifetime_step:
  assumes "arena_step a a'" and "arena_ok a" and "j < length (ra_slots a)"
  shows "lifetime a j \<le> lifetime a' j \<and> (lifetime a' j = lifetime a j \<longrightarrow> same_payload a a' j)"
  using assms
proof (induction rule: arena_step.induct)
  case (arena_publish g prompt n sampling a r a')
  from publish_outcome [OF arena_publish(1)] show ?case
    using arena_publish lifetime_publish by (elim disjE exE conjE) (simp, blast)
next
  case (arena_claim g d a v a')
  then show ?case by (simp add: lifetime_claim)
next
  case (arena_rollback receipt a st a')
  from arena_rollback(1) show ?case
  proof (cases rule: rollback_published_cases)
    case cleared
    with arena_rollback(2,3) lifetime_clear [of a "unat (rc_slot_index receipt)" j] show ?thesis by simp
  qed simp
next
  case (arena_release i g a st a')
  from arena_release(1) show ?case
  proof (cases rule: release_claimed_cases)
    case cleared
    with arena_release(2,3) lifetime_clear [of a "unat i" j] show ?thesis by simp
  qed simp
qed

lemma publish_length: "publish g prompt n sampling a = (r, a') \<Longrightarrow> length (ra_slots a') = length (ra_slots a)"
  using publish_outcome [of g prompt n sampling a r a'] publish_accepted_length by blast

lemma arena_step_length: "arena_step a a' \<Longrightarrow> length (ra_slots a') = length (ra_slots a)"
proof (induction rule: arena_step.induct)
  case (arena_publish g prompt n sampling a r a')
  then show ?case by (rule publish_length)
next
  case (arena_claim g d a v a')
  then show ?case by (rule claim_cases) simp_all
next
  case (arena_rollback receipt a st a')
  then show ?case by (rule rollback_published_cases) (simp_all add: clear_slot_eq)
next
  case (arena_release i g a st a')
  then show ?case by (rule release_claimed_cases) (simp_all add: clear_slot_eq)
qed

lemma lifetime_run:
  assumes "arena_step\<^sup>*\<^sup>* a b" and "arena_ok a" and "j < length (ra_slots a)"
  shows "arena_ok b \<and> length (ra_slots b) = length (ra_slots a) \<and> lifetime a j \<le> lifetime b j \<and>
    (lifetime b j = lifetime a j \<longrightarrow> same_payload a b j)"
  using assms
proof (induction rule: rtranclp_induct)
  case base
  then show ?case by simp
next
  case (step b c)
  then have IH: "arena_ok b" "length (ra_slots b) = length (ra_slots a)" "lifetime a j \<le> lifetime b j"
    "lifetime b j = lifetime a j \<longrightarrow> same_payload a b j" by simp_all
  have c: "arena_ok c" "length (ra_slots c) = length (ra_slots a)"
    using arena_ok_step [OF step(2) IH(1)] arena_step_length [OF step(2)] IH(2) by simp_all
  have life: "lifetime b j \<le> lifetime c j" "lifetime c j = lifetime b j \<longrightarrow> same_payload b c j"
    using lifetime_step [OF step(2) IH(1), of j] IH(2) step.prems(2) by simp_all
  have "same_payload a c j" if "lifetime c j = lifetime a j"
  proof -
    from that IH(3) life(1) have "lifetime b j = lifetime a j" "lifetime c j = lifetime b j" by simp_all
    with IH(4) life(2) show ?thesis using same_payload_trans by blast
  qed
  with c IH(3) life(1) show ?case by simp
qed

lemma unat_rv_slot_index:
  assumes "arena_ok a" and "i < length (ra_slots a)"
  shows "unat (of_nat i :: u32) = i"
  using assms unat_of_nat_length [of a i] by (simp add: arena_ok_def)

lemma release_honoured_lifetime:
  assumes "ok (fst (release_claimed i g a))"
  shows "unat i < length (ra_slots a) \<and> lifetime a (unat i) = 2 * unat g \<and>
    rs_state (ra_slots a ! unat i) = kClaimed"
proof -
  obtain st a' where r: "release_claimed i g a = (st, a')" by fastforce
  then show ?thesis
    by (rule release_claimed_cases) (use assms r in \<open>auto simp: lifetime_def\<close>)
qed

lemma release_ok_lifetime:
  assumes "release_claimed i g a = (Ok, b)"
  shows "unat i < length (ra_slots a) \<and> lifetime b (unat i) = 2 * unat g + 1"
  using assms
  by (rule release_claimed_cases) (simp_all add: clear_slot_eq lifetime_def default_request_slot_def)

interpretation claim_handles: generation_guard arena_step
  "\<lambda>a. arena_ok a \<and> length (ra_slots a) = n" lifetime
  "\<lambda>a (i, g). ok (fst (release_claimed i g a))" "\<lambda>(i, g). unat i" "\<lambda>(i, g). 2 * unat g" for n
proof (unfold_locales, goal_cases)
  case (1 s t)
  then show ?case by (auto simp: arena_step_length intro: arena_ok_step)
next
  case (2 s t i)
  show ?case
  proof (cases "i < length (ra_slots s)")
    case True
    with 2 show ?thesis using lifetime_step by blast
  next
    case False
    with 2 arena_step_length [OF 2(2)] show ?thesis by (simp add: lifetime_def)
  qed
next
  case (3 s h)
  then show ?case using release_honoured_lifetime by (cases h) auto
qed

text \<open>
  C7. A claim can be released once. After a successful \<open>release_claimed\<close> no later state of the
  arena, whatever is published, claimed, rolled back or released in between, accepts the same slot
  index and slot generation again: a second release of a reused slot cannot free another request.
\<close>

theorem released_claim_stays_dead:
  assumes "reachable arena_init arena_step a"
    and "release_claimed i g a = (Ok, b)" and "arena_step\<^sup>*\<^sup>* b c"
  shows "\<not> ok (fst (release_claimed i g c))"
proof -
  have b: "arena_ok b"
    using request_arena.holds_when_reachable [OF assms(1)] assms(2) by (rule arena_ok_release)
  have "2 * unat g < lifetime b (unat i)" using release_ok_lifetime [OF assms(2)] by simp
  with b claim_handles.stale_forever [of b "length (ra_slots b)" "(i, g)" c] assms(3)
  show ?thesis by simp
qed

section \<open>Publishing and claiming\<close>

lemma view_tokens_region:
  "rv_prompt_offset v = slot_offset a i \<Longrightarrow> rv_prompt_length v \<le> prompt_capacity a \<Longrightarrow>
     view_tokens a v = take (rv_prompt_length v) (slot_region a i)"
  by (simp add: view_tokens_def slot_region_def)

lemma claim_published:
  assumes "arena_ok a" and "i < length (ra_slots a)" and "rs_state (ra_slots a ! i) = kPublished"
  shows "find_index (\<lambda>slot. rs_state slot = kPublished \<and>
      rs_request_generation slot = rs_request_generation (ra_slots a ! i)) (ra_slots a) = Some i"
proof -
  have d: "live_generations_distinct (ra_slots a)" using assms(1) by (simp add: arena_ok_def)
  have "\<not> (rs_state (ra_slots a ! j) = kPublished \<and>
      rs_request_generation (ra_slots a ! j) = rs_request_generation (ra_slots a ! i))" if "j < i" for j
    using live_generations_distinctD [OF d, of j i] assms(2,3) that by auto
  with assms(2,3) show ?thesis by (simp add: find_index_Some_iff)
qed

lemma published_slot_sel [simp]:
  "rs_state (published_slot x g prompt n sampling d) = kPublished"
  "rs_generation (published_slot x g prompt n sampling d) = x"
  "rs_request_generation (published_slot x g prompt n sampling d) = g"
  "rs_prompt_tokens (published_slot x g prompt n sampling d) = of_nat (length prompt)"
  "rs_maximum_new_tokens (published_slot x g prompt n sampling d) = n"
  "rs_sampling (published_slot x g prompt n sampling d) = sampling"
  "rs_payload_digest (published_slot x g prompt n sampling d) = d"
  by (simp_all add: published_slot_def)

text \<open>What \<open>publish\<close> leaves in the arena, in terms of its receipt.\<close>

lemma publish_stores:
  assumes "arena_ok a" and "publish g prompt n sampling a = (Inr r, a')"
  defines "i \<equiv> unat (rc_slot_index r)"
  shows "arena_ok a'" and "i < length (ra_slots a')"
    and "ra_slots a' ! i =
      published_slot (rc_slot_generation r) g prompt n sampling (rc_payload_digest r)"
    and "length prompt \<le> prompt_capacity a'"
    and "unat (of_nat (length prompt) :: u32) = length prompt"
    and "take (length prompt) (slot_region a' i) = prompt"
    and "rc_request_generation r = g"
proof -
  have shape: "shape_ok a" using assms(1) by (simp add: arena_ok_def)
  show ok': "arena_ok a'" using arena_ok_publish assms by blast
  obtain k where k: "find_index (\<lambda>slot. rs_state slot = kFree) (ra_slots a) = Some k"
    and fits: "\<not> exceeds_token_profile a g prompt n sampling"
    and r: "r = \<lparr>rc_slot_index = of_nat k, rc_slot_generation = rs_generation (ra_slots a ! k) + 1,
              rc_request_generation = g, rc_payload_digest = rc_payload_digest r\<rparr>"
    and a': "a' = store_slot k prompt
           (published_slot (rs_generation (ra_slots a ! k) + 1) g prompt n sampling
              (rc_payload_digest r)) a"
    using publish_accepted [OF assms(2)] by blast
  have kl: "k < length (ra_slots a)" using k by (auto dest: find_index_SomeD)
  have "rc_slot_index r = of_nat k" "rc_slot_generation r = rs_generation (ra_slots a ! k) + 1"
    and "rc_request_generation r = g"
    by (subst r, simp)+
  with kl unat_of_nat_length [OF shape, of k]
  have i: "i = k" and gen: "rc_slot_generation r = rs_generation (ra_slots a ! k) + 1"
    by (simp_all add: i_def)
  show "rc_request_generation r = g" by fact
  have len: "length prompt \<le> prompt_capacity a"
    using fits by (simp add: exceeds_token_profile_def Let_def)
  then show "length prompt \<le> prompt_capacity a'" by (simp add: a')
  with unat_lt_u32 [of "rl_maximum_prompt_tokens_per_request (ra_limits a')"]
  show "unat (of_nat (length prompt) :: u32) = length prompt" by (simp add: unat_of_nat)
  show "i < length (ra_slots a')" and "ra_slots a' ! i =
      published_slot (rc_slot_generation r) g prompt n sampling (rc_payload_digest r)"
    using i kl gen by (simp_all add: a')
  show "take (length prompt) (slot_region a' i) = prompt"
    using slot_region_store_same [OF shape kl len] by (simp add: a' i)
qed

lemma claimed_view_stable:
  assumes "arena_ok c" and "i < length (ra_slots c)" and "rs_state (ra_slots c ! i) \<noteq> kFree"
    and "arena_step\<^sup>*\<^sup>* c e"
    and "ok (fst (release_claimed (of_nat i) (rs_generation (ra_slots c ! i)) e))"
    and "rv_prompt_offset v = slot_offset c i" and "rv_prompt_length v \<le> prompt_capacity c"
  shows "view_tokens e v = view_tokens c v"
proof -
  have i: "unat (of_nat i :: u32) = i" using assms(1,2) by (rule unat_rv_slot_index)
  have "lifetime e i = 2 * unat (rs_generation (ra_slots c ! i))"
    using release_honoured_lifetime [OF assms(5)] by (simp add: i)
  also have "\<dots> = lifetime c i" using assms(2,3) by (simp add: lifetime_def)
  finally have "lifetime e i = lifetime c i" .
  with lifetime_run [OF assms(4,1,2)] have "same_payload c e i" by simp
  then have "slot_region e i = slot_region c i" and "ra_limits e = ra_limits c"
    by (simp_all add: same_payload_def)
  with assms(6,7) show ?thesis
    by (simp add: view_tokens_region [of v _ i] slot_offset_def)
qed

lemma publish_claim_view:
  assumes "arena_ok a"
    and "publish g prompt n sampling a = (Inr r, a1)"
  shows "\<exists>v c. claim g (rc_payload_digest r) a1 = (Inr v, c) \<and>
    rv_slot_index v = rc_slot_index r \<and> rv_slot_generation v = rc_slot_generation r \<and>
    rv_maximum_new_tokens v = n \<and> rv_sampling v = sampling \<and>
    ok (fst (release_claimed (rv_slot_index v) (rv_slot_generation v) c)) \<and>
    (\<forall>e. arena_step\<^sup>*\<^sup>* c e \<longrightarrow>
       ok (fst (release_claimed (rv_slot_index v) (rv_slot_generation v) e)) \<longrightarrow>
       view_tokens e v = prompt)"
proof -
  let ?i = "unat (rc_slot_index r)" and ?d = "rc_payload_digest r"
  note st = publish_stores [OF assms]
  define v where "v = \<lparr>rv_slot_index = rc_slot_index r, rv_slot_generation = rc_slot_generation r,
    rv_request_generation = g, rv_prompt_offset = slot_offset a1 ?i,
    rv_prompt_length = length prompt, rv_maximum_new_tokens = n, rv_sampling = sampling,
    rv_payload_digest = ?d\<rparr>"
  define c where "c = store_slot ?i [] ((ra_slots a1 ! ?i)\<lparr>rs_state := kClaimed\<rparr>) a1"
  have find: "find_index (\<lambda>slot. rs_state slot = kPublished \<and> rs_request_generation slot = g)
      (ra_slots a1) = Some ?i"
    using claim_published [OF st(1,2)] st(3) by simp
  have cl: "claim g ?d a1 = (Inr v, c)"
    using find st(3,5) by (simp add: claim_def v_def c_def store_slot_def Let_def)
  have c: "arena_ok c" "?i < length (ra_slots c)"
    using arena_ok_claim [OF st(1) cl] st(2) by (simp_all add: c_def)
  have slot: "rs_state (ra_slots c ! ?i) = kClaimed" "rs_generation (ra_slots c ! ?i) = rc_slot_generation r"
    using st(2,3) by (simp_all add: c_def)
  have region: "slot_region c ?i = slot_region a1 ?i"
    using slot_region_store_same [of a1 ?i "[]"] st(1,2) by (simp add: c_def arena_ok_def)
  have vc: "rv_prompt_offset v = slot_offset c ?i" "rv_prompt_length v \<le> prompt_capacity c"
    using st(4) by (simp_all add: v_def c_def)
  have "view_tokens c v = prompt"
    using view_tokens_region [OF vc] region st(6) by (simp add: v_def)
  moreover have "view_tokens e v = view_tokens c v"
    if "arena_step\<^sup>*\<^sup>* c e" "ok (fst (release_claimed (rv_slot_index v) (rv_slot_generation v) e))" for e
    using claimed_view_stable [OF c(1,2) _ that(1) _ vc] slot that(2) by (simp add: v_def)
  moreover have "ok (fst (release_claimed (rv_slot_index v) (rv_slot_generation v) c))"
    using c(2) slot by (simp add: release_claimed_def v_def)
  ultimately show ?thesis using cl by (auto simp: v_def)
qed

text \<open>
  C8. Publishing and claiming round-trip. In a reachable arena, a request that \<open>publish\<close> accepts can
  be claimed at once by its generation and digest; the claim names the published slot and carries
  the published limits and sampling parameters; and in every later state in which that claim has not
  been released, reading the prompt through the claimed view still gives exactly the published
  tokens, whatever other requests were published, claimed or cleared meanwhile.
\<close>

theorem publish_then_claim:
  assumes "reachable arena_init arena_step a"
    and "publish g prompt n sampling a = (Inr r, a1)"
  shows "\<exists>v c. claim g (rc_payload_digest r) a1 = (Inr v, c) \<and>
    rv_slot_index v = rc_slot_index r \<and> rv_slot_generation v = rc_slot_generation r \<and>
    rv_maximum_new_tokens v = n \<and> rv_sampling v = sampling \<and>
    ok (fst (release_claimed (rv_slot_index v) (rv_slot_generation v) c)) \<and>
    (\<forall>e. arena_step\<^sup>*\<^sup>* c e \<longrightarrow>
       ok (fst (release_claimed (rv_slot_index v) (rv_slot_generation v) e)) \<longrightarrow>
       view_tokens e v = prompt)"
  using publish_claim_view [OF request_arena.holds_when_reachable [OF assms(1)] assms(2)] .

section \<open>Concrete requests\<close>

lemma length_request_payload:
  assumes "ok (validate_sampling sampling n)" and "length prompt \<le> unat UINT32_MAX"
  shows "length (concat (request_payload_chunks g prompt n sampling)) \<le> max_message_bytes"
proof -
  have "unat (sp_stop_token_count sampling) \<le> 16"
    using assms(1) by (auto simp: validate_sampling_def kMaximumStopTokenIds_def split: if_splits)
  moreover have "length (concat (map le_bytes_u32 xs)) = 4 * length xs" for xs
    by (induction xs) simp_all
  moreover have "length (concat (map (\<lambda>i. le_bytes_u32 (f i)) xs)) = 4 * length xs"
    for f :: "nat \<Rightarrow> u32" and xs
    by (induction xs) simp_all
  ultimately show ?thesis
    using assms(2)
    by (simp add: request_payload_chunks_def kDigestDomain_def max_message_bytes_def unat_max_u32)
qed

lemma payload_digest_accepts:
  assumes "g \<noteq> 0" and "prompt \<noteq> []" and "length prompt \<le> unat UINT32_MAX" and "n \<noteq> 0"
    and "ok (validate_sampling sampling n)"
  shows "controller_request_payload_digest g prompt n sampling =
    Inr (sha256_spec (concat (request_payload_chunks g prompt n sampling)))"
  using assms length_request_payload [of sampling n prompt g]
  by (simp add: controller_request_payload_digest_def digest_chunks_fits)

definition example_request_limits :: ControllerRequestArenaLimits where
  "example_request_limits =
     \<lparr>rl_maximum_requests = 2, rl_maximum_prompt_tokens_per_request = 4,
      rl_maximum_context_tokens = 16\<rparr>"

definition example_arena :: ControllerRequestArena where
  "example_arena = request_arena_new example_request_limits (replicate 8 0)"

lemma example_arena_reachable: "reachable arena_init arena_step example_arena"
proof (rule reachable_init)
  have "request_arena_Create True example_request_limits = Inr example_arena"
    by (simp add: request_arena_Create_def example_request_limits_def example_arena_def
        checked_mul_u64_def max_size_u32_def)
  then show "arena_init example_arena" by (auto simp: arena_init_def)
qed

lemma default_sampling_valid: "ok (validate_sampling default_sampling 3)"
  by code_simp

lemma example_publish: "\<exists>r a. publish 1 [5, 6] 3 default_sampling example_arena = (Inr r, a)"
proof -
  have "\<not> exceeds_token_profile example_arena 1 [5, 6] 3 default_sampling"
    by code_simp
  moreover have "\<not> (\<exists>token\<in>set [5, 6]. token \<ge> kVocabulary)" by code_simp
  moreover have "\<not> (\<exists>slot\<in>set (ra_slots example_arena). rs_state slot \<noteq> kFree \<and> rs_request_generation slot = 1)"
    by code_simp
  moreover have "find_index (\<lambda>slot. rs_state slot = kFree) (ra_slots example_arena) = Some 0"
    "rs_generation (ra_slots example_arena ! 0) \<noteq> UINT64_MAX"
    by code_simp+
  ultimately show ?thesis
    by (simp add: publish_def payload_digest_accepts default_sampling_valid unat_max_u32 Let_def)
qed

theorem publish_then_claim_witness:
  "\<exists>r a1 v c. publish 1 [5, 6] 3 default_sampling example_arena = (Inr r, a1) \<and>
    claim 1 (rc_payload_digest r) a1 = (Inr v, c) \<and> view_tokens c v = [5, 6]"
proof -
  obtain r a1 where p: "publish 1 [5, 6] 3 default_sampling example_arena = (Inr r, a1)"
    using example_publish by blast
  with publish_then_claim [OF example_arena_reachable p] show ?thesis by blast
qed

lemma example_release: "\<exists>a i g b. reachable arena_init arena_step a \<and> release_claimed i g a = (Ok, b)"
proof -
  obtain r a1 where p: "publish 1 [5, 6] 3 default_sampling example_arena = (Inr r, a1)"
    using example_publish by blast
  obtain v c where v: "claim 1 (rc_payload_digest r) a1 = (Inr v, c)"
    "ok (fst (release_claimed (rv_slot_index v) (rv_slot_generation v) c))"
    using publish_claim_view [OF request_arena.holds_when_reachable [OF example_arena_reachable] p]
    by blast
  have "reachable arena_init arena_step c"
    using example_arena_reachable p v(1) by (blast intro: reachable_step arena_publish arena_claim)
  moreover obtain st b where rel: "release_claimed (rv_slot_index v) (rv_slot_generation v) c = (st, b)"
    by fastforce
  with v(2) have "st = Ok" by (auto elim: release_claimed_cases)
  ultimately show ?thesis using rel by blast
qed

theorem released_claim_stays_dead_witness:
  "\<exists>a i g b. reachable arena_init arena_step a \<and> release_claimed i g a = (Ok, b) \<and>
     \<not> ok (fst (release_claimed i g b))"
proof -
  obtain a i g b where "reachable arena_init arena_step a" "release_claimed i g a = (Ok, b)"
    using example_release by blast
  with released_claim_stays_dead [of a i g b b] show ?thesis by blast
qed

text \<open>
  C9. In every reachable arena: a free slot carries no trace of an earlier request (its descriptor is
  the default one and all its tokens are zero); two live slots never hold the same request
  generation; and the digest a live slot carries is the payload digest of the tokens, limits and
  sampling parameters that are stored in it at that moment, within the context limit.
\<close>

theorem request_arena_invariant:
  assumes "reachable arena_init arena_step a" and "i < length (ra_slots a)"
  shows "(rs_state (ra_slots a ! i) = kFree \<longrightarrow>
      ra_slots a ! i = default_request_slot\<lparr>rs_generation := rs_generation (ra_slots a ! i)\<rparr> \<and>
      (\<forall>t\<in>set (slot_region a i). t = 0)) \<and>
    (rs_state (ra_slots a ! i) \<noteq> kFree \<longrightarrow>
      controller_request_payload_digest (rs_request_generation (ra_slots a ! i)) (slot_prompt a i)
        (rs_maximum_new_tokens (ra_slots a ! i)) (rs_sampling (ra_slots a ! i)) =
        Inr (rs_payload_digest (ra_slots a ! i)) \<and>
      length (slot_prompt a i) + unat (rs_maximum_new_tokens (ra_slots a ! i)) \<le>
        unat (rl_maximum_context_tokens (ra_limits a)) \<and>
      (\<forall>j<length (ra_slots a). rs_state (ra_slots a ! j) \<noteq> kFree \<longrightarrow>
         rs_request_generation (ra_slots a ! j) = rs_request_generation (ra_slots a ! i) \<longrightarrow> j = i))"
proof -
  have ok: "arena_ok a" using request_arena.holds_when_reachable [OF assms(1)] .
  then have "slot_ok a i" using assms(2) by (simp add: arena_ok_def)
  then show ?thesis
    using live_generations_distinctD [of "ra_slots a"] ok assms(2)
    by (simp add: slot_ok_def free_slot_ok_def live_slot_ok_def slot_prompt_def Let_def arena_ok_def
        split: if_splits)
qed

theorem request_arena_invariant_witness:
  "\<exists>r a. publish 1 [5, 6] 3 default_sampling example_arena = (Inr r, a) \<and>
     controller_request_payload_digest 1 (slot_prompt a (unat (rc_slot_index r))) 3 default_sampling =
       Inr (rc_payload_digest r)"
proof -
  obtain r a where p: "publish 1 [5, 6] 3 default_sampling example_arena = (Inr r, a)"
    using example_publish by blast
  note st = publish_stores [OF request_arena.holds_when_reachable [OF example_arena_reachable] p]
  have "reachable arena_init arena_step a"
    using example_arena_reachable arena_publish [OF p] by (rule reachable_step)
  from request_arena_invariant [OF this st(2)] st(3) p show ?thesis by auto
qed

section \<open>The digest input determines the request\<close>

lemma validated_mode:
  "ok (validate_sampling s n) \<Longrightarrow> sp_mode s = kGreedy \<or> sp_mode s = kStochastic"
  by (auto simp: validate_sampling_def Let_def split: if_splits)

lemma validated_stop_tail:
  assumes "ok (validate_sampling s n)" and "length (sp_stop_token_ids s) = kMaximumStopTokenIds"
    and "unat (sp_stop_token_count s) \<le> i" and "i < kMaximumStopTokenIds"
  shows "sp_stop_token_ids s ! i = 0"
proof -
  have "ok (first_error (map (validate_stop_token s) [0..<length (sp_stop_token_ids s)]))"
    using assms(1) by (auto simp: validate_sampling_def Let_def split: if_splits)
  with assms(2,4) have "ok (validate_stop_token s i)" by simp
  with assms(3) show ?thesis by (simp add: validate_stop_token_def Let_def split: if_splits)
qed

lemma flag_u32_inj: "(if p then 1 else 0 :: u32) = (if q then 1 else 0) \<longleftrightarrow> p = q"
  by simp

lemma mode_byte_inj:
  "m \<in> {kGreedy, kStochastic} \<Longrightarrow> m' \<in> {kGreedy, kStochastic} \<Longrightarrow>
     (ucast (mode_byte m) :: u32) = ucast (mode_byte m') \<Longrightarrow> m = m'"
  by auto

lemma stop_ids_eqI:
  assumes "ok (validate_sampling s n)" and "ok (validate_sampling s' n')"
    and "length (sp_stop_token_ids s) = kMaximumStopTokenIds"
    and "length (sp_stop_token_ids s') = kMaximumStopTokenIds"
    and "sp_stop_token_count s = sp_stop_token_count s'"
    and "\<forall>i<unat (sp_stop_token_count s). sp_stop_token_ids s ! i = sp_stop_token_ids s' ! i"
  shows "sp_stop_token_ids s = sp_stop_token_ids s'"
proof (rule nth_equalityI)
  show "length (sp_stop_token_ids s) = length (sp_stop_token_ids s')" using assms(3,4) by simp
  show "sp_stop_token_ids s ! i = sp_stop_token_ids s' ! i" if "i < length (sp_stop_token_ids s)" for i
    using that assms validated_stop_tail [of s n i] validated_stop_tail [of s' n' i]
    by (cases "i < unat (sp_stop_token_count s)") auto
qed

lemma concat_map_le_bytes_append:
  "length xs = length ys \<Longrightarrow>
     concat (map le_bytes_u32 xs) @ us = concat (map le_bytes_u32 ys) @ vs \<longleftrightarrow> xs = ys \<and> us = vs"
proof (induction xs arbitrary: ys)
  case Nil
  then show ?case by simp
next
  case (Cons x xs)
  then show ?case by (cases ys) (auto simp: le_bytes_append_inj)
qed

definition stop_tokens :: "ControllerRequestSampling \<Rightarrow> u32 list" where
  "stop_tokens s = map (\<lambda>i. sp_stop_token_ids s ! i) [0..<unat (sp_stop_token_count s)]"

lemma request_payload_bytes:
  "concat (request_payload_chunks g prompt n s) =
     string_bytes kDigestDomain @ le_bytes_u64 g @ le_bytes_u32 (of_nat (length prompt)) @
     le_bytes_u32 n @ le_bytes_u32 (ucast (mode_byte (sp_mode s))) @
     le_bytes_u32 (sp_temperature s) @ le_bytes_u32 (sp_top_p s) @
     le_bytes_u32 (if sp_top_k s \<noteq> None then 1 else 0) @
     le_bytes_u32 (case sp_top_k s of None \<Rightarrow> 0 | Some k \<Rightarrow> k) @
     le_bytes_u64 (sp_effective_seed s) @ le_bytes_u64 (sp_sample_ordinal s) @
     le_bytes_u32 (sp_minimum_new_tokens s) @ le_bytes_u32 (if sp_logprobs_enabled s then 1 else 0) @
     le_bytes_u32 (sp_top_logprobs_count s) @ le_bytes_u32 (sp_stop_token_count s) @
     concat (map le_bytes_u32 (stop_tokens s)) @ concat (map le_bytes_u32 prompt)"
  by (simp add: request_payload_chunks_def stop_tokens_def comp_def)

text \<open>
  C10. The digest input is unambiguous: if two requests with validated sampling parameters produce
  the same byte string for the payload digest, they are the same request, in its generation, prompt,
  token limit and every sampling parameter. So two different requests can share a payload digest
  only through a collision of SHA-256 itself.
\<close>

theorem request_payload_unambiguous:
  assumes "ok (validate_sampling s n)" and "ok (validate_sampling s' n')"
    and "length (sp_stop_token_ids s) = kMaximumStopTokenIds"
    and "length (sp_stop_token_ids s') = kMaximumStopTokenIds"
    and "concat (request_payload_chunks g prompt n s) = concat (request_payload_chunks g' prompt' n' s')"
  shows "g = g' \<and> prompt = prompt' \<and> n = n' \<and> s = s'"
proof -
  note eq = assms(5) [unfolded request_payload_bytes same_append_eq le_bytes_append_inj flag_u32_inj]
  then have count: "sp_stop_token_count s = sp_stop_token_count s'" by blast
  then have len: "length (stop_tokens s) = length (stop_tokens s')" by (simp add: stop_tokens_def)
  have "concat (map le_bytes_u32 (stop_tokens s)) @ concat (map le_bytes_u32 prompt) =
      concat (map le_bytes_u32 (stop_tokens s')) @ concat (map le_bytes_u32 prompt')"
    using eq by blast
  then have stops: "stop_tokens s = stop_tokens s'" and "prompt = prompt'"
    using concat_map_le_bytes_append [OF len] concat_le_bytes_u32_inj by blast+
  have "sp_stop_token_ids s ! i = sp_stop_token_ids s' ! i" if "i < unat (sp_stop_token_count s)" for i
    using arg_cong [OF stops, of "\<lambda>xs. xs ! i"] that count by (simp add: stop_tokens_def)
  then have ids: "sp_stop_token_ids s = sp_stop_token_ids s'"
    using assms(1-4) count by (intro stop_ids_eqI) auto
  have mode: "sp_mode s = sp_mode s'"
    using validated_mode [OF assms(1)] validated_mode [OF assms(2)] eq by (intro mode_byte_inj) auto
  have top_k: "sp_top_k s = sp_top_k s'"
    using eq by (cases "sp_top_k s"; cases "sp_top_k s'") simp_all
  show ?thesis
    using eq ids mode top_k \<open>prompt = prompt'\<close> by (intro conjI ControllerRequestSampling.equality) simp_all
qed

theorem request_payload_unambiguous_witness:
  "concat (request_payload_chunks 1 [5, 6] 3 default_sampling) \<noteq>
     concat (request_payload_chunks 1 [6, 5] 3 default_sampling)"
  using request_payload_unambiguous
    [of default_sampling 3 default_sampling 3 1 "[5, 6]" 1 "[6, 5]"] default_sampling_valid
  by (auto simp: default_sampling_def)

end
