(* ===== verification/Ingress.thy ===== *)
theory Ingress
  imports Mailbox RequestArena "HOL-Library.Multiset"
begin

text \<open>
  \<open>controller_ingress.h\<close> and \<open>controller_ingress.cpp\<close>: admission as a transaction over the request
  arena and the command mailbox. \<open>submit_admit\<close> publishes the payload, then queues the command, and
  rolls the payload back when the queue refuses.

  The arena and the mailbox have separate mutexes, so other threads run between any two of the calls
  \<open>submit_admit\<close> makes (publish, submit, roll back), and between taking a command and claiming its
  payload. The step relation \<open>ingress_step\<close> has one step per locked call and interleaves them freely:
  \<open>cs_pending\<close> holds the receipts of the admissions that have published and not yet submitted,
  \<open>cs_refused\<close> those whose submission was refused and that have not yet rolled back, \<open>cs_taken\<close> the
  command the controller has taken and not yet claimed.
\<close>

section \<open>Messages\<close>

definition msg_controller_cancel_identity_is_invalid :: string where
  "msg_controller_cancel_identity_is_invalid = ''controller cancel identity is invalid''"

definition msg_controller_admission_rollback_failed :: string where
  "msg_controller_admission_rollback_failed = ''controller admission rollback failed''"

definition msg_controller_admission_epoch_is_invalid :: string where
  "msg_controller_admission_epoch_is_invalid = ''controller admission epoch is invalid''"

definition msg_controller_command_has_no_matching_request_payload :: string where
  "msg_controller_command_has_no_matching_request_payload = ''controller command has no matching request payload''"

definition msg_non_admit_command_reached_admission_ingress :: string where
  "msg_non_admit_command_reached_admission_ingress = ''non-admit command reached admission ingress''"

section \<open>Data\<close>

record ControllerIngressLimits =
  il_mailbox :: ControllerMailboxLimits
  il_requests :: ControllerRequestArenaLimits

record ControllerAdmissionView =
  av_command :: ControllerCommand
  av_request :: ControllerRequestView

record ControllerIngressCommandView =
  cv_command :: ControllerCommand
  cv_request :: "ControllerRequestView option"

record ControllerIngress =
  ig_mailbox :: ControllerMailbox
  ig_requests :: ControllerRequestArena

section \<open>Operations\<close>

definition cancel_domain :: string where
  "cancel_domain = ''pih-controller-cancel-v1''"

definition controller_cancel_payload_digest :: "u64 \<Rightarrow> u64 \<Rightarrow> Sha256Digest result" where
  "controller_cancel_payload_digest epoch request_generation =
     (if epoch = 0 \<or> request_generation = 0
      then Inl (InvalidArgument msg_controller_cancel_identity_is_invalid)
      else digest_chunks
             [string_bytes cancel_domain, le_bytes_u64 epoch, le_bytes_u64 request_generation])"

definition ingress_Create :: "bool \<Rightarrow> ControllerIngressLimits \<Rightarrow> ControllerIngress result" where
  "ingress_Create allocates limits =
     (case mailbox_Create (il_mailbox limits) of
        Inl e \<Rightarrow> Inl e
      | Inr mailbox \<Rightarrow>
          (case request_arena_Create allocates (il_requests limits) of
             Inl e \<Rightarrow> Inl e
           | Inr requests \<Rightarrow> Inr \<lparr>ig_mailbox = mailbox, ig_requests = requests\<rparr>))"

text \<open>\<open>submit_admit\<close> from the receipt on: the submission, the rollback, and the two in sequence.\<close>

definition admit_queue ::
  "u64 \<Rightarrow> u64 \<Rightarrow> ControllerRequestReceipt \<Rightarrow> ControllerIngress \<Rightarrow>
     ControllerCommand result \<times> ControllerIngress" where
  "admit_queue epoch request_generation receipt ig =
     (case submit_command kAdmit epoch request_generation (rc_payload_digest receipt)
             (ig_mailbox ig) of
        (command, mailbox) \<Rightarrow> (command, ig\<lparr>ig_mailbox := mailbox\<rparr>))"

definition admit_rollback ::
  "status \<Rightarrow> ControllerRequestReceipt \<Rightarrow> ControllerIngress \<Rightarrow>
     ControllerCommand result \<times> ControllerIngress" where
  "admit_rollback command_status receipt ig =
     (case rollback_published receipt (ig_requests ig) of
        (rollback, requests) \<Rightarrow>
          (if \<not> ok rollback
           then Inl (Internal msg_controller_admission_rollback_failed)
           else Inl command_status,
           ig\<lparr>ig_requests := requests\<rparr>))"

definition admit_submit ::
  "u64 \<Rightarrow> u64 \<Rightarrow> ControllerRequestReceipt \<Rightarrow> ControllerIngress \<Rightarrow>
     ControllerCommand result \<times> ControllerIngress" where
  "admit_submit epoch request_generation receipt ig =
     (case admit_queue epoch request_generation receipt ig of
        (Inl e, ig) \<Rightarrow> admit_rollback e receipt ig
      | (Inr command, ig) \<Rightarrow> (Inr command, ig))"

lemmas admit_submit_defs = admit_submit_def admit_queue_def admit_rollback_def

definition submit_admit ::
  "u64 \<Rightarrow> u64 \<Rightarrow> u32 list \<Rightarrow> u32 \<Rightarrow> ControllerRequestSampling \<Rightarrow> ControllerIngress \<Rightarrow>
     ControllerCommand result \<times> ControllerIngress" where
  "submit_admit epoch request_generation prompt maximum_new_tokens sampling ig =
     (if epoch = 0
      then (Inl (InvalidArgument msg_controller_admission_epoch_is_invalid), ig)
      else case publish request_generation prompt maximum_new_tokens sampling (ig_requests ig) of
        (Inl e, requests) \<Rightarrow> (Inl e, ig\<lparr>ig_requests := requests\<rparr>)
      | (Inr receipt, requests) \<Rightarrow>
          admit_submit epoch request_generation receipt (ig\<lparr>ig_requests := requests\<rparr>))"

definition submit_cancel ::
  "u64 \<Rightarrow> u64 \<Rightarrow> ControllerIngress \<Rightarrow> ControllerCommand result \<times> ControllerIngress" where
  "submit_cancel epoch request_generation ig =
     (case controller_cancel_payload_digest epoch request_generation of
        Inl e \<Rightarrow> (Inl e, ig)
      | Inr digest \<Rightarrow>
          (case submit_command kCancel epoch request_generation digest (ig_mailbox ig) of
             (command, mailbox) \<Rightarrow> (command, ig\<lparr>ig_mailbox := mailbox\<rparr>)))"

text \<open>The second half of \<open>try_take_command\<close>, for the command it has taken.\<close>

definition take_claim ::
  "ControllerCommand \<Rightarrow> ControllerIngress \<Rightarrow>
     ControllerIngressCommandView option result \<times> ControllerIngress" where
  "take_claim command ig =
     (if cc_kind command = kAdmit then
        (case claim (cc_request_generation command) (cc_payload_digest command) (ig_requests ig) of
           (Inl _, requests) \<Rightarrow>
             (Inl (Internal msg_controller_command_has_no_matching_request_payload),
              ig\<lparr>ig_requests := requests\<rparr>)
         | (Inr request, requests) \<Rightarrow>
             (Inr (Some \<lparr>cv_command = command, cv_request = Some request\<rparr>),
              ig\<lparr>ig_requests := requests\<rparr>))
      else (Inr (Some \<lparr>cv_command = command, cv_request = None\<rparr>), ig))"

definition ingress_try_take_command ::
  "thread_id \<Rightarrow> ControllerIngress \<Rightarrow>
     ControllerIngressCommandView option result \<times> ControllerIngress" where
  "ingress_try_take_command current ig =
     (case try_take_command current (ig_mailbox ig) of
        (Inl e, mailbox) \<Rightarrow> (Inl e, ig\<lparr>ig_mailbox := mailbox\<rparr>)
      | (Inr None, mailbox) \<Rightarrow> (Inr None, ig\<lparr>ig_mailbox := mailbox\<rparr>)
      | (Inr (Some command), mailbox) \<Rightarrow> take_claim command (ig\<lparr>ig_mailbox := mailbox\<rparr>))"

definition try_take_admission ::
  "thread_id \<Rightarrow> ControllerIngress \<Rightarrow>
     ControllerAdmissionView option result \<times> ControllerIngress" where
  "try_take_admission current ig =
     (case ingress_try_take_command current ig of
        (Inl e, ig') \<Rightarrow> (Inl e, ig')
      | (Inr None, ig') \<Rightarrow> (Inr None, ig')
      | (Inr (Some item), ig') \<Rightarrow>
          (case cv_request item of
             Some request \<Rightarrow>
               if cc_kind (cv_command item) \<noteq> kAdmit
               then (Inl (Internal msg_non_admit_command_reached_admission_ingress), ig')
               else (Inr (Some \<lparr>av_command = cv_command item, av_request = request\<rparr>), ig')
           | None \<Rightarrow> (Inl (Internal msg_non_admit_command_reached_admission_ingress), ig')))"

definition release_request ::
  "ControllerRequestView \<Rightarrow> ControllerIngress \<Rightarrow> status \<times> ControllerIngress" where
  "release_request request ig =
     (case release_claimed (rv_slot_index request) (rv_slot_generation request) (ig_requests ig) of
        (st, requests) \<Rightarrow> (st, ig\<lparr>ig_requests := requests\<rparr>))"

definition ingress_publish_event ::
  "thread_id \<Rightarrow> ControllerOutputEventDraft \<Rightarrow> ControllerIngress \<Rightarrow>
     ControllerOutputEvent result \<times> ControllerIngress" where
  "ingress_publish_event current draft ig =
     (case publish_event current draft (ig_mailbox ig) of
        (r, mailbox) \<Rightarrow> (r, ig\<lparr>ig_mailbox := mailbox\<rparr>))"

definition ingress_try_take_event ::
  "ControllerIngress \<Rightarrow> ControllerOutputEvent option result \<times> ControllerIngress" where
  "ingress_try_take_event ig =
     (case try_take_event (ig_mailbox ig) of (r, mailbox) \<Rightarrow> (r, ig\<lparr>ig_mailbox := mailbox\<rparr>))"

definition queued_command_count :: "ControllerIngress \<Rightarrow> u32" where
  "queued_command_count ig = command_size (ig_mailbox ig)"

definition published_request_count :: "ControllerIngress \<Rightarrow> u32" where
  "published_request_count ig = published_count (ig_requests ig)"

definition claimed_request_count :: "ControllerIngress \<Rightarrow> u32" where
  "claimed_request_count ig = claimed_count (ig_requests ig)"

definition available_event_credit :: "ControllerIngress \<Rightarrow> u32" where
  "available_event_credit ig = event_available_capacity (ig_mailbox ig)"

definition queued_event_count :: "ControllerIngress \<Rightarrow> u32" where
  "queued_event_count ig = event_size (ig_mailbox ig)"

section \<open>A refused admission leaves no trace\<close>

text \<open>The arena apart from the slots' generation counters.\<close>

definition arena_contents :: "ControllerRequestArena \<Rightarrow> u32 list \<times> RequestSlot list" where
  "arena_contents a = (ra_tokens a, map (rs_generation_update (\<lambda>_. 0)) (ra_slots a))"

lemma rollback_after_publish:
  assumes "arena_ok a" and "publish g prompt n sampling a = (Inr r, a1)"
  shows "rollback_published r a1 = (Ok, clear_slot (unat (rc_slot_index r)) a1)"
  using publish_stores [OF assms] by (simp add: rollback_published_def)

lemma overwrite_overwrite:
  "length data \<le> length data' \<Longrightarrow> off + length data' \<le> length buf \<Longrightarrow>
     overwrite (overwrite buf off data) off data' = overwrite buf off data'"
  by (simp add: overwrite_def add.commute)

lemma overwrite_same: "off + n \<le> length buf \<Longrightarrow> overwrite buf off (take n (drop off buf)) = buf"
  by (simp add: overwrite_def) (metis add.commute append_take_drop_id drop_drop)

lemma clear_after_publish:
  assumes "arena_ok a" and "publish g prompt n sampling a = (Inr r, a1)"
  shows "arena_contents (clear_slot (unat (rc_slot_index r)) a1) = arena_contents a"
proof -
  have shape: "shape_ok a" using assms(1) by (simp add: arena_ok_def)
  obtain k where k: "find_index (\<lambda>slot. rs_state slot = kFree) (ra_slots a) = Some k"
    and fits: "\<not> exceeds_token_profile a g prompt n sampling"
    and r: "rc_slot_index r = of_nat k"
    and a1: "a1 = store_slot k prompt
           (published_slot (rs_generation (ra_slots a ! k) + 1) g prompt n sampling
              (rc_payload_digest r)) a"
    using publish_accepted [OF assms(2)] by (metis ControllerRequestReceipt.select_convs(1))
  have kl: "k < length (ra_slots a)" and free: "rs_state (ra_slots a ! k) = kFree"
    using k by (auto dest: find_index_SomeD)
  have i: "unat (rc_slot_index r) = k" using r kl unat_of_nat_length [OF shape, of k] by simp
  have len: "length prompt \<le> prompt_capacity a"
    using fits by (simp add: exceeds_token_profile_def Let_def)
  have "free_slot_ok (ra_slots a ! k) (slot_region a k)"
    using assms(1) kl free by (auto simp: arena_ok_def slot_ok_def)
  then have slot: "ra_slots a ! k = default_request_slot\<lparr>rs_generation := rs_generation (ra_slots a ! k)\<rparr>"
    and zero: "\<forall>t\<in>set (slot_region a k). t = 0"
    by (simp_all add: free_slot_ok_def)
  have region: "replicate (prompt_capacity a) 0 = slot_region a k"
    using zero length_slot_region [OF shape kl] by (metis replicate_length_same)
  have "overwrite (ra_tokens a) (slot_offset a k) (slot_region a k) = ra_tokens a"
    using slot_offset_fits [OF shape kl] by (simp add: slot_region_def overwrite_same)
  then have "ra_tokens (clear_slot k a1) = ra_tokens a"
    using len slot_offset_fits [OF shape kl] region length_slot_region [OF shape kl]
    by (simp add: clear_slot_eq a1 store_slot_def slot_offset_def overwrite_overwrite)
  moreover have "map (rs_generation_update (\<lambda>_. 0)) (ra_slots (clear_slot k a1)) =
      map (rs_generation_update (\<lambda>_. 0)) (ra_slots a)"
  proof -
    have "(rs_generation_update (\<lambda>_. 0)) (default_request_slot\<lparr>rs_generation := x\<rparr>) =
        (rs_generation_update (\<lambda>_. 0)) (ra_slots a ! k)" for x
      by (subst slot) simp
    then show ?thesis
      using kl by (simp add: clear_slot_eq a1 map_update list_update_same_conv)
  qed
  ultimately show ?thesis by (simp add: arena_contents_def i)
qed

lemma digest_chunks_error: "digest_chunks cs = Inl e \<Longrightarrow> st_code e = kResourceExhausted"
  using digest_chunks_fits [of cs] digest_chunks_too_long [of cs]
  by (cases "length (concat cs) \<le> max_message_bytes") auto

lemma payload_digest_error:
  "controller_request_payload_digest g prompt n sampling = Inl e \<Longrightarrow> st_code e \<noteq> kInternal"
  by (auto simp: controller_request_payload_digest_def dest: digest_chunks_error split: if_splits)

lemma publish_error: "publish g prompt n sampling a = (Inl e, a') \<Longrightarrow> st_code e \<noteq> kInternal"
  by (auto simp: publish_def Let_def dest: payload_digest_error split: if_splits sum.splits option.splits)

lemma submit_command_error: "submit_command k ep g d mb = (Inl e, mb') \<Longrightarrow> st_code e \<noteq> kInternal"
  by (auto simp: submit_command_def Let_def split: if_splits)

lemma submit_command_rejected: "submit_command k ep g d mb = (Inl e, mb') \<Longrightarrow> mb' = mb"
  by (erule submit_command_cases) simp_all

text \<open>
  C11. Admission is all or nothing. When \<open>submit_admit\<close> fails on an ingress with a well-formed arena,
  for whatever reason, the mailbox is exactly what it was, and so is the arena apart from a slot
  generation counter: no payload stays behind without a command. It never fails with the internal
  rollback error.
\<close>

theorem failed_admission_leaves_no_trace:
  assumes "reachable arena_init arena_step (ig_requests ig)"
    and "submit_admit epoch g prompt n sampling ig = (Inl e, ig')"
  shows "ig_mailbox ig' = ig_mailbox ig \<and>
    arena_contents (ig_requests ig') = arena_contents (ig_requests ig) \<and>
    e \<noteq> Internal msg_controller_admission_rollback_failed"
proof (cases "epoch = 0")
  case True
  with assms(2) show ?thesis by (auto simp: submit_admit_def)
next
  case False
  have ok: "arena_ok (ig_requests ig)" using request_arena.holds_when_reachable [OF assms(1)] .
  obtain p a1 where pub: "publish g prompt n sampling (ig_requests ig) = (p, a1)" by fastforce
  have code: "x \<noteq> Internal m" if "st_code x \<noteq> kInternal" for x m using that by auto
  show ?thesis
  proof (cases p)
    case (Inl x)
    with pub have "a1 = ig_requests ig" "st_code x \<noteq> kInternal"
      by (auto dest: publish_rejected publish_error)
    with False assms(2) pub Inl show ?thesis by (auto simp: submit_admit_def code)
  next
    case (Inr r)
    note pub = pub [unfolded Inr]
    obtain c mb where sub: "submit_command kAdmit epoch g (rc_payload_digest r) (ig_mailbox ig) = (c, mb)"
      by fastforce
    with False assms(2) pub obtain x where x: "c = Inl x"
      by (cases c) (auto simp: submit_admit_def admit_submit_defs)
    with sub have "mb = ig_mailbox ig" "st_code x \<noteq> kInternal"
      by (auto dest: submit_command_rejected submit_command_error)
    with False assms(2) pub sub x rollback_after_publish [OF ok pub] clear_after_publish [OF ok pub]
    show ?thesis by (auto simp: submit_admit_def admit_submit_defs code)
  qed
qed

lemma submit_command_full:
  assumes "ring_full (mb_commands mb)"
  shows "\<exists>x mb'. submit_command k ep g d mb = (Inl x, mb')"
proof -
  obtain r mb' where sub: "submit_command k ep g d mb = (r, mb')" by fastforce
  then show ?thesis
    using assms sub by (cases rule: submit_command_cases) auto
qed

definition example_full_ingress :: ControllerIngress where
  "example_full_ingress =
     \<lparr>ig_mailbox = snd (mailbox_run (replicate 2 (SubmitCommand kCancel 7 1 ones_digest))
                          (mailbox_new example_mailbox_limits)),
      ig_requests = example_arena\<rparr>"

theorem failed_admission_leaves_no_trace_witness:
  "\<exists>e ig'. submit_admit 7 1 [5, 6] 3 default_sampling example_full_ingress = (Inl e, ig') \<and>
     ig_mailbox ig' = ig_mailbox example_full_ingress \<and>
     arena_contents (ig_requests ig') = arena_contents example_arena"
proof -
  let ?ig = "example_full_ingress"
  have req: "ig_requests ?ig = example_arena" by (simp add: example_full_ingress_def)
  have full: "ring_full (mb_commands (ig_mailbox ?ig))" by code_simp
  obtain r a1 where p: "publish 1 [5, 6] 3 default_sampling example_arena = (Inr r, a1)"
    using example_publish by blast
  obtain x mb where "submit_command kAdmit 7 1 (rc_payload_digest r) (ig_mailbox ?ig) = (Inl x, mb)"
    using submit_command_full [OF full] by blast
  then obtain e ig' where adm: "submit_admit 7 1 [5, 6] 3 default_sampling ?ig = (Inl e, ig')"
    using p req rollback_after_publish
      [OF request_arena.holds_when_reachable [OF example_arena_reachable] p]
    by (auto simp: submit_admit_def admit_submit_defs)
  have "reachable arena_init arena_step (ig_requests ?ig)" using req example_arena_reachable by simp
  from failed_admission_leaves_no_trace [OF this adm] adm req show ?thesis by auto
qed

section \<open>Concurrent producers and the controller\<close>

record ingress_state =
  cs_ingress :: ControllerIngress
  cs_pending :: "(u64 \<times> ControllerRequestReceipt) list"
  cs_refused :: "(status \<times> ControllerRequestReceipt) list"
  cs_taken :: "ControllerCommand option"

definition ingress_init :: "ingress_state \<Rightarrow> bool" where
  "ingress_init cs \<longleftrightarrow>
     (\<exists>allocates limits.
        ingress_Create allocates limits = Inr (cs_ingress cs) \<and>
        ml_command_capacity (il_mailbox limits) \<le> 2 ^ 31 \<and>
        ml_event_capacity (il_mailbox limits) \<le> 2 ^ 31) \<and>
     cs_pending cs = [] \<and> cs_refused cs = [] \<and> cs_taken cs = None"

text \<open>One step per call that takes a mutex. A refused publication changes nothing and is no step.\<close>

inductive ingress_step :: "ingress_state \<Rightarrow> ingress_state \<Rightarrow> bool" where
  begin_admit:
    "epoch \<noteq> 0 \<Longrightarrow>
     publish g prompt n sampling (ig_requests (cs_ingress cs)) = (Inr r, requests) \<Longrightarrow>
     ingress_step cs (cs\<lparr>cs_ingress := (cs_ingress cs)\<lparr>ig_requests := requests\<rparr>,
                         cs_pending := (epoch, r) # cs_pending cs\<rparr>)"
| queue_admit:
    "(epoch, r) \<in> set (cs_pending cs) \<Longrightarrow>
     admit_queue epoch (rc_request_generation r) r (cs_ingress cs) = (Inr c, ig) \<Longrightarrow>
     ingress_step cs (cs\<lparr>cs_ingress := ig, cs_pending := remove1 (epoch, r) (cs_pending cs)\<rparr>)"
| refuse_admit:
    "(epoch, r) \<in> set (cs_pending cs) \<Longrightarrow>
     admit_queue epoch (rc_request_generation r) r (cs_ingress cs) = (Inl e, ig) \<Longrightarrow>
     ingress_step cs (cs\<lparr>cs_ingress := ig, cs_pending := remove1 (epoch, r) (cs_pending cs),
                         cs_refused := (e, r) # cs_refused cs\<rparr>)"
| roll_back:
    "(e, r) \<in> set (cs_refused cs) \<Longrightarrow>
     admit_rollback e r (cs_ingress cs) = (res, ig) \<Longrightarrow>
     ingress_step cs (cs\<lparr>cs_ingress := ig, cs_refused := remove1 (e, r) (cs_refused cs)\<rparr>)"
| cancel:
    "submit_cancel epoch g (cs_ingress cs) = (res, ig) \<Longrightarrow> ingress_step cs (cs\<lparr>cs_ingress := ig\<rparr>)"
| begin_take:
    "cs_taken cs = None \<Longrightarrow>
     try_take_command t (ig_mailbox (cs_ingress cs)) = (Inr (Some c), mailbox) \<Longrightarrow>
     ingress_step cs (cs\<lparr>cs_ingress := (cs_ingress cs)\<lparr>ig_mailbox := mailbox\<rparr>, cs_taken := Some c\<rparr>)"
| take_nothing:
    "try_take_command t (ig_mailbox (cs_ingress cs)) = (res, mailbox) \<Longrightarrow>
     res = Inr None \<or> res = Inl e \<Longrightarrow>
     ingress_step cs (cs\<lparr>cs_ingress := (cs_ingress cs)\<lparr>ig_mailbox := mailbox\<rparr>\<rparr>)"
| finish_take:
    "cs_taken cs = Some c \<Longrightarrow> take_claim c (cs_ingress cs) = (res, ig) \<Longrightarrow>
     ingress_step cs (cs\<lparr>cs_ingress := ig, cs_taken := None\<rparr>)"
| release:
    "release_request v (cs_ingress cs) = (st, ig) \<Longrightarrow> ingress_step cs (cs\<lparr>cs_ingress := ig\<rparr>)"
| emit_event:
    "ingress_publish_event t draft (cs_ingress cs) = (res, ig) \<Longrightarrow>
     ingress_step cs (cs\<lparr>cs_ingress := ig\<rparr>)"
| read_event:
    "ingress_try_take_event (cs_ingress cs) = (res, ig) \<Longrightarrow> ingress_step cs (cs\<lparr>cs_ingress := ig\<rparr>)"

text \<open>The admissions under way: each is known by its generation and digest.\<close>

definition admit_keys :: "ControllerCommand list \<Rightarrow> (u64 \<times> Sha256Digest) list" where
  "admit_keys cs =
     map (\<lambda>c. (cc_request_generation c, cc_payload_digest c)) (filter (\<lambda>c. cc_kind c = kAdmit) cs)"

definition receipt_key :: "ControllerRequestReceipt \<Rightarrow> u64 \<times> Sha256Digest" where
  "receipt_key r = (rc_request_generation r, rc_payload_digest r)"

definition open_receipts :: "ingress_state \<Rightarrow> ControllerRequestReceipt list" where
  "open_receipts cs = map snd (cs_pending cs) @ map snd (cs_refused cs)"

definition open_keys :: "ingress_state \<Rightarrow> (u64 \<times> Sha256Digest) list" where
  "open_keys cs =
     admit_keys (case cs_taken cs of None \<Rightarrow> [] | Some c \<Rightarrow> [c]) @
     admit_keys (ring_contents (mb_commands (ig_mailbox (cs_ingress cs)))) @
     map receipt_key (open_receipts cs)"

text \<open>The payloads the arena holds as published, in slot order.\<close>

definition slot_key :: "RequestSlot \<Rightarrow> u64 \<times> Sha256Digest" where
  "slot_key slot = (rs_request_generation slot, rs_payload_digest slot)"

definition published_keys :: "ControllerRequestArena \<Rightarrow> (u64 \<times> Sha256Digest) list" where
  "published_keys a = map slot_key (filter (\<lambda>slot. rs_state slot = kPublished) (ra_slots a))"

definition published_as :: "ControllerRequestArena \<Rightarrow> u64 \<times> Sha256Digest \<Rightarrow> bool" where
  "published_as a key \<longleftrightarrow>
     (\<exists>i<length (ra_slots a). rs_state (ra_slots a ! i) = kPublished \<and>
        rs_request_generation (ra_slots a ! i) = fst key \<and>
        rs_payload_digest (ra_slots a ! i) = snd key)"

definition receipt_valid :: "ControllerRequestArena \<Rightarrow> ControllerRequestReceipt \<Rightarrow> bool" where
  "receipt_valid a r \<longleftrightarrow>
     unat (rc_slot_index r) < length (ra_slots a) \<and>
     (let slot = ra_slots a ! unat (rc_slot_index r) in
      rs_state slot = kPublished \<and> rs_generation slot = rc_slot_generation r \<and>
      rs_request_generation slot = rc_request_generation r \<and>
      rs_payload_digest slot = rc_payload_digest r)"

text \<open>
  The arena part of the invariant: a set of keys with published slots, and receipts that match
  theirs. Publishing adds a key; clearing or claiming the slot of one generation keeps the others.
\<close>

definition holds_keys :: "ControllerRequestArena \<Rightarrow> (u64 \<times> Sha256Digest) set \<Rightarrow>
    ControllerRequestReceipt set \<Rightarrow> bool" where
  "holds_keys a keys receipts \<longleftrightarrow>
     (\<forall>key\<in>keys. published_as a key) \<and> (\<forall>r\<in>receipts. receipt_valid a r)"

lemma holds_keys_store:
  assumes "arena_ok a" and "holds_keys a keys receipts" and "i < length (ra_slots a)"
    and "\<And>key. key \<in> keys \<Longrightarrow> rs_state (ra_slots a ! i) = kPublished \<Longrightarrow>
      fst key \<noteq> rs_request_generation (ra_slots a ! i)"
    and "\<And>r. r \<in> receipts \<Longrightarrow> rs_state (ra_slots a ! i) = kPublished \<Longrightarrow>
      rc_request_generation r \<noteq> rs_request_generation (ra_slots a ! i)"
  shows "holds_keys (store_slot i data slot a) keys receipts"
  unfolding holds_keys_def
proof (intro conjI ballI)
  fix key assume key: "key \<in> keys"
  with assms(2) obtain j where j: "j < length (ra_slots a)" "rs_state (ra_slots a ! j) = kPublished"
    "rs_request_generation (ra_slots a ! j) = fst key" "rs_payload_digest (ra_slots a ! j) = snd key"
    by (auto simp: holds_keys_def published_as_def)
  with assms(4) [OF key] have "j \<noteq> i" by auto
  with j show "published_as (store_slot i data slot a) key"
    unfolding published_as_def by (intro exI [of _ j]) simp
next
  fix r assume r: "r \<in> receipts"
  with assms(2) have v: "receipt_valid a r" by (simp add: holds_keys_def)
  with assms(5) [OF r] have "unat (rc_slot_index r) \<noteq> i" by (auto simp: receipt_valid_def Let_def)
  with v show "receipt_valid (store_slot i data slot a) r" by (simp add: receipt_valid_def)
qed

lemma holds_keys_publish:
  assumes "arena_ok a" and "holds_keys a keys receipts"
    and "publish g prompt n sampling a = (Inr r, a')"
  shows "holds_keys a' (insert (receipt_key r) keys) (insert r receipts)"
    and "\<And>key. key \<in> keys \<Longrightarrow> fst key \<noteq> rc_request_generation r"
proof -
  note st = publish_stores [OF assms(1,3)]
  have "receipt_valid a' r" using st by (simp add: receipt_valid_def)
  moreover have "published_as a' (receipt_key r)"
    unfolding published_as_def receipt_key_def
    using st by (intro exI [of _ "unat (rc_slot_index r)"]) simp
  moreover have "holds_keys a' keys receipts"
    using assms(3)
  proof (rule publish_accepted)
    fix i
    assume i: "find_index (\<lambda>slot. rs_state slot = kFree) (ra_slots a) = Some i"
      and a': "a' = store_slot i prompt
           (published_slot (rs_generation (ra_slots a ! i) + 1) g prompt n sampling
              (rc_payload_digest r)) a"
    have free: "i < length (ra_slots a)" "rs_state (ra_slots a ! i) = kFree"
      using i by (auto dest: find_index_SomeD)
    show ?thesis
      unfolding a' by (rule holds_keys_store [OF assms(1,2) free(1)]) (simp_all add: free(2))
  qed
  ultimately show "holds_keys a' (insert (receipt_key r) keys) (insert r receipts)"
    by (simp add: holds_keys_def)
  fix key assume "key \<in> keys"
  then have "published_as a key" using assms(2) by (simp add: holds_keys_def)
  then obtain j where j: "j < length (ra_slots a)" "rs_state (ra_slots a ! j) = kPublished"
    "rs_request_generation (ra_slots a ! j) = fst key"
    unfolding published_as_def by blast
  have "\<forall>slot\<in>set (ra_slots a). rs_state slot \<noteq> kFree \<longrightarrow> rs_request_generation slot \<noteq> g"
    using assms(3) by (rule publish_accepted)
  with j show "fst key \<noteq> rc_request_generation r" by (auto simp: st(7) dest: nth_mem)
qed

lemma holds_keys_clear:
  assumes "arena_ok a" and "holds_keys a keys receipts" and "i < length (ra_slots a)"
    and "\<And>key. key \<in> keys \<Longrightarrow> rs_state (ra_slots a ! i) = kPublished \<Longrightarrow>
      fst key \<noteq> rs_request_generation (ra_slots a ! i)"
    and "\<And>r. r \<in> receipts \<Longrightarrow> rs_state (ra_slots a ! i) = kPublished \<Longrightarrow>
      rc_request_generation r \<noteq> rs_request_generation (ra_slots a ! i)"
  shows "holds_keys (clear_slot i a) keys receipts"
  unfolding clear_slot_eq using assms by (rule holds_keys_store)

lemma claim_of_key:
  assumes "arena_ok a" and "published_as a (g, d)"
  obtains i v where "claim g d a = (Inr v, store_slot i [] ((ra_slots a ! i)\<lparr>rs_state := kClaimed\<rparr>) a)"
    "i < length (ra_slots a)" "rs_state (ra_slots a ! i) = kPublished"
    "rs_request_generation (ra_slots a ! i) = g"
proof -
  obtain i where i: "i < length (ra_slots a)" "rs_state (ra_slots a ! i) = kPublished"
    "rs_request_generation (ra_slots a ! i) = g" "rs_payload_digest (ra_slots a ! i) = d"
    using assms(2) by (auto simp: published_as_def)
  then have "find_index (\<lambda>slot. rs_state slot = kPublished \<and> rs_request_generation slot = g)
      (ra_slots a) = Some i"
    using claim_published [OF assms(1)] by blast
  with i show thesis by (intro that) (auto simp: claim_def store_slot_def Let_def)
qed

text \<open>Conversely, the arena publishes nothing but these keys.\<close>

definition only_keys :: "ControllerRequestArena \<Rightarrow> (u64 \<times> Sha256Digest) set \<Rightarrow> bool" where
  "only_keys a keys \<longleftrightarrow>
     (\<forall>i<length (ra_slots a). rs_state (ra_slots a ! i) = kPublished \<longrightarrow> slot_key (ra_slots a ! i) \<in> keys)"

lemma only_keys_publish:
  assumes "only_keys a keys" and "publish g prompt n sampling a = (Inr r, a')"
  shows "only_keys a' (insert (receipt_key r) keys)"
  using assms(2)
proof (rule publish_accepted)
  fix i
  assume r: "r = \<lparr>rc_slot_index = of_nat i, rc_slot_generation = rs_generation (ra_slots a ! i) + 1,
        rc_request_generation = g, rc_payload_digest = rc_payload_digest r\<rparr>"
    and a': "a' = store_slot i prompt
        (published_slot (rs_generation (ra_slots a ! i) + 1) g prompt n sampling (rc_payload_digest r)) a"
  have "rc_request_generation r = g" by (subst r) simp
  then have "slot_key (ra_slots a' ! j) \<in> insert (receipt_key r) keys"
    if "j < length (ra_slots a')" "rs_state (ra_slots a' ! j) = kPublished" for j
    using that assms(1) unfolding a' only_keys_def
    by (cases "j = i") (auto simp: slot_key_def receipt_key_def)
  then show ?thesis by (simp add: only_keys_def)
qed

lemma only_keys_unpublish:
  assumes "arena_ok a" and "only_keys a (insert k keys)" and "i < length (ra_slots a)"
    and "rs_state slot \<noteq> kPublished"
    and "rs_state (ra_slots a ! i) = kPublished" and "rs_request_generation (ra_slots a ! i) = fst k"
  shows "only_keys (store_slot i data slot a) keys"
  unfolding only_keys_def
proof (intro allI impI)
  fix j assume j: "j < length (ra_slots (store_slot i data slot a))"
    and p: "rs_state (ra_slots (store_slot i data slot a) ! j) = kPublished"
  then have ne: "j \<noteq> i" using assms(3,4) by auto
  with j p have j': "j < length (ra_slots a)" "rs_state (ra_slots a ! j) = kPublished" by simp_all
  then have "rs_request_generation (ra_slots a ! j) \<noteq> fst k"
    using live_generations_distinctD [of "ra_slots a" j i] assms(1,3,5,6) ne by (auto simp: arena_ok_def)
  moreover have "slot_key (ra_slots a ! j) \<in> insert k keys" using assms(2) j' by (simp add: only_keys_def)
  ultimately show "slot_key (ra_slots (store_slot i data slot a) ! j) \<in> keys"
    using ne by (auto simp: slot_key_def)
qed

lemma only_keys_claimed:
  assumes "only_keys a keys" and "rs_state slot \<noteq> kPublished"
  shows "only_keys (store_slot i data slot a) keys"
  unfolding only_keys_def
proof (intro allI impI)
  fix j assume "j < length (ra_slots (store_slot i data slot a))"
    "rs_state (ra_slots (store_slot i data slot a) ! j) = kPublished"
  with assms show "slot_key (ra_slots (store_slot i data slot a) ! j) \<in> keys"
    by (cases "j = i") (auto simp: only_keys_def)
qed

lemma distinct_published_generations:
  assumes "arena_ok a"
  shows "distinct (map fst (published_keys a))"
proof -
  have "distinct (map rs_request_generation (filter (\<lambda>slot. rs_state slot = kPublished) xs))"
    if "live_generations_distinct xs" for xs
    using that
  proof (induction xs)
    case (Cons x xs)
    have "i = j" if "i < length xs" "j < length xs" "rs_state (xs ! i) \<noteq> kFree" "rs_state (xs ! j) \<noteq> kFree"
      "rs_request_generation (xs ! i) = rs_request_generation (xs ! j)" for i j
      using live_generations_distinctD [OF Cons.prems, of "Suc i" "Suc j"] that by simp
    then have "live_generations_distinct xs" by (simp add: live_generations_distinct_def)
    moreover have "rs_request_generation x \<noteq> rs_request_generation y"
      if "y \<in> set xs" "rs_state y = kPublished" "rs_state x = kPublished" for y
    proof -
      from that(1) obtain j where "j < length xs" "y = xs ! j" by (auto simp: in_set_conv_nth)
      with that live_generations_distinctD [OF Cons.prems, of 0 "Suc j"] show ?thesis by auto
    qed
    ultimately show ?case using Cons.IH by auto
  qed simp
  with assms show ?thesis
    by (simp add: published_keys_def slot_key_def arena_ok_def comp_def)
qed

definition ingress_inv :: "ingress_state \<Rightarrow> bool" where
  "ingress_inv cs \<longleftrightarrow>
     arena_ok (ig_requests (cs_ingress cs)) \<and> mailbox_ok (ig_mailbox (cs_ingress cs)) \<and>
     distinct (map fst (open_keys cs)) \<and>
     holds_keys (ig_requests (cs_ingress cs)) (set (open_keys cs)) (set (open_receipts cs)) \<and>
     only_keys (ig_requests (cs_ingress cs)) (set (open_keys cs))"

text \<open>The invariant makes the published payloads exactly the open admissions.\<close>

lemma published_keys_open:
  assumes "ingress_inv cs"
  shows "mset (published_keys (ig_requests (cs_ingress cs))) = mset (open_keys cs)"
proof -
  let ?a = "ig_requests (cs_ingress cs)"
  have "set (published_keys ?a) = set (open_keys cs)"
  proof
    show "set (published_keys ?a) \<subseteq> set (open_keys cs)"
      using assms by (auto simp: ingress_inv_def only_keys_def published_keys_def in_set_conv_nth)
    show "set (open_keys cs) \<subseteq> set (published_keys ?a)"
    proof
      fix key assume "key \<in> set (open_keys cs)"
      then have "published_as ?a key" using assms by (simp add: ingress_inv_def holds_keys_def)
      then obtain i where "i < length (ra_slots ?a)" "rs_state (ra_slots ?a ! i) = kPublished"
        "slot_key (ra_slots ?a ! i) = key"
        by (auto simp: published_as_def slot_key_def)
      then show "key \<in> set (published_keys ?a)"
        unfolding published_keys_def by force
    qed
  qed
  moreover have "distinct (published_keys ?a)" "distinct (open_keys cs)"
    using assms distinct_published_generations [of ?a] by (auto simp: ingress_inv_def distinct_map)
  ultimately show ?thesis by (simp add: set_eq_iff_mset_eq_distinct)
qed

lemma admit_keys_simps [simp]:
  "admit_keys [] = []"
  "admit_keys (c # cs) =
     (if cc_kind c = kAdmit then [(cc_request_generation c, cc_payload_digest c)] else []) @ admit_keys cs"
  "admit_keys (xs @ ys) = admit_keys xs @ admit_keys ys"
  by (simp_all add: admit_keys_def)

lemma holds_keys_mono:
  "holds_keys a keys receipts \<Longrightarrow> keys' \<subseteq> keys \<Longrightarrow> receipts' \<subseteq> receipts \<Longrightarrow> holds_keys a keys' receipts'"
  by (auto simp: holds_keys_def)

lemma distinct_split_key:
  assumes "mset ks = add_mset k (mset ks')" and "distinct (map fst ks)"
  shows "distinct (map fst ks')" and "\<And>k'. k' \<in> set ks' \<Longrightarrow> fst k' \<noteq> fst k" and "set ks = insert k (set ks')"
proof -
  have "mset (map fst ks) = mset (map fst (k # ks'))" using assms(1) by simp
  then have d: "distinct (map fst (k # ks'))"
    using assms(2) mset_eq_imp_distinct_iff by blast
  then show "distinct (map fst ks')" by simp
  have "fst k \<notin> fst ` set ks'" using d by simp
  then show "fst k' \<noteq> fst k" if "k' \<in> set ks'" for k' using imageI [OF that, of fst] by metis
  show "set ks = insert k (set ks')" using assms(1) by (metis set_mset_add_mset_insert set_mset_mset)
qed

lemma mailbox_ok_submit:
  assumes "mailbox_ok mb" and "submit_command k ep g d mb = (r, mb')"
  shows "mailbox_ok mb'"
    and "ring_contents (mb_commands mb') =
      ring_contents (mb_commands mb) @ (case r of Inl _ \<Rightarrow> [] | Inr c \<Rightarrow> [c])"
  using mailbox_step_fifo(1,2) [OF assms(1), of "SubmitCommand k ep g d" "SubmitReply r" mb'] assms(2)
  by (cases r; simp)+

lemma submit_command_value:
  "submit_command k ep g d mb = (Inr c, mb') \<Longrightarrow>
     cc_kind c = k \<and> cc_request_generation c = g \<and> cc_payload_digest c = d"
  by (auto simp: submit_command_def Let_def split: if_splits)

text \<open>A step that keeps the arena, the open keys and no new receipts keeps the invariant.\<close>

lemma inv_same_keys:
  assumes "ingress_inv cs" and "ig_requests (cs_ingress cs') = ig_requests (cs_ingress cs)"
    and "mailbox_ok (ig_mailbox (cs_ingress cs'))"
    and keys: "mset (open_keys cs') = mset (open_keys cs)"
    and "set (open_receipts cs') \<subseteq> set (open_receipts cs)"
  shows "ingress_inv cs'"
proof -
  have "mset (map fst (open_keys cs')) = mset (map fst (open_keys cs))" using keys by simp
  then have "distinct (map fst (open_keys cs'))"
    using assms(1) mset_eq_imp_distinct_iff unfolding ingress_inv_def by blast
  moreover have "set (open_keys cs') = set (open_keys cs)" using keys mset_eq_setD by blast
  ultimately show ?thesis
    using assms(1,2,3,5) by (auto simp: ingress_inv_def intro: holds_keys_mono)
qed

text \<open>A step that takes the slot of one open key out of the published state drops exactly that key.\<close>

lemma inv_drop_key:
  assumes inv: "ingress_inv cs"
    and keys: "mset (open_keys cs) = add_mset k (mset (open_keys cs'))"
    and receipts: "set (open_receipts cs') \<subseteq> set (open_receipts cs)"
    and arena: "ig_requests (cs_ingress cs') = store_slot i data slot (ig_requests (cs_ingress cs))"
    and mailbox: "ig_mailbox (cs_ingress cs') = ig_mailbox (cs_ingress cs)"
    and slot: "i < length (ra_slots (ig_requests (cs_ingress cs)))"
      "rs_state (ra_slots (ig_requests (cs_ingress cs)) ! i) = kPublished"
      "rs_request_generation (ra_slots (ig_requests (cs_ingress cs)) ! i) = fst k"
      "rs_state slot \<noteq> kPublished"
    and ok: "arena_ok (ig_requests (cs_ingress cs'))"
  shows "ingress_inv cs'"
proof -
  let ?a = "ig_requests (cs_ingress cs)"
  have a: "arena_ok ?a" and h: "holds_keys ?a (set (open_keys cs)) (set (open_receipts cs))"
    and o: "only_keys ?a (set (open_keys cs))" and d: "distinct (map fst (open_keys cs))"
    using inv by (simp_all add: ingress_inv_def)
  note dk = distinct_split_key [OF keys d]
  have "holds_keys ?a (set (open_keys cs')) (set (open_receipts cs'))"
    using h dk(3) receipts by (auto intro: holds_keys_mono)
  then have "holds_keys (store_slot i data slot ?a) (set (open_keys cs')) (set (open_receipts cs'))"
  proof (rule holds_keys_store [OF a _ slot(1)])
    show "fst key \<noteq> rs_request_generation (ra_slots ?a ! i)" if "key \<in> set (open_keys cs')" for key
      using dk(2) [OF that] slot(3) by simp
    show "rc_request_generation r \<noteq> rs_request_generation (ra_slots ?a ! i)"
      if "r \<in> set (open_receipts cs')" for r
    proof -
      have "receipt_key r \<in> set (open_keys cs')" using that by (simp add: open_keys_def)
      from dk(2) [OF this] slot(3) show ?thesis by (simp add: receipt_key_def)
    qed
  qed
  moreover have "only_keys (store_slot i data slot ?a) (set (open_keys cs'))"
    using only_keys_unpublish [OF a _ slot(1) slot(4) slot(2,3)] o dk(3) by simp
  ultimately show ?thesis
    using inv dk(1) ok by (simp add: ingress_inv_def arena mailbox)
qed

lemma inv_begin_admit:
  assumes inv: "ingress_inv cs"
    and pub: "publish g prompt n sampling (ig_requests (cs_ingress cs)) = (Inr r, requests)"
  shows "ingress_inv (cs\<lparr>cs_ingress := (cs_ingress cs)\<lparr>ig_requests := requests\<rparr>,
    cs_pending := (epoch, r) # cs_pending cs\<rparr>)"
proof -
  let ?cs = "cs\<lparr>cs_ingress := (cs_ingress cs)\<lparr>ig_requests := requests\<rparr>,
    cs_pending := (epoch, r) # cs_pending cs\<rparr>"
  have ok: "arena_ok (ig_requests (cs_ingress cs))" and d: "distinct (map fst (open_keys cs))"
    and h: "holds_keys (ig_requests (cs_ingress cs)) (set (open_keys cs)) (set (open_receipts cs))"
    and o: "only_keys (ig_requests (cs_ingress cs)) (set (open_keys cs))"
    using inv by (simp_all add: ingress_inv_def)
  note hp = holds_keys_publish [OF ok h pub]
  have keys: "mset (open_keys ?cs) = add_mset (receipt_key r) (mset (open_keys cs))"
    by (simp add: open_keys_def open_receipts_def)
  then have "mset (map fst (open_keys ?cs)) = mset (map fst (receipt_key r # open_keys cs))" by simp
  moreover have "distinct (map fst (receipt_key r # open_keys cs))"
    using d hp(2) by (force simp: receipt_key_def)
  ultimately have "distinct (map fst (open_keys ?cs))" using mset_eq_imp_distinct_iff by blast
  moreover have "set (open_keys ?cs) = insert (receipt_key r) (set (open_keys cs))"
    using keys by (metis set_mset_add_mset_insert set_mset_mset)
  moreover have "set (open_receipts ?cs) = insert r (set (open_receipts cs))"
    by (simp add: open_receipts_def)
  ultimately show ?thesis
    using inv arena_ok_publish [OF ok pub] hp(1) only_keys_publish [OF o pub] by (simp add: ingress_inv_def)
qed

lemma mset_map_remove1: "x \<in> set xs \<Longrightarrow> mset (map f xs) = add_mset (f x) (mset (map f (remove1 x xs)))"
  by (induction xs) auto

lemma set_map_remove1: "f ` set (remove1 x xs) \<subseteq> f ` set xs"
  using set_remove1_subset by fast

lemma inv_queue_admit:
  assumes inv: "ingress_inv cs" and pend: "(epoch, r) \<in> set (cs_pending cs)"
    and q: "admit_queue epoch (rc_request_generation r) r (cs_ingress cs) = (Inr c, ig)"
  shows "ingress_inv (cs\<lparr>cs_ingress := ig, cs_pending := remove1 (epoch, r) (cs_pending cs)\<rparr>)"
proof -
  obtain mb where sub: "submit_command kAdmit epoch (rc_request_generation r) (rc_payload_digest r)
      (ig_mailbox (cs_ingress cs)) = (Inr c, mb)"
    and ig: "ig = (cs_ingress cs)\<lparr>ig_mailbox := mb\<rparr>"
    using q by (auto simp: admit_queue_def split: prod.splits)
  have ok: "mailbox_ok (ig_mailbox (cs_ingress cs))" using inv by (simp add: ingress_inv_def)
  note m = mailbox_ok_submit [OF ok sub]
  have "cc_kind c = kAdmit" "(cc_request_generation c, cc_payload_digest c) = receipt_key r"
    using submit_command_value [OF sub] by (simp_all add: receipt_key_def)
  then show ?thesis
    using m mset_map_remove1 [OF pend, of "receipt_key \<circ> snd"] set_map_remove1 [of snd "(epoch, r)" "cs_pending cs"]
    by (intro inv_same_keys [OF inv]) (auto simp: ig open_keys_def open_receipts_def)
qed

lemma inv_refuse_admit:
  assumes inv: "ingress_inv cs" and pend: "(epoch, r) \<in> set (cs_pending cs)"
    and q: "admit_queue epoch (rc_request_generation r) r (cs_ingress cs) = (Inl e, ig)"
  shows "ingress_inv (cs\<lparr>cs_ingress := ig, cs_pending := remove1 (epoch, r) (cs_pending cs),
    cs_refused := (e, r) # cs_refused cs\<rparr>)"
proof -
  have ig: "ig = cs_ingress cs"
    using q by (auto simp: admit_queue_def dest: submit_command_rejected split: prod.splits)
  have "mailbox_ok (ig_mailbox (cs_ingress cs))" using inv by (simp add: ingress_inv_def)
  then show ?thesis
    using mset_map_remove1 [OF pend, of "receipt_key \<circ> snd"] set_map_remove1 [of snd "(epoch, r)" "cs_pending cs"]
      imageI [OF pend, of snd]
    by (intro inv_same_keys [OF inv]) (auto simp: ig open_keys_def open_receipts_def)
qed

lemma rollback_receipt_valid:
  "receipt_valid a r \<Longrightarrow> rollback_published r a = (Ok, clear_slot (unat (rc_slot_index r)) a)"
  by (simp add: receipt_valid_def rollback_published_def Let_def)

lemma open_receipt_valid:
  "ingress_inv cs \<Longrightarrow> r \<in> set (open_receipts cs) \<Longrightarrow> receipt_valid (ig_requests (cs_ingress cs)) r"
  by (simp add: ingress_inv_def holds_keys_def)

lemma inv_roll_back:
  assumes inv: "ingress_inv cs" and ref: "(e, r) \<in> set (cs_refused cs)"
    and rb: "admit_rollback e r (cs_ingress cs) = (res, ig)"
  shows "ingress_inv (cs\<lparr>cs_ingress := ig, cs_refused := remove1 (e, r) (cs_refused cs)\<rparr>)"
proof -
  let ?a = "ig_requests (cs_ingress cs)" and ?i = "unat (rc_slot_index r)"
  let ?cs = "cs\<lparr>cs_ingress := ig, cs_refused := remove1 (e, r) (cs_refused cs)\<rparr>"
  have "r \<in> set (open_receipts cs)" using ref by (force simp: open_receipts_def)
  then have v: "receipt_valid ?a r" by (rule open_receipt_valid [OF inv])
  have ig: "ig = (cs_ingress cs)\<lparr>ig_requests := clear_slot ?i ?a\<rparr>"
    using rb by (simp add: admit_rollback_def rollback_receipt_valid [OF v])
  have slot: "?i < length (ra_slots ?a)" "rs_state (ra_slots ?a ! ?i) = kPublished"
    "rs_request_generation (ra_slots ?a ! ?i) = fst (receipt_key r)"
    using v by (simp_all add: receipt_valid_def receipt_key_def Let_def)
  have keys: "mset (open_keys cs) = add_mset (receipt_key r) (mset (open_keys ?cs))"
    using mset_map_remove1 [OF ref, of "receipt_key \<circ> snd"] by (simp add: open_keys_def open_receipts_def ig)
  have "arena_ok (clear_slot ?i ?a)"
    using inv slot(1) by (intro arena_ok_clear_slot) (simp_all add: ingress_inv_def)
  then show ?thesis
    using set_map_remove1 [of snd "(e, r)" "cs_refused cs"]
    by (intro inv_drop_key [OF inv keys, where i = ?i]) (auto simp: ig clear_slot_eq open_receipts_def
        default_request_slot_def slot)
qed

lemma inv_mailbox_call:
  assumes inv: "ingress_inv cs"
    and step: "mailbox_step opn (ig_mailbox (cs_ingress cs)) = (r, mb)"
    and keys: "admit_keys (accepted_command r) = []" "taken_command r = []"
  shows "ingress_inv (cs\<lparr>cs_ingress := (cs_ingress cs)\<lparr>ig_mailbox := mb\<rparr>\<rparr>)"
proof -
  have ok: "mailbox_ok (ig_mailbox (cs_ingress cs))" using inv by (simp add: ingress_inv_def)
  note fifo = mailbox_step_fifo(1,2) [OF ok step]
  have "admit_keys (ring_contents (mb_commands mb)) =
      admit_keys (ring_contents (mb_commands (ig_mailbox (cs_ingress cs))))"
    using arg_cong [OF fifo(2), of admit_keys] keys by simp
  with fifo(1) show ?thesis
    by (intro inv_same_keys [OF inv]) (simp_all add: open_keys_def open_receipts_def)
qed

lemma inv_cancel:
  assumes "ingress_inv cs" and "submit_cancel epoch g (cs_ingress cs) = (res, ig)"
  shows "ingress_inv (cs\<lparr>cs_ingress := ig\<rparr>)"
proof (cases "controller_cancel_payload_digest epoch g")
  case (Inl e)
  with assms show ?thesis by (auto simp: submit_cancel_def)
next
  case (Inr d)
  obtain c mb where sub: "submit_command kCancel epoch g d (ig_mailbox (cs_ingress cs)) = (c, mb)"
    by fastforce
  have "mailbox_step (SubmitCommand kCancel epoch g d) (ig_mailbox (cs_ingress cs)) = (SubmitReply c, mb)"
    using sub by simp
  moreover have "admit_keys (accepted_command (SubmitReply c)) = []"
    using sub by (cases c) (auto dest: submit_command_value)
  ultimately have "ingress_inv (cs\<lparr>cs_ingress := (cs_ingress cs)\<lparr>ig_mailbox := mb\<rparr>\<rparr>)"
    by (rule inv_mailbox_call [OF assms(1)]) simp
  then show ?thesis using assms(2) Inr sub by (auto simp: submit_cancel_def)
qed

lemma mailbox_take_contents:
  assumes "mailbox_ok mb" and "try_take_command t mb = (Inr (Some c), mb')"
  shows "mailbox_ok mb'" and "ring_contents (mb_commands mb) = c # ring_contents (mb_commands mb')"
  using mailbox_step_fifo(1,2) [OF assms(1), of "TakeCommand t" "TakeCommandReply (Inr (Some c))" mb']
    assms(2) by simp_all

lemma inv_begin_take:
  assumes inv: "ingress_inv cs" and "cs_taken cs = None"
    and "try_take_command t (ig_mailbox (cs_ingress cs)) = (Inr (Some c), mailbox)"
  shows "ingress_inv (cs\<lparr>cs_ingress := (cs_ingress cs)\<lparr>ig_mailbox := mailbox\<rparr>, cs_taken := Some c\<rparr>)"
proof -
  have ok: "mailbox_ok (ig_mailbox (cs_ingress cs))" using inv by (simp add: ingress_inv_def)
  from mailbox_take_contents [OF ok assms(3)] assms(2) show ?thesis
    by (intro inv_same_keys [OF inv]) (simp_all add: open_keys_def open_receipts_def)
qed

lemma inv_take_nothing:
  assumes "ingress_inv cs" and "try_take_command t (ig_mailbox (cs_ingress cs)) = (res, mailbox)"
    and "res = Inr None \<or> res = Inl e"
  shows "ingress_inv (cs\<lparr>cs_ingress := (cs_ingress cs)\<lparr>ig_mailbox := mailbox\<rparr>\<rparr>)"
  using inv_mailbox_call [OF assms(1), of "TakeCommand t" "TakeCommandReply res" mailbox] assms(2,3) by auto

lemma taken_is_published:
  assumes "ingress_inv cs" and "cs_taken cs = Some c" and "cc_kind c = kAdmit"
  shows "published_as (ig_requests (cs_ingress cs)) (cc_request_generation c, cc_payload_digest c)"
  using assms by (simp add: ingress_inv_def holds_keys_def open_keys_def)

lemma inv_finish_take:
  assumes inv: "ingress_inv cs" and taken: "cs_taken cs = Some c"
    and "take_claim c (cs_ingress cs) = (res, ig)"
  shows "ingress_inv (cs\<lparr>cs_ingress := ig, cs_taken := None\<rparr>)"
proof (cases "cc_kind c = kAdmit")
  case False
  with assms show ?thesis
    by (intro inv_same_keys [OF inv])
      (auto simp: take_claim_def open_keys_def open_receipts_def ingress_inv_def)
next
  case True
  let ?a = "ig_requests (cs_ingress cs)" and ?key = "(cc_request_generation c, cc_payload_digest c)"
  have ok: "arena_ok ?a" using inv by (simp add: ingress_inv_def)
  obtain i v where cl: "claim (fst ?key) (snd ?key) ?a =
      (Inr v, store_slot i [] ((ra_slots ?a ! i)\<lparr>rs_state := kClaimed\<rparr>) ?a)"
    and i: "i < length (ra_slots ?a)" "rs_state (ra_slots ?a ! i) = kPublished"
      "rs_request_generation (ra_slots ?a ! i) = fst ?key"
    by (rule claim_of_key [OF ok taken_is_published [OF inv taken True]]) simp
  have ig: "ig = (cs_ingress cs)\<lparr>ig_requests := store_slot i [] ((ra_slots ?a ! i)\<lparr>rs_state := kClaimed\<rparr>) ?a\<rparr>"
    using assms(3) True cl by (simp add: take_claim_def)
  have keys: "mset (open_keys cs) = add_mset ?key (mset (open_keys (cs\<lparr>cs_ingress := ig, cs_taken := None\<rparr>)))"
    using taken True by (simp add: open_keys_def open_receipts_def ig)
  show ?thesis
    using arena_ok_claim [OF ok cl] i
    by (intro inv_drop_key [OF inv keys, of i "[]" "(ra_slots ?a ! i)\<lparr>rs_state := kClaimed\<rparr>"])
      (simp_all add: ig open_receipts_def)
qed

lemma inv_release:
  assumes inv: "ingress_inv cs" and "release_request v (cs_ingress cs) = (st, ig)"
  shows "ingress_inv (cs\<lparr>cs_ingress := ig\<rparr>)"
proof -
  let ?a = "ig_requests (cs_ingress cs)"
  obtain a where rel: "release_claimed (rv_slot_index v) (rv_slot_generation v) ?a = (st, a)"
    and ig: "ig = (cs_ingress cs)\<lparr>ig_requests := a\<rparr>"
    using assms(2) by (auto simp: release_request_def split: prod.splits)
  have ok: "arena_ok ?a" and h: "holds_keys ?a (set (open_keys cs)) (set (open_receipts cs))"
    and o: "only_keys ?a (set (open_keys cs))"
    using inv by (simp_all add: ingress_inv_def)
  from rel show ?thesis
  proof (cases rule: release_claimed_cases)
    case rejected
    with inv ig show ?thesis by simp
  next
    case cleared
    have "holds_keys a (set (open_keys cs)) (set (open_receipts cs))"
      unfolding cleared(5) by (rule holds_keys_clear [OF ok h cleared(2)]) (simp_all add: cleared(3))
    moreover have "only_keys a (set (open_keys cs))"
      unfolding cleared(5) clear_slot_eq
      by (rule only_keys_claimed [OF o]) (simp add: default_request_slot_def)
    ultimately show ?thesis
      using inv arena_ok_release [OF ok rel] by (simp add: ingress_inv_def ig open_keys_def open_receipts_def)
  qed
qed

lemma inv_events:
  assumes "ingress_inv cs"
    and "ingress_publish_event t draft (cs_ingress cs) = (res, ig) \<or>
      ingress_try_take_event (cs_ingress cs) = (res', ig)"
  shows "ingress_inv (cs\<lparr>cs_ingress := ig\<rparr>)"
  using assms(2)
proof
  assume "ingress_publish_event t draft (cs_ingress cs) = (res, ig)"
  then obtain mb where "publish_event t draft (ig_mailbox (cs_ingress cs)) = (res, mb)"
    and "ig = (cs_ingress cs)\<lparr>ig_mailbox := mb\<rparr>"
    by (auto simp: ingress_publish_event_def split: prod.splits)
  then show ?thesis
    using inv_mailbox_call [OF assms(1), of "PublishEvent t draft" "PublishReply res" mb] by simp
next
  assume "ingress_try_take_event (cs_ingress cs) = (res', ig)"
  then obtain mb where "try_take_event (ig_mailbox (cs_ingress cs)) = (res', mb)"
    and "ig = (cs_ingress cs)\<lparr>ig_mailbox := mb\<rparr>"
    by (auto simp: ingress_try_take_event_def split: prod.splits)
  then show ?thesis
    using inv_mailbox_call [OF assms(1), of TakeEvent "TakeEventReply res'" mb] by simp
qed

lemma ingress_inv_step: "ingress_step cs cs' \<Longrightarrow> ingress_inv cs \<Longrightarrow> ingress_inv cs'"
  by (induction rule: ingress_step.induct)
    (blast intro: inv_begin_admit inv_queue_admit inv_refuse_admit inv_roll_back inv_cancel
      inv_begin_take inv_take_nothing inv_finish_take inv_release inv_events)+

lemma only_keys_new:
  assumes "request_arena_Create allocates limits = Inr a"
  shows "only_keys a keys"
  using assms by (auto simp: only_keys_def request_arena_Create_def request_arena_new_def
      default_request_slot_def split: if_splits sum.splits)

lemma ingress_inv_init: "ingress_init cs \<Longrightarrow> ingress_inv cs"
proof -
  assume "ingress_init cs"
  then obtain allocates limits where c: "ingress_Create allocates limits = Inr (cs_ingress cs)"
    and cap: "ml_command_capacity (il_mailbox limits) \<le> 2 ^ 31"
      "ml_event_capacity (il_mailbox limits) \<le> 2 ^ 31"
    and empty: "cs_pending cs = []" "cs_refused cs = []" "cs_taken cs = None"
    by (auto simp: ingress_init_def)
  have m: "mailbox_Create (il_mailbox limits) = Inr (ig_mailbox (cs_ingress cs))"
    and r: "request_arena_Create allocates (il_requests limits) = Inr (ig_requests (cs_ingress cs))"
    using c by (cases "cs_ingress cs", auto simp: ingress_Create_def split: sum.splits)+
  from mailbox_ok_Create [OF m cap] arena_ok_new [OF r] empty show ?thesis
    by (simp add: ingress_inv_def open_keys_def open_receipts_def holds_keys_def only_keys_new [OF r])
qed

interpretation ingress: inductive_invariant ingress_init ingress_step ingress_inv
  by unfold_locales (auto intro: ingress_inv_init ingress_inv_step)

text \<open>
  C12. No admission is orphaned, however the locked calls of the producers and of the controller
  interleave. The published payloads are exactly, and each once, those of the admissions under way:
  the admit command the controller has taken and not yet claimed, the queued admit commands, the
  admissions that have published and not yet submitted, and those that were refused and have not yet
  rolled back. So when the controller claims the payload of a command it has taken, it succeeds and
  gets the payload of that generation and digest, and when a refused admission rolls back, the
  rollback succeeds and reports the refusal: the two internal errors are unreachable.
\<close>

theorem admissions_never_orphaned:
  assumes "reachable ingress_init ingress_step cs"
  shows "mset (published_keys (ig_requests (cs_ingress cs))) = mset (open_keys cs) \<and>
    (\<forall>c. cs_taken cs = Some c \<longrightarrow>
      (\<exists>view ig. take_claim c (cs_ingress cs) = (Inr (Some view), ig) \<and> cv_command view = c \<and>
         (cc_kind c = kAdmit \<longrightarrow>
            (\<exists>v. cv_request view = Some v \<and> rv_request_generation v = cc_request_generation c \<and>
                 rv_payload_digest v = cc_payload_digest c)))) \<and>
    (\<forall>e r. (e, r) \<in> set (cs_refused cs) \<longrightarrow> fst (admit_rollback e r (cs_ingress cs)) = Inl e)"
proof (intro conjI allI impI)
  have inv: "ingress_inv cs" using ingress.holds_when_reachable [OF assms] .
  then show "mset (published_keys (ig_requests (cs_ingress cs))) = mset (open_keys cs)"
    by (rule published_keys_open)
  have ok: "arena_ok (ig_requests (cs_ingress cs))" using inv by (simp add: ingress_inv_def)
  fix c assume c: "cs_taken cs = Some c"
  show "\<exists>view ig. take_claim c (cs_ingress cs) = (Inr (Some view), ig) \<and> cv_command view = c \<and>
         (cc_kind c = kAdmit \<longrightarrow>
            (\<exists>v. cv_request view = Some v \<and> rv_request_generation v = cc_request_generation c \<and>
                 rv_payload_digest v = cc_payload_digest c))"
  proof (cases "cc_kind c = kAdmit")
    case True
    obtain v a where cl: "claim (cc_request_generation c) (cc_payload_digest c)
        (ig_requests (cs_ingress cs)) = (Inr v, a)"
      by (rule claim_of_key [OF ok taken_is_published [OF inv c True]]) simp
    moreover from cl have "rv_request_generation v = cc_request_generation c"
      "rv_payload_digest v = cc_payload_digest c"
      by (auto elim: claim_cases)
    ultimately show ?thesis using True by (simp add: take_claim_def)
  qed (simp add: take_claim_def)
next
  fix e r assume "(e, r) \<in> set (cs_refused cs)"
  then have "r \<in> set (open_receipts cs)" by (force simp: open_receipts_def)
  with ingress.holds_when_reachable [OF assms]
  have "receipt_valid (ig_requests (cs_ingress cs)) r" by (rule open_receipt_valid)
  then show "fst (admit_rollback e r (cs_ingress cs)) = Inl e"
    by (simp add: admit_rollback_def rollback_receipt_valid)
qed

definition example_ingress_limits :: ControllerIngressLimits where
  "example_ingress_limits =
     \<lparr>il_mailbox = example_mailbox_limits, il_requests = example_request_limits\<rparr>"

definition example_ingress :: ControllerIngress where
  "example_ingress = \<lparr>ig_mailbox = mailbox_new example_mailbox_limits, ig_requests = example_arena\<rparr>"

lemma example_ingress_init:
  "ingress_init \<lparr>cs_ingress = example_ingress, cs_pending = [], cs_refused = [], cs_taken = None\<rparr>"
proof -
  have "ingress_Create True example_ingress_limits = Inr example_ingress"
    by (simp add: ingress_Create_def mailbox_Create_def request_arena_Create_def checked_mul_u64_def
        max_size_u32_def example_ingress_limits_def example_ingress_def example_arena_def
        example_mailbox_limits_def example_request_limits_def)
  moreover have "ml_command_capacity (il_mailbox example_ingress_limits) \<le> 2 ^ 31"
    "ml_event_capacity (il_mailbox example_ingress_limits) \<le> 2 ^ 31"
    by (simp_all add: example_ingress_limits_def example_mailbox_limits_def)
  ultimately show ?thesis unfolding ingress_init_def by auto
qed

theorem admissions_never_orphaned_witness:
  "\<exists>cs r. reachable ingress_init ingress_step cs \<and> cs_pending cs = [(7, r)] \<and>
     mset (published_keys (ig_requests (cs_ingress cs))) = {#receipt_key r#}"
proof -
  let ?cs = "\<lparr>cs_ingress = example_ingress, cs_pending = [], cs_refused = [], cs_taken = None\<rparr>"
  obtain r a where p: "publish 1 [5, 6] 3 default_sampling example_arena = (Inr r, a)"
    using example_publish by blast
  define cs where "cs = ?cs\<lparr>cs_ingress := example_ingress\<lparr>ig_requests := a\<rparr>, cs_pending := [(7, r)]\<rparr>"
  have "ingress_step ?cs cs"
    using begin_admit [of 7 1 "[5, 6]" 3 default_sampling ?cs r a] p
    by (simp add: cs_def example_ingress_def)
  then have reach: "reachable ingress_init ingress_step cs"
    using example_ingress_init by (blast intro: reachable_init reachable_step)
  have "ring_contents (mb_commands (mailbox_new example_mailbox_limits)) = []" by code_simp
  then have "mset (open_keys cs) = {#receipt_key r#}"
    by (simp add: open_keys_def open_receipts_def cs_def example_ingress_def)
  with reach admissions_never_orphaned [OF reach] show ?thesis
    by (intro exI [of _ cs] exI [of _ r]) (simp add: cs_def)
qed

end
