(* ===== verification/PackedPlan.thy ===== *)
theory PackedPlan
  imports Wire
begin

text \<open>
  \<open>packed_token_plan.h\<close> and \<open>packed_token_plan.cpp\<close>: the immutable description of one batch. A plan
  lists its sequences with their token counts and carries the prefix sums of the counts as packed
  offsets. \<open>Create\<close> is the only way to build one; its loop over the sequences is \<open>pack_sequences\<close>.

  The lemmas give the exact acceptance condition of \<open>Create\<close> together with the plan it builds, and
  show that the input of the semantic digest determines the plan.
\<close>

section \<open>Messages\<close>

definition msg_packed_token_sequence_is_invalid :: string where
  "msg_packed_token_sequence_is_invalid = ''packed token sequence is invalid''"

definition msg_packed_real_token_prefix_exceeds_its_bound :: string where
  "msg_packed_real_token_prefix_exceeds_its_bound = ''packed real token prefix exceeds its bound''"

definition msg_packed_token_plan_identity_is_invalid :: string where
  "msg_packed_token_plan_identity_is_invalid = ''packed token plan identity is invalid''"

definition msg_execution_bucket_is_smaller_than_real_tokens :: string where
  "msg_execution_bucket_is_smaller_than_real_tokens = ''execution bucket is smaller than real tokens''"

section \<open>Data\<close>

datatype PackedTokenPhase = kPrefill | kDecode | kVerify | PackedTokenPhase_other u8

record PackedSequenceInput =
  si_sequence_generation :: u64
  si_committed_start_position :: u64
  si_real_token_count :: u32
  si_state_generation :: u64
  si_input_digest :: Sha256Digest

record PackedTokenPlanLimits =
  pl_maximum_sequences :: u32
  pl_maximum_real_tokens :: u32
  pl_maximum_execution_bucket_tokens :: u32

record PackedTokenPlan =
  pp_epoch :: u64
  pp_plan_sequence :: u64
  pp_phase :: PackedTokenPhase
  pp_profile_revision :: string
  pp_resource_vector_hash :: Sha256Digest
  pp_sequence_generations :: "u64 list"
  pp_committed_start_positions :: "u64 list"
  pp_real_token_counts :: "u32 list"
  pp_packed_offsets :: "u32 list"
  pp_state_generations :: "u64 list"
  pp_input_digests :: "Sha256Digest list"
  pp_total_real_tokens :: u32
  pp_execution_bucket_tokens :: u32

definition sequence_count :: "PackedTokenPlan \<Rightarrow> nat" where
  "sequence_count plan = length (pp_sequence_generations plan)"

definition kAbi :: string where
  "kAbi = ''homogeneous_phase_real_tokens_v1''"

section \<open>Creation\<close>

definition valid_phase :: "PackedTokenPhase \<Rightarrow> bool" where
  "valid_phase phase \<longleftrightarrow> phase = kPrefill \<or> phase = kDecode \<or> phase = kVerify"

definition sequence_invalid :: "PackedTokenPhase \<Rightarrow> u64 list \<Rightarrow> PackedSequenceInput \<Rightarrow> bool" where
  "sequence_invalid phase seen sequence \<longleftrightarrow>
     si_sequence_generation sequence = 0 \<or> si_state_generation sequence = 0 \<or>
     \<not> nonzero (si_input_digest sequence) \<or> si_real_token_count sequence = 0 \<or>
     si_sequence_generation sequence \<in> set seen \<or>
     (phase = kDecode \<and> si_real_token_count sequence \<noteq> 1) \<or>
     (phase = kVerify \<and> si_real_token_count sequence > 5)"

text \<open>The loop: the generations seen so far, the running total, and the offsets pushed so far.\<close>

fun pack_sequences ::
  "PackedTokenPhase \<Rightarrow> PackedTokenPlanLimits \<Rightarrow> PackedSequenceInput list \<Rightarrow>
     u64 list \<Rightarrow> u64 \<Rightarrow> u32 list \<Rightarrow> (u64 \<times> u32 list) result" where
  "pack_sequences phase limits [] seen running offsets = Inr (running, offsets)"
| "pack_sequences phase limits (sequence # sequences) seen running offsets =
     (if sequence_invalid phase seen sequence
      then Inl (InvalidArgument msg_packed_token_sequence_is_invalid)
      else case checked_add_u64 running (ucast (si_real_token_count sequence)) of
        Inl _ \<Rightarrow> Inl (ResourceExhausted msg_packed_real_token_prefix_exceeds_its_bound)
      | Inr next \<Rightarrow>
          if next > ucast (pl_maximum_real_tokens limits) \<or> next > ucast UINT32_MAX
          then Inl (ResourceExhausted msg_packed_real_token_prefix_exceeds_its_bound)
          else pack_sequences phase limits sequences (si_sequence_generation sequence # seen) next
                 (offsets @ [ucast next]))"

definition plan_identity_invalid ::
  "u64 \<Rightarrow> u64 \<Rightarrow> PackedTokenPhase \<Rightarrow> string \<Rightarrow> Sha256Digest \<Rightarrow> PackedSequenceInput list \<Rightarrow> u32 \<Rightarrow>
     PackedTokenPlanLimits \<Rightarrow> bool" where
  "plan_identity_invalid epoch plan_sequence phase profile_revision resource_vector_hash sequences
     execution_bucket_tokens limits \<longleftrightarrow>
     epoch = 0 \<or> plan_sequence = 0 \<or> \<not> valid_phase phase \<or> profile_revision = [] \<or>
     length profile_revision > 128 \<or> \<not> nonzero resource_vector_hash \<or> sequences = [] \<or>
     pl_maximum_sequences limits = 0 \<or> pl_maximum_real_tokens limits = 0 \<or>
     pl_maximum_execution_bucket_tokens limits = 0 \<or>
     length sequences > unat (pl_maximum_sequences limits) \<or>
     execution_bucket_tokens = 0 \<or>
     execution_bucket_tokens > pl_maximum_execution_bucket_tokens limits"

definition plan_Create ::
  "u64 \<Rightarrow> u64 \<Rightarrow> PackedTokenPhase \<Rightarrow> string \<Rightarrow> Sha256Digest \<Rightarrow> PackedSequenceInput list \<Rightarrow> u32 \<Rightarrow>
     PackedTokenPlanLimits \<Rightarrow> PackedTokenPlan result" where
  "plan_Create epoch plan_sequence phase profile_revision resource_vector_hash sequences
     execution_bucket_tokens limits =
     (if plan_identity_invalid epoch plan_sequence phase profile_revision resource_vector_hash
           sequences execution_bucket_tokens limits
      then Inl (InvalidArgument msg_packed_token_plan_identity_is_invalid)
      else case pack_sequences phase limits sequences [] 0 [0] of
        Inl e \<Rightarrow> Inl e
      | Inr (running, offsets) \<Rightarrow>
          if ucast execution_bucket_tokens < running
          then Inl (InvalidArgument msg_execution_bucket_is_smaller_than_real_tokens)
          else Inr
            \<lparr>pp_epoch = epoch, pp_plan_sequence = plan_sequence, pp_phase = phase,
             pp_profile_revision = profile_revision,
             pp_resource_vector_hash = resource_vector_hash,
             pp_sequence_generations = map si_sequence_generation sequences,
             pp_committed_start_positions = map si_committed_start_position sequences,
             pp_real_token_counts = map si_real_token_count sequences,
             pp_packed_offsets = offsets,
             pp_state_generations = map si_state_generation sequences,
             pp_input_digests = map si_input_digest sequences,
             pp_total_real_tokens = ucast running,
             pp_execution_bucket_tokens = execution_bucket_tokens\<rparr>)"

section \<open>The semantic digest\<close>

fun phase_byte :: "PackedTokenPhase \<Rightarrow> u8" where
  "phase_byte kPrefill = 1"
| "phase_byte kDecode = 2"
| "phase_byte kVerify = 3"
| "phase_byte (PackedTokenPhase_other v) = v"

definition plan_digest_chunks :: "PackedTokenPlan \<Rightarrow> u8 list list" where
  "plan_digest_chunks plan =
     update_bytes_chunks kAbi @
     map le_bytes_u64
       [pp_epoch plan, pp_plan_sequence plan, ucast (phase_byte (pp_phase plan)),
        ucast (pp_total_real_tokens plan), ucast (pp_execution_bucket_tokens plan),
        of_nat (sequence_count plan)] @
     update_bytes_chunks (pp_profile_revision plan) @
     [dg_bytes (pp_resource_vector_hash plan)] @
     concat (map (\<lambda>index.
       [le_bytes_u64 (pp_sequence_generations plan ! index),
        le_bytes_u64 (pp_committed_start_positions plan ! index),
        le_bytes_u64 (ucast (pp_real_token_counts plan ! index)),
        le_bytes_u64 (ucast (pp_packed_offsets plan ! index)),
        le_bytes_u64 (pp_state_generations plan ! index),
        dg_bytes (pp_input_digests plan ! index)]) [0..<sequence_count plan]) @
     [le_bytes_u64 (ucast (last (pp_packed_offsets plan)))]"

definition semantic_digest :: "PackedTokenPlan \<Rightarrow> Sha256Digest result" where
  "semantic_digest plan = digest_chunks (plan_digest_chunks plan)"

section \<open>What \<open>Create\<close> accepts and builds\<close>

definition token_sum :: "PackedSequenceInput list \<Rightarrow> nat" where
  "token_sum sequences = sum_list (map (unat \<circ> si_real_token_count) sequences)"

definition sequence_acceptable :: "PackedTokenPhase \<Rightarrow> PackedSequenceInput \<Rightarrow> bool" where
  "sequence_acceptable phase s \<longleftrightarrow>
     si_sequence_generation s \<noteq> 0 \<and> si_state_generation s \<noteq> 0 \<and> nonzero (si_input_digest s) \<and>
     si_real_token_count s \<noteq> 0 \<and> (phase = kDecode \<longrightarrow> si_real_token_count s = 1) \<and>
     (phase = kVerify \<longrightarrow> si_real_token_count s \<le> 5)"

text \<open>The prefix sums of the token counts, one more than there are sequences.\<close>

definition prefix_offsets :: "nat \<Rightarrow> PackedSequenceInput list \<Rightarrow> nat list" where
  "prefix_offsets start sequences = map (\<lambda>k. start + token_sum (take k sequences)) [0..<Suc (length sequences)]"

lemma token_sum_simps [simp]:
  "token_sum [] = 0" "token_sum (s # ss) = unat (si_real_token_count s) + token_sum ss"
  by (simp_all add: token_sum_def)

lemma prefix_offsets_Nil [simp]: "prefix_offsets n [] = [n]"
  by (simp add: prefix_offsets_def)

lemma prefix_offsets_Cons [simp]:
  "prefix_offsets n (s # ss) = n # prefix_offsets (n + unat (si_real_token_count s)) ss"
  by (simp add: prefix_offsets_def upt_conv_Cons map_Suc_upt [symmetric] add.assoc
      del: upt_Suc map_map) (simp add: comp_def)

lemma ucast_of_nat: "(ucast (of_nat n :: u64) :: u32) = of_nat n"
  by (simp add: word_unat_eq_iff unsigned_ucast_eq unat_of_nat take_bit_eq_mod mod_mod_cancel)

lemma tl_prefix_offsets_Cons:
  "tl (prefix_offsets n (s # ss)) =
     (n + unat (si_real_token_count s)) # tl (prefix_offsets (n + unat (si_real_token_count s)) ss)"
  by (cases ss) simp_all

lemma sequence_invalid_iff:
  "sequence_invalid phase seen s \<longleftrightarrow> \<not> sequence_acceptable phase s \<or> si_sequence_generation s \<in> set seen"
  by (auto simp: sequence_invalid_def sequence_acceptable_def not_le)

text \<open>One addition of the loop, at a total that fits the token limit.\<close>

lemma running_total_step:
  fixes limit count :: u32
  assumes "t \<le> unat limit"
  shows "checked_add_u64 (of_nat t) (ucast count) = Inr (of_nat (t + unat count))"
    and "(of_nat (t + unat count) :: u64) > ucast limit \<or> (of_nat (t + unat count) :: u64) > ucast UINT32_MAX \<longleftrightarrow>
      \<not> t + unat count \<le> unat limit"
proof -
  have lim: "unat limit < 2 ^ 32" "unat count < 2 ^ 32" by (rule unat_lt_u32)+
  have t: "unat (of_nat t :: u64) = t" "unat (of_nat (t + unat count) :: u64) = t + unat count"
    using assms lim by (simp_all add: unat_of_nat del: of_nat_add)
  show "checked_add_u64 (of_nat t) (ucast count) = Inr (of_nat (t + unat count))"
    using t assms lim by (simp add: checked_add_u64_Inr_iff del: of_nat_add)
  show "(of_nat (t + unat count) :: u64) > ucast limit \<or> (of_nat (t + unat count) :: u64) > ucast UINT32_MAX \<longleftrightarrow>
      \<not> t + unat count \<le> unat limit"
    using t lim by (auto simp: word_less_nat_alt unat_max_u32 simp del: of_nat_add)
qed

lemma pack_sequences_Inr_iff:
  assumes "t \<le> unat (pl_maximum_real_tokens limits)"
  shows "pack_sequences phase limits ss seen (of_nat t) offs = Inr (r, os) \<longleftrightarrow>
    (\<forall>s\<in>set ss. sequence_acceptable phase s) \<and> distinct (map si_sequence_generation ss) \<and>
    si_sequence_generation ` set ss \<inter> set seen = {} \<and>
    t + token_sum ss \<le> unat (pl_maximum_real_tokens limits) \<and>
    r = of_nat (t + token_sum ss) \<and> os = offs @ map of_nat (tl (prefix_offsets t ss))"
  using assms
proof (induction ss arbitrary: t seen offs)
  case Nil
  then show ?case by auto
next
  case (Cons s ss)
  let ?n = "unat (si_real_token_count s)"
  note step = running_total_step [OF Cons.prems, of "si_real_token_count s"]
  show ?case
  proof (cases "sequence_invalid phase seen s \<or> \<not> t + ?n \<le> unat (pl_maximum_real_tokens limits)")
    case True
    then show ?thesis
      using step by (auto simp: sequence_invalid_iff simp del: of_nat_add)
  next
    case False
    then have fits: "t + ?n \<le> unat (pl_maximum_real_tokens limits)" by simp
    have off: "(ucast (of_nat (t + ?n) :: u64) :: u32) = of_nat (t + ?n)"
      by (simp add: ucast_of_nat del: of_nat_add)
    have "pack_sequences phase limits (s # ss) seen (of_nat t) offs =
        pack_sequences phase limits ss (si_sequence_generation s # seen) (of_nat (t + ?n))
          (offs @ [of_nat (t + ?n)])"
      using False step off by (simp del: of_nat_add)
    then show ?thesis
      using False Cons.IH [OF fits, of "si_sequence_generation s # seen" "offs @ [of_nat (t + ?n)]"]
      by (auto simp: sequence_invalid_iff tl_prefix_offsets_Cons add.assoc
          simp del: of_nat_add prefix_offsets_Cons)
  qed
qed

definition built_plan ::
  "u64 \<Rightarrow> u64 \<Rightarrow> PackedTokenPhase \<Rightarrow> string \<Rightarrow> Sha256Digest \<Rightarrow> PackedSequenceInput list \<Rightarrow> u32 \<Rightarrow>
     PackedTokenPlan" where
  "built_plan epoch plan_sequence phase profile hash sequences bucket =
     \<lparr>pp_epoch = epoch, pp_plan_sequence = plan_sequence, pp_phase = phase,
      pp_profile_revision = profile, pp_resource_vector_hash = hash,
      pp_sequence_generations = map si_sequence_generation sequences,
      pp_committed_start_positions = map si_committed_start_position sequences,
      pp_real_token_counts = map si_real_token_count sequences,
      pp_packed_offsets = map of_nat (prefix_offsets 0 sequences),
      pp_state_generations = map si_state_generation sequences,
      pp_input_digests = map si_input_digest sequences,
      pp_total_real_tokens = of_nat (token_sum sequences),
      pp_execution_bucket_tokens = bucket\<rparr>"

lemma hd_prefix_offsets: "prefix_offsets n ss = n # tl (prefix_offsets n ss)"
  by (cases ss) simp_all

lemma plan_Create_Inr_iff:
  "plan_Create epoch plan_sequence phase profile hash sequences bucket limits = Inr plan \<longleftrightarrow>
     \<not> plan_identity_invalid epoch plan_sequence phase profile hash sequences bucket limits \<and>
     (\<forall>s\<in>set sequences. sequence_acceptable phase s) \<and>
     distinct (map si_sequence_generation sequences) \<and>
     token_sum sequences \<le> unat (pl_maximum_real_tokens limits) \<and>
     token_sum sequences \<le> unat bucket \<and>
     plan = built_plan epoch plan_sequence phase profile hash sequences bucket"
proof -
  have iff: "pack_sequences phase limits sequences [] 0 [0] = Inr (r, os) \<longleftrightarrow>
    (\<forall>s\<in>set sequences. sequence_acceptable phase s) \<and> distinct (map si_sequence_generation sequences) \<and>
    token_sum sequences \<le> unat (pl_maximum_real_tokens limits) \<and>
    r = of_nat (token_sum sequences) \<and> os = map of_nat (prefix_offsets 0 sequences)" for r os
    using pack_sequences_Inr_iff [of 0 limits phase sequences "[]" "[0]" r os]
    by (subst hd_prefix_offsets) simp
  have fits: "ucast bucket < (of_nat (token_sum sequences) :: u64) \<longleftrightarrow> \<not> token_sum sequences \<le> unat bucket"
    if "token_sum sequences \<le> unat (pl_maximum_real_tokens limits)"
    using that unat_lt_u32 [of "pl_maximum_real_tokens limits"]
    by (simp add: word_less_nat_alt unat_of_nat not_le)
  have total: "(ucast (of_nat (token_sum sequences) :: u64) :: u32) = of_nat (token_sum sequences)"
    by (simp add: ucast_of_nat)
  show ?thesis
  proof (cases "pack_sequences phase limits sequences [] 0 [0]")
    case (Inl e)
    with iff show ?thesis by (auto simp: plan_Create_def)
  next
    case (Inr p)
    then obtain r os where p: "pack_sequences phase limits sequences [] 0 [0] = Inr (r, os)"
      by (cases p) simp
    then have acc: "\<forall>s\<in>set sequences. sequence_acceptable phase s"
      "distinct (map si_sequence_generation sequences)"
      "token_sum sequences \<le> unat (pl_maximum_real_tokens limits)"
      and r: "r = of_nat (token_sum sequences)" and os: "os = map of_nat (prefix_offsets 0 sequences)"
      using iff by blast+
    show ?thesis
      unfolding plan_Create_def p sum.case prod.case r os total fits [OF acc(3)]
      using acc by (auto simp: built_plan_def)
  qed
qed

section \<open>Well-formed plans\<close>

definition count_sum :: "PackedTokenPlan \<Rightarrow> nat \<Rightarrow> nat" where
  "count_sum plan k = sum_list (map unat (take k (pp_real_token_counts plan)))"

definition plan_ok :: "PackedTokenPlan \<Rightarrow> bool" where
  "plan_ok plan \<longleftrightarrow>
     (let n = sequence_count plan in
      n > 0 \<and> length (pp_committed_start_positions plan) = n \<and>
      length (pp_real_token_counts plan) = n \<and> length (pp_packed_offsets plan) = Suc n \<and>
      length (pp_state_generations plan) = n \<and> length (pp_input_digests plan) = n \<and>
      valid_phase (pp_phase plan) \<and> distinct (pp_sequence_generations plan) \<and>
      (\<forall>c\<in>set (pp_real_token_counts plan). c \<noteq> 0) \<and>
      (\<forall>k\<le>n. unat (pp_packed_offsets plan ! k) = count_sum plan k) \<and>
      unat (pp_total_real_tokens plan) = count_sum plan n \<and>
      pp_total_real_tokens plan \<le> pp_execution_bucket_tokens plan)"

lemma token_sum_take_le: "token_sum (take k ss) \<le> token_sum ss"
proof -
  have "token_sum ss = token_sum (take k ss @ drop k ss)" by simp
  also have "\<dots> = token_sum (take k ss) + token_sum (drop k ss)"
    by (simp add: token_sum_def del: append_take_drop_id)
  finally show ?thesis by simp
qed

lemma nth_prefix_offsets:
  "k \<le> length ss \<Longrightarrow> prefix_offsets n ss ! k = n + token_sum (take k ss)"
  by (simp add: prefix_offsets_def del: upt_Suc)

lemma length_prefix_offsets [simp]: "length (prefix_offsets n ss) = Suc (length ss)"
  by (simp add: prefix_offsets_def)

lemma plan_ok_Create:
  assumes "plan_Create epoch plan_sequence phase profile hash sequences bucket limits = Inr plan"
  shows "plan_ok plan" and "sequence_count plan = length sequences"
    and "\<And>k. k \<le> length sequences \<Longrightarrow> unat (pp_packed_offsets plan ! k) = token_sum (take k sequences)"
    and "unat (pp_total_real_tokens plan) = token_sum sequences"
proof -
  have acc: "\<not> plan_identity_invalid epoch plan_sequence phase profile hash sequences bucket limits"
    "\<forall>s\<in>set sequences. sequence_acceptable phase s" "distinct (map si_sequence_generation sequences)"
    "token_sum sequences \<le> unat bucket"
    and plan: "plan = built_plan epoch plan_sequence phase profile hash sequences bucket"
    using assms by (simp_all add: plan_Create_Inr_iff)
  have small: "unat (of_nat (token_sum (take k sequences)) :: u32) = token_sum (take k sequences)" for k
    using token_sum_take_le [of k sequences] acc(4) unat_lt_u32 [of bucket] by (simp add: unat_of_nat)
  have total_small: "unat (of_nat (token_sum sequences) :: u32) = token_sum sequences"
    using small [of "length sequences"] by simp
  have sum: "count_sum plan k = token_sum (take k sequences)" for k
    by (simp add: count_sum_def token_sum_def plan built_plan_def take_map comp_def)
  show count: "sequence_count plan = length sequences"
    by (simp add: sequence_count_def plan built_plan_def)
  show offs: "unat (pp_packed_offsets plan ! k) = token_sum (take k sequences)" if "k \<le> length sequences" for k
    using that small by (simp add: plan built_plan_def nth_prefix_offsets)
  show tot: "unat (pp_total_real_tokens plan) = token_sum sequences"
    using total_small by (simp add: plan built_plan_def)
  have "sequences \<noteq> []" "valid_phase phase" using acc(1) by (auto simp: plan_identity_invalid_def)
  moreover have "pp_total_real_tokens plan \<le> pp_execution_bucket_tokens plan"
    using acc(4) tot by (simp add: word_le_nat_alt plan built_plan_def)
  ultimately show "plan_ok plan"
    using acc(2,3) offs tot sum count
    by (auto simp: plan_ok_def Let_def plan built_plan_def sequence_acceptable_def)
qed

text \<open>
  C13. \<open>Create\<close> builds a plan exactly when its identity fields are in range, every sequence is
  acceptable for the phase, the sequence generations are distinct, and the token counts add up to at
  most the token limit and the execution bucket. The plan it builds lists the sequences' fields in
  order; its packed offsets are the prefix sums of the token counts, with no wrap-around; its total
  is the sum of all counts.
\<close>

theorem plan_Create_correct:
  "(is_ok (plan_Create epoch plan_sequence phase profile hash sequences bucket limits) \<longleftrightarrow>
      \<not> plan_identity_invalid epoch plan_sequence phase profile hash sequences bucket limits \<and>
      (\<forall>s\<in>set sequences. sequence_acceptable phase s) \<and>
      distinct (map si_sequence_generation sequences) \<and>
      token_sum sequences \<le> unat (pl_maximum_real_tokens limits) \<and>
      token_sum sequences \<le> unat bucket) \<and>
   (\<forall>plan. plan_Create epoch plan_sequence phase profile hash sequences bucket limits = Inr plan \<longrightarrow>
      pp_sequence_generations plan = map si_sequence_generation sequences \<and>
      pp_real_token_counts plan = map si_real_token_count sequences \<and>
      pp_input_digests plan = map si_input_digest sequences \<and>
      length (pp_packed_offsets plan) = Suc (length sequences) \<and>
      (\<forall>k\<le>length sequences. unat (pp_packed_offsets plan ! k) = token_sum (take k sequences)) \<and>
      unat (pp_total_real_tokens plan) = token_sum sequences)"
  (is "?A \<and> (\<forall>plan. ?P plan \<longrightarrow> ?Q plan)")
proof (intro conjI allI impI)
  show ?A by (simp add: is_ok_iff plan_Create_Inr_iff)
  fix plan assume "?P plan"
  note ok = plan_ok_Create [OF this]
  have "plan = built_plan epoch plan_sequence phase profile hash sequences bucket"
    using \<open>?P plan\<close> by (simp add: plan_Create_Inr_iff)
  then show "pp_sequence_generations plan = map si_sequence_generation sequences"
    "pp_real_token_counts plan = map si_real_token_count sequences"
    "pp_input_digests plan = map si_input_digest sequences"
    "length (pp_packed_offsets plan) = Suc (length sequences)"
    by (simp_all add: built_plan_def)
  show "unat (pp_packed_offsets plan ! k) = token_sum (take k sequences)" if "k \<le> length sequences" for k
    using ok(3) that .
  show "unat (pp_total_real_tokens plan) = token_sum sequences" using ok(4) .
qed

definition example_sequences :: "PackedSequenceInput list" where
  "example_sequences =
     [\<lparr>si_sequence_generation = 4, si_committed_start_position = 0, si_real_token_count = 3,
       si_state_generation = 1, si_input_digest = ones_digest\<rparr>,
      \<lparr>si_sequence_generation = 9, si_committed_start_position = 2, si_real_token_count = 2,
       si_state_generation = 1, si_input_digest = ones_digest\<rparr>]"

definition example_plan_limits :: PackedTokenPlanLimits where
  "example_plan_limits =
     \<lparr>pl_maximum_sequences = 4, pl_maximum_real_tokens = 16, pl_maximum_execution_bucket_tokens = 16\<rparr>"

theorem plan_Create_correct_witness:
  "\<exists>plan. plan_Create 1 1 kPrefill ''r1'' ones_digest example_sequences 8 example_plan_limits = Inr plan \<and>
     map unat (pp_packed_offsets plan) = [0, 3, 5]"
proof -
  note C = plan_Create_correct [of 1 1 kPrefill "''r1''" ones_digest example_sequences 8 example_plan_limits]
  have "is_ok (plan_Create 1 1 kPrefill ''r1'' ones_digest example_sequences 8 example_plan_limits)"
    unfolding conjunct1 [OF C]
    by (simp add: plan_identity_invalid_def valid_phase_def example_plan_limits_def
        example_sequences_def sequence_acceptable_def)
  then obtain plan where
    p: "plan_Create 1 1 kPrefill ''r1'' ones_digest example_sequences 8 example_plan_limits = Inr plan"
    by (auto simp: is_ok_iff)
  have "map unat (pp_packed_offsets plan) = map (\<lambda>k. token_sum (take k example_sequences)) [0..<3]"
    using conjunct2 [OF C] p by (intro nth_equalityI) (auto simp: example_sequences_def)
  also have "\<dots> = [0, 3, 5]" by (simp add: example_sequences_def upt_rec)
  finally have "map unat (pp_packed_offsets plan) = [0, 3, 5]" .
  then show ?thesis by (intro exI [of _ plan] conjI p)
qed

section \<open>The digest input determines the plan\<close>

text \<open>The digest bytes of one sequence, a record of fixed length.\<close>

definition sequence_bytes :: "PackedTokenPlan \<Rightarrow> nat \<Rightarrow> u8 list" where
  "sequence_bytes plan i =
     le_bytes_u64 (pp_sequence_generations plan ! i) @
     le_bytes_u64 (pp_committed_start_positions plan ! i) @
     le_bytes_u64 (ucast (pp_real_token_counts plan ! i)) @
     le_bytes_u64 (ucast (pp_packed_offsets plan ! i)) @
     le_bytes_u64 (pp_state_generations plan ! i) @ dg_bytes (pp_input_digests plan ! i)"

lemma concat_concat: "concat (concat xss) = concat (map concat xss)"
  by (induction xss) simp_all

lemma plan_digest_bytes:
  "concat (plan_digest_chunks plan) =
     concat (update_bytes_chunks kAbi) @ le_bytes_u64 (pp_epoch plan) @
     le_bytes_u64 (pp_plan_sequence plan) @ le_bytes_u64 (ucast (phase_byte (pp_phase plan))) @
     le_bytes_u64 (ucast (pp_total_real_tokens plan)) @
     le_bytes_u64 (ucast (pp_execution_bucket_tokens plan)) @
     le_bytes_u64 (of_nat (sequence_count plan)) @
     le_bytes_u64 (of_nat (length (pp_profile_revision plan))) @
     string_bytes (pp_profile_revision plan) @ dg_bytes (pp_resource_vector_hash plan) @
     concat (map (sequence_bytes plan) [0..<sequence_count plan]) @
     le_bytes_u64 (ucast (last (pp_packed_offsets plan)))"
  by (simp add: plan_digest_chunks_def update_bytes_chunks_def sequence_bytes_def [abs_def]
      concat_concat comp_def)

lemma concat_fixed_length_inj:
  assumes "\<And>x. x \<in> set xs \<Longrightarrow> length (f x) = k" and "\<And>x. x \<in> set xs \<Longrightarrow> length (g x) = k"
    and "concat (map f xs) @ us = concat (map g xs) @ vs"
  shows "(\<forall>x\<in>set xs. f x = g x) \<and> us = vs"
  using assms by (induction xs) auto

lemma ucast_u32_u64_inj: "(ucast (a :: u32) :: u64) = ucast b \<Longrightarrow> a = b"
  by (metis unat_ucast_u32_u64 unsigned_word_eqI)

lemma ucast_phase_inj:
  "valid_phase p \<Longrightarrow> valid_phase q \<Longrightarrow>
     (ucast (phase_byte p) :: u64) = ucast (phase_byte q) \<Longrightarrow> p = q"
  by (auto simp: valid_phase_def)

lemma of_nat_u64_inj: "m < 2 ^ 64 \<Longrightarrow> n < 2 ^ 64 \<Longrightarrow> (of_nat m :: u64) = of_nat n \<Longrightarrow> m = n"
  by (drule arg_cong [of _ _ unat]) (simp add: unat_of_nat)

definition digests_ok :: "PackedTokenPlan \<Rightarrow> bool" where
  "digests_ok plan \<longleftrightarrow>
     valid_digest (pp_resource_vector_hash plan) \<and> (\<forall>d\<in>set (pp_input_digests plan). valid_digest d)"

lemma valid_digest_eqI: "dg_bytes a = dg_bytes b \<Longrightarrow> a = (b :: Sha256Digest)"
  by simp

lemma plan_counts_bounded: "plan_ok plan \<Longrightarrow> sequence_count plan < 2 ^ 32"
proof -
  assume ok: "plan_ok plan"
  have sum: "length cs \<le> sum_list (map unat cs)" if "\<forall>c\<in>set cs. c \<noteq> 0" for cs :: "u32 list"
    using that
  proof (induction cs)
    case (Cons c cs)
    then have "0 < unat c" by (simp add: unat_gt_0_word)
    with Cons show ?case by simp
  qed simp
  have "sequence_count plan \<le> count_sum plan (sequence_count plan)"
    using ok sum [of "pp_real_token_counts plan"] by (simp add: plan_ok_def count_sum_def Let_def)
  also have "\<dots> = unat (pp_total_real_tokens plan)" using ok by (simp add: plan_ok_def Let_def)
  also have "\<dots> < 2 ^ 32" by (rule unat_lt_u32)
  finally show ?thesis .
qed

lemma plan_ok_lengths:
  assumes "plan_ok plan"
  shows "length (pp_sequence_generations plan) = sequence_count plan"
    and "length (pp_committed_start_positions plan) = sequence_count plan"
    and "length (pp_real_token_counts plan) = sequence_count plan"
    and "length (pp_packed_offsets plan) = Suc (sequence_count plan)"
    and "length (pp_state_generations plan) = sequence_count plan"
    and "length (pp_input_digests plan) = sequence_count plan"
  using assms by (simp_all add: plan_ok_def Let_def sequence_count_def)

lemma last_offset: "plan_ok plan \<Longrightarrow> last (pp_packed_offsets plan) = pp_packed_offsets plan ! sequence_count plan"
  by (cases "pp_packed_offsets plan = []") (simp_all add: plan_ok_def Let_def last_conv_nth)

lemma plan_eqI:
  assumes "plan_ok p" and "plan_ok q" and n: "sequence_count p = sequence_count q"
    and seq: "\<forall>i < sequence_count p. sequence_bytes p i = sequence_bytes q i"
    and "last (pp_packed_offsets p) = last (pp_packed_offsets q)"
    and "pp_epoch p = pp_epoch q" "pp_plan_sequence p = pp_plan_sequence q"
    and "pp_phase p = pp_phase q" "pp_total_real_tokens p = pp_total_real_tokens q"
    and "pp_execution_bucket_tokens p = pp_execution_bucket_tokens q"
    and "pp_profile_revision p = pp_profile_revision q"
    and "pp_resource_vector_hash p = pp_resource_vector_hash q"
  shows "p = q"
proof -
  have fields: "pp_sequence_generations p ! i = pp_sequence_generations q ! i"
    "pp_committed_start_positions p ! i = pp_committed_start_positions q ! i"
    "pp_real_token_counts p ! i = pp_real_token_counts q ! i"
    "pp_packed_offsets p ! i = pp_packed_offsets q ! i"
    "pp_state_generations p ! i = pp_state_generations q ! i"
    "pp_input_digests p ! i = pp_input_digests q ! i" if "i < sequence_count p" for i
    using spec [OF seq, of i] that
    by (auto simp: sequence_bytes_def le_bytes_append_inj intro: ucast_u32_u64_inj)
  note len = plan_ok_lengths [OF assms(1)] plan_ok_lengths [OF assms(2), folded n]
  have "pp_packed_offsets p ! i = pp_packed_offsets q ! i" if "i < Suc (sequence_count p)" for i
    using that fields(4) [of i] assms(5) last_offset [OF assms(1)] last_offset [OF assms(2)] n
    by (cases "i = sequence_count p") auto
  then have "pp_packed_offsets p = pp_packed_offsets q"
    by (intro nth_equalityI) (simp_all add: len)
  moreover have "pp_sequence_generations p = pp_sequence_generations q"
    by (intro nth_equalityI) (simp_all add: len fields)
  moreover have "pp_committed_start_positions p = pp_committed_start_positions q"
    by (intro nth_equalityI) (simp_all add: len fields)
  moreover have "pp_real_token_counts p = pp_real_token_counts q"
    by (intro nth_equalityI) (simp_all add: len fields)
  moreover have "pp_state_generations p = pp_state_generations q"
    by (intro nth_equalityI) (simp_all add: len fields)
  moreover have "pp_input_digests p = pp_input_digests q"
    by (intro nth_equalityI) (simp_all add: len fields)
  ultimately show ?thesis using assms by (intro PackedTokenPlan.equality) simp_all
qed

text \<open>
  C14. The semantic digest input is unambiguous: two well-formed plans, as \<open>Create\<close> builds them, with
  the same digest input bytes are equal in every field.
\<close>

theorem plan_digest_unambiguous:
  assumes "plan_Create e1 n1 ph1 pr1 h1 ss1 b1 l1 = Inr p" and "plan_Create e2 n2 ph2 pr2 h2 ss2 b2 l2 = Inr q"
    and "digests_ok p" and "digests_ok q"
    and "concat (plan_digest_chunks p) = concat (plan_digest_chunks q)"
  shows "p = q"
proof -
  have ok: "plan_ok p" "plan_ok q" using plan_ok_Create(1) assms(1,2) by blast+
  have prof: "length (pp_profile_revision p) \<le> 128" "length (pp_profile_revision q) \<le> 128"
    using assms(1,2) by (auto simp: plan_Create_Inr_iff plan_identity_invalid_def built_plan_def)
  note eq = assms(5) [unfolded plan_digest_bytes same_append_eq le_bytes_append_inj]
  have cnt: "sequence_count p = sequence_count q"
    using eq of_nat_u64_inj plan_counts_bounded [OF ok(1)] plan_counts_bounded [OF ok(2)] by simp
  have len: "length (pp_profile_revision p) = length (pp_profile_revision q)"
    using eq of_nat_u64_inj prof by simp
  have hl: "length (dg_bytes (pp_resource_vector_hash p)) = length (dg_bytes (pp_resource_vector_hash q))"
    using assms(3,4) by (simp add: digests_ok_def valid_digest_def)
  have tail: "pp_profile_revision p = pp_profile_revision q"
    "pp_resource_vector_hash p = pp_resource_vector_hash q"
    "concat (map (sequence_bytes p) [0..<sequence_count p]) @ le_bytes_u64 (ucast (last (pp_packed_offsets p))) =
     concat (map (sequence_bytes q) [0..<sequence_count p]) @ le_bytes_u64 (ucast (last (pp_packed_offsets q)))"
    using eq len hl cnt by (auto intro: string_bytes_inj)
  have "length (sequence_bytes r i) = 72" if "plan_ok r" "digests_ok r" "i < sequence_count r" for r i
    using that by (auto simp: sequence_bytes_def digests_ok_def valid_digest_def plan_ok_def Let_def)
  then have "(\<forall>i\<in>set [0..<sequence_count p]. sequence_bytes p i = sequence_bytes q i) \<and>
      le_bytes_u64 (ucast (last (pp_packed_offsets p))) = le_bytes_u64 (ucast (last (pp_packed_offsets q)))"
    using ok assms(3,4) cnt tail(3) by (intro concat_fixed_length_inj [where k = 72]) auto
  then have "\<forall>i < sequence_count p. sequence_bytes p i = sequence_bytes q i"
    "last (pp_packed_offsets p) = last (pp_packed_offsets q)"
    by (auto dest: le_bytes_u64_inj ucast_u32_u64_inj)
  moreover have "pp_epoch p = pp_epoch q" "pp_plan_sequence p = pp_plan_sequence q"
    "pp_total_real_tokens p = pp_total_real_tokens q"
    "pp_execution_bucket_tokens p = pp_execution_bucket_tokens q"
    using eq ucast_u32_u64_inj by blast+
  moreover have "pp_phase p = pp_phase q"
    using eq ok by (intro ucast_phase_inj) (simp_all add: plan_ok_def Let_def)
  ultimately show ?thesis using tail(1,2) by (intro plan_eqI [OF ok cnt])
qed

theorem plan_digest_unambiguous_witness:
  "\<exists>p q. plan_Create 1 1 kPrefill ''r1'' ones_digest example_sequences 8 example_plan_limits = Inr p \<and>
     plan_Create 1 2 kPrefill ''r1'' ones_digest example_sequences 8 example_plan_limits = Inr q \<and>
     concat (plan_digest_chunks p) \<noteq> concat (plan_digest_chunks q)"
proof -
  let ?p = "built_plan 1 1 kPrefill ''r1'' ones_digest example_sequences 8"
  let ?q = "built_plan 1 2 kPrefill ''r1'' ones_digest example_sequences 8"
  have p: "plan_Create 1 1 kPrefill ''r1'' ones_digest example_sequences 8 example_plan_limits = Inr ?p"
    and q: "plan_Create 1 2 kPrefill ''r1'' ones_digest example_sequences 8 example_plan_limits = Inr ?q"
    by (simp_all add: plan_Create_Inr_iff plan_identity_invalid_def valid_phase_def
        example_plan_limits_def example_sequences_def sequence_acceptable_def)
  have d: "digests_ok ?p" "digests_ok ?q"
    by (simp_all add: digests_ok_def built_plan_def valid_digest_def ones_digest_def
        example_sequences_def)
  have "?p \<noteq> ?q" by (simp add: built_plan_def)
  with plan_digest_unambiguous [OF p q d] p q show ?thesis by blast
qed

end
