(* ===== verification/Sha256Eval.thy ===== *)
theory Sha256Eval
  imports Wire
begin

text \<open>
  Evaluating digests inside the logic. The word operations of the compression function are mirrored
  on integers below \<open>2 ^ 32\<close>, which rewrite quickly, and the mirror is proved equal to the model. The
  concrete digests that witnesses elsewhere need, and a published test vector, are computed here.
\<close>

section \<open>The integer mirror\<close>

definition i_rotr :: "int \<Rightarrow> nat \<Rightarrow> int" where
  "i_rotr x n = drop_bit n x OR take_bit 32 (push_bit (32 - n) x)"

definition i_schedule_next :: "int list \<Rightarrow> int" where
  "i_schedule_next w =
     (let n = length w; a = w ! (n - 15); b = w ! (n - 2)
      in take_bit 32 (w ! (n - 16) + (i_rotr a 7 XOR i_rotr a 18 XOR drop_bit 3 a) + w ! (n - 7) +
                      (i_rotr b 17 XOR i_rotr b 19 XOR drop_bit 10 b)))"

primrec i_extend :: "nat \<Rightarrow> int list \<Rightarrow> int list" where
  "i_extend 0 w = w"
| "i_extend (Suc n) w = i_extend n (w @ [i_schedule_next w])"

type_synonym i_working = "int \<times> int \<times> int \<times> int \<times> int \<times> int \<times> int \<times> int"

fun i_round :: "int \<times> int \<Rightarrow> i_working \<Rightarrow> i_working" where
  "i_round (k, w) (a, b, c, d, e, f, g, h) =
     (let t1 = h + (i_rotr e 6 XOR i_rotr e 11 XOR i_rotr e 25) + ((e AND f) XOR (NOT e AND g)) + k + w;
          t2 = (i_rotr a 2 XOR i_rotr a 13 XOR i_rotr a 22) + ((a AND b) XOR (a AND c) XOR (b AND c))
      in (take_bit 32 (t1 + t2), a, b, c, take_bit 32 (d + t1), e, f, g))"

definition i_load :: "int list \<Rightarrow> nat \<Rightarrow> int" where
  "i_load block i =
     push_bit 24 (block ! i) OR push_bit 16 (block ! (i + 1)) OR push_bit 8 (block ! (i + 2)) OR
     block ! (i + 3)"

definition i_constants :: "int list" where
  "i_constants = map uint kRoundConstants"

fun i_add :: "i_working \<Rightarrow> i_working \<Rightarrow> i_working" where
  "i_add (a, b, c, d, e, f, g, h) (a', b', c', d', e', f', g', h') =
     (take_bit 32 (a + a'), take_bit 32 (b + b'), take_bit 32 (c + c'), take_bit 32 (d + d'),
      take_bit 32 (e + e'), take_bit 32 (f + f'), take_bit 32 (g + g'), take_bit 32 (h + h'))"

definition i_compress :: "i_working \<Rightarrow> int list \<Rightarrow> i_working" where
  "i_compress st block =
     i_add st (fold i_round
       (zip i_constants (i_extend 48 (map (\<lambda>i. i_load block (i * 4)) [0..<16]))) st)"

fun i_of_working :: "working \<Rightarrow> i_working" where
  "i_of_working (a, b, c, d, e, f, g, h) =
     (uint a, uint b, uint c, uint d, uint e, uint f, uint g, uint h)"

section \<open>The mirror is exact\<close>

lemma octuple_cases:
  obtains a b c d e f g h where "s = (a, b, c, d, e, f, g, h)"
  by (metis surj_pair)

lemma take_bit_uint [simp]: "take_bit 32 (uint (x :: u32)) = uint x"
  by transfer simp

lemma uint_add_mirror: "uint (x + y :: u32) = take_bit 32 (uint x + uint y)"
  by (simp add: uint_word_ariths take_bit_eq_mod)

lemma i_rotr_uint: "n < 32 \<Longrightarrow> i_rotr (uint x) n = uint (rotr x n)"
  by (simp add: i_rotr_def rotr_def unsigned_or_eq unsigned_drop_bit_eq unsigned_push_bit_eq)

lemma uint_drop_bit_mirror: "uint (drop_bit n (x :: u32)) = drop_bit n (uint x)"
  by (simp add: unsigned_drop_bit_eq)

lemma not_and_mirror: "NOT (uint (e :: u32)) AND uint g = uint (NOT e AND g)"
  by (rule bit_eqI) (auto simp: bit_simps unsigned_and_eq unsigned_not_eq dest: bit_imp_le_length)

lemma take_bit_add_mirror: "take_bit 32 (take_bit 32 a + b) = take_bit 32 (a + b :: int)"
  "take_bit 32 (a + take_bit 32 b) = take_bit 32 (a + b :: int)"
  by (simp_all add: take_bit_eq_mod mod_simps)

lemmas mirror_simps =
  uint_add_mirror i_rotr_uint not_and_mirror take_bit_add_mirror unsigned_xor_eq unsigned_and_eq
  uint_drop_bit_mirror

lemma i_schedule_next_uint:
  "16 \<le> length w \<Longrightarrow> i_schedule_next (map uint w) = uint (schedule_next w)"
  by (simp add: i_schedule_next_def schedule_next_def Let_def mirror_simps)

lemma i_extend_uint:
  "16 \<le> length w \<Longrightarrow> i_extend n (map uint w) = map uint (extend_schedule n w)"
proof (induction n arbitrary: w)
  case 0
  then show ?case by simp
next
  case (Suc n)
  then show ?case using Suc.IH [of "w @ [schedule_next w]"] by (simp add: i_schedule_next_uint)
qed

lemma i_round_uint:
  "i_round (uint k, uint w) (i_of_working s) = i_of_working (compress_round (k, w) s)"
  by (cases s rule: octuple_cases) (simp add: Let_def mirror_simps)

lemma i_rounds_uint:
  "fold i_round (zip (map uint ks) (map uint ws)) (i_of_working s) =
     i_of_working (fold compress_round (zip ks ws) s)"
proof (induction ks arbitrary: ws s)
  case Nil
  then show ?case by simp
next
  case (Cons k ks)
  then show ?case by (cases ws) (simp_all add: i_round_uint del: i_round.simps compress_round.simps)
qed

lemma byte_push_mirror: "n \<le> 24 \<Longrightarrow> take_bit 32 (push_bit n (uint (b :: u8))) = push_bit n (uint b)"
proof (rule take_bit_int_eq_self)
  assume "n \<le> 24"
  then have "(2 :: int) ^ n \<le> 2 ^ 24" by (intro power_increasing) simp_all
  moreover have "uint b < 256" "0 \<le> uint b" using unsigned_less [of b] by simp_all
  ultimately have "uint b * 2 ^ n < 256 * 2 ^ 24" by (intro mult_less_le_imp_less) simp_all
  then show "push_bit n (uint b) < 2 ^ 32" by (simp add: push_bit_eq_mult)
qed simp

lemma take_bit_byte [simp]: "take_bit 32 (uint (b :: u8)) = uint b"
  using byte_push_mirror [of 0 b] by simp

lemma i_load_uint: "i + 3 < length block \<Longrightarrow> i_load (map uint block) i = uint (load_be32 block i)"
  by (simp add: i_load_def load_be32_def unsigned_or_eq unsigned_push_bit_eq unsigned_ucast_eq
      byte_push_mirror)

lemma i_compress_uint:
  assumes "length block = 64"
  shows "i_compress (i_of_working s) (map uint block) = i_of_working (compress s block)"
proof -
  have load: "map (\<lambda>i. i_load (map uint block) (i * 4)) [0..<16] =
      map uint (map (\<lambda>i. load_be32 block (i * 4)) [0..<16])"
    using assms by (auto simp: i_load_uint)
  have "i_extend 48 (map (\<lambda>i. i_load (map uint block) (i * 4)) [0..<16]) = map uint (schedule block)"
    unfolding load schedule_def by (rule i_extend_uint) simp
  moreover have "i_add (i_of_working s) (i_of_working t) =
      i_of_working (case (s, t) of
        ((s0, s1, s2, s3, s4, s5, s6, s7), (a, b, c, d, e, f, g, h)) \<Rightarrow>
          (s0 + a, s1 + b, s2 + c, s3 + d, s4 + e, s5 + f, s6 + g, s7 + h))" for t
    by (cases s rule: octuple_cases; cases t rule: octuple_cases) (simp add: uint_add_mirror)
  ultimately show ?thesis
    by (simp add: i_compress_def i_constants_def i_rounds_uint compress_def Let_def split: prod.splits)
qed

text \<open>The digest of a padded message, block by block.\<close>

primrec i_fold_blocks :: "nat \<Rightarrow> i_working \<Rightarrow> int list \<Rightarrow> i_working" where
  "i_fold_blocks 0 st m = st"
| "i_fold_blocks (Suc n) st m = i_fold_blocks n (i_compress st (take 64 m)) (drop 64 m)"

lemma i_fold_blocks_uint:
  "64 * n \<le> length m \<Longrightarrow>
     i_fold_blocks n (i_of_working s) (map uint m) = i_of_working (fold_blocks n s m)"
proof (induction n arbitrary: s m)
  case 0
  then show ?case by simp
next
  case (Suc n)
  then show ?case
    using Suc.IH [of "drop 64 m" "compress s (take 64 m)"] i_compress_uint [of "take 64 m" s]
    by (simp add: take_map drop_map)
qed

definition i_sha256 :: "u8 list \<Rightarrow> i_working" where
  "i_sha256 msg = i_fold_blocks (length (pad msg) div 64) (i_of_working initial_state) (map uint (pad msg))"

lemma i_sha256_uint:
  "i_sha256 msg = i_of_working (fold_blocks (length (pad msg) div 64) initial_state (pad msg))"
  unfolding i_sha256_def by (rule i_fold_blocks_uint) simp

fun i_digest :: "i_working \<Rightarrow> Sha256Digest" where
  "i_digest (a, b, c, d, e, f, g, h) =
     digest_of (word_of_int a, word_of_int b, word_of_int c, word_of_int d,
                word_of_int e, word_of_int f, word_of_int g, word_of_int h)"

lemma sha256_spec_mirror: "sha256_spec msg = i_digest (i_sha256 msg)"
  by (cases "fold_blocks (length (pad msg) div 64) initial_state (pad msg)" rule: octuple_cases)
    (simp add: sha256_spec_def i_sha256_uint)

section \<open>Concrete digests\<close>

text \<open>A known answer: the model computes the published digest of \<open>abc\<close>.\<close>

lemma sha256_abc:
  "map_sum st_code hex (sha256 (string_bytes ''abc'')) =
     Inr ''ba7816bf8f01cfea414140de5dae2223b00361a396177a9cb410ff61f20015ad''"
proof -
  have i: "i_sha256 (string_bytes ''abc'') =
      (0xba7816bf, 0x8f01cfea, 0x414140de, 0x5dae2223, 0xb00361a3, 0x96177a9c, 0xb410ff61, 0xf20015ad)"
    by code_simp
  have "sha256 (string_bytes ''abc'') = Inr (sha256_spec (string_bytes ''abc''))"
    by (simp add: sha256_eq_digest_chunks digest_chunks_fits max_message_bytes_def)
  moreover have "hex (sha256_spec (string_bytes ''abc'')) =
      ''ba7816bf8f01cfea414140de5dae2223b00361a396177a9cb410ff61f20015ad''"
    unfolding sha256_spec_mirror i by code_simp
  ultimately show ?thesis by simp
qed

end
