(* ===== verification/MetadataArena.thy ===== *)
theory MetadataArena
  imports PackedPlan Sha256Eval
begin

text \<open>
  \<open>packed_token_metadata_arena.h\<close> and \<open>packed_token_metadata_arena.cpp\<close>: the reusable buffers that
  turn a plan and the sequences' tokens into the flat arrays a model consumes. \<open>materialize\<close> checks
  the whole payload first and only then writes.

  The buffers keep whatever earlier plans left in them. The lemmas show that none of it is visible:
  the view is a function of the plan and the tokens alone, with the padding rows cleared. Array
  writes are list updates at the index the source computes with 32-bit arithmetic.
\<close>

section \<open>Messages\<close>

definition msg_packed_token_digest_input_is_too_large :: string where
  "msg_packed_token_digest_input_is_too_large = ''packed token digest input is too large''"

definition msg_packed_metadata_limits_must_be_nonzero :: string where
  "msg_packed_metadata_limits_must_be_nonzero = ''packed metadata limits must be nonzero''"

definition msg_packed_token_payload_does_not_match_plan :: string where
  "msg_packed_token_payload_does_not_match_plan = ''packed token payload does not match plan''"

definition msg_packed_token_payload_digest_mismatch :: string where
  "msg_packed_token_payload_digest_mismatch = ''packed token payload digest mismatch''"

definition msg_packed_metadata_arena_cannot_represent_plan :: string where
  "msg_packed_metadata_arena_cannot_represent_plan = ''packed metadata arena cannot represent plan''"

section \<open>Data\<close>

definition kInvalidPackedRequestIndex :: u32 where
  "kInvalidPackedRequestIndex = UINT32_MAX"

record PackedSequenceTokens =
  pt_sequence_generation :: u64
  pt_token_ids :: "u32 list"
  pt_produces_logits :: bool

record PackedTokenMetadataLimits =
  mt_maximum_sequences :: u32
  mt_maximum_execution_bucket_tokens :: u32

record PackedTokenMetadataView =
  mv_generation :: u64
  mv_input_token_ids :: "u32 list"
  mv_positions :: "u64 list"
  mv_request_index :: "u32 list"
  mv_query_start_offsets :: "u32 list"
  mv_sample_row_index :: "u32 list"
  mv_real_token_count :: u32

record PackedTokenMetadataArena =
  ma_maximum_sequences :: u32
  ma_maximum_tokens :: u32
  ma_generation :: u64
  ma_token_ids :: "u32 list"
  ma_positions :: "u64 list"
  ma_request_indices :: "u32 list"
  ma_query_offsets :: "u32 list"
  ma_sample_rows :: "u32 list"

section \<open>Operations\<close>

definition packed_tokens_domain :: string where
  "packed_tokens_domain = ''pih-packed-u32-tokens-v1''"

definition packed_token_input_digest :: "u32 list \<Rightarrow> Sha256Digest result" where
  "packed_token_input_digest token_ids =
     (if length token_ids > unat UINT32_MAX
      then Inl (ResourceExhausted msg_packed_token_digest_input_is_too_large)
      else digest_chunks
        ([string_bytes packed_tokens_domain, le_bytes_u32 (of_nat (length token_ids))] @
         map le_bytes_u32 token_ids))"

definition metadata_Create :: "PackedTokenMetadataLimits \<Rightarrow> PackedTokenMetadataArena result" where
  "metadata_Create limits =
     (let sequences = mt_maximum_sequences limits;
          tokens = mt_maximum_execution_bucket_tokens limits
      in if sequences = 0 \<or> tokens = 0
         then Inl (InvalidArgument msg_packed_metadata_limits_must_be_nonzero)
         else Inr
           \<lparr>ma_maximum_sequences = sequences, ma_maximum_tokens = tokens, ma_generation = 0,
            ma_token_ids = replicate (unat tokens) 0, ma_positions = replicate (unat tokens) 0,
            ma_request_indices = replicate (unat tokens) kInvalidPackedRequestIndex,
            ma_query_offsets = replicate (unat sequences + 1) 0,
            ma_sample_rows = replicate (unat sequences) 0\<rparr>)"

definition validate_payload :: "PackedTokenPlan \<Rightarrow> PackedSequenceTokens list \<Rightarrow> nat \<Rightarrow> status" where
  "validate_payload plan sequences i =
     (let sequence = sequences ! i in
      if pt_sequence_generation sequence \<noteq> pp_sequence_generations plan ! i \<or>
         length (pt_token_ids sequence) \<noteq> unat (pp_real_token_counts plan ! i)
      then InvalidArgument msg_packed_token_payload_does_not_match_plan
      else case packed_token_input_digest (pt_token_ids sequence) of
        Inl e \<Rightarrow> e
      | Inr digest \<Rightarrow>
          if digest \<noteq> pp_input_digests plan ! i
          then InvalidArgument msg_packed_token_payload_digest_mismatch
          else if pt_token_ids sequence \<noteq> [] then
            (case checked_add_u64 (pp_committed_start_positions plan ! i)
                    (of_nat (length (pt_token_ids sequence) - 1)) of
               Inl e \<Rightarrow> e
             | Inr _ \<Rightarrow> Ok)
          else Ok)"

text \<open>The inner loop body: token \<open>local\<close> of sequence \<open>i\<close>.\<close>

definition write_token ::
  "PackedTokenPlan \<Rightarrow> PackedSequenceTokens list \<Rightarrow> nat \<Rightarrow> nat \<Rightarrow> PackedTokenMetadataArena \<Rightarrow>
     PackedTokenMetadataArena" where
  "write_token plan sequences i local arena =
     (let packed = unat (pp_packed_offsets plan ! i + of_nat local)
      in arena\<lparr>ma_token_ids := (ma_token_ids arena)[packed := pt_token_ids (sequences ! i) ! local],
               ma_positions := (ma_positions arena)
                 [packed := pp_committed_start_positions plan ! i + of_nat local],
               ma_request_indices := (ma_request_indices arena)[packed := of_nat i]\<rparr>)"

definition write_sequence ::
  "PackedTokenPlan \<Rightarrow> PackedSequenceTokens list \<Rightarrow> nat \<Rightarrow> u32 \<times> PackedTokenMetadataArena \<Rightarrow>
     u32 \<times> PackedTokenMetadataArena" where
  "write_sequence plan sequences i acc =
     (let (sample_count, arena) = acc;
          first = pp_packed_offsets plan ! i;
          arena1 = arena\<lparr>ma_query_offsets := (ma_query_offsets arena)[i := first]\<rparr>;
          arena2 = fold (write_token plan sequences i)
                     [0..<length (pt_token_ids (sequences ! i))] arena1
      in if pt_produces_logits (sequences ! i)
         then (sample_count + 1,
               arena2\<lparr>ma_sample_rows := (ma_sample_rows arena2)
                 [unat sample_count := pp_packed_offsets plan ! (i + 1) - 1]\<rparr>)
         else (sample_count, arena2))"

definition clear_padding :: "nat \<Rightarrow> PackedTokenMetadataArena \<Rightarrow> PackedTokenMetadataArena" where
  "clear_padding i arena =
     arena\<lparr>ma_token_ids := (ma_token_ids arena)[i := 0],
           ma_positions := (ma_positions arena)[i := 0],
           ma_request_indices := (ma_request_indices arena)[i := kInvalidPackedRequestIndex]\<rparr>"

definition materialize ::
  "PackedTokenPlan \<Rightarrow> PackedSequenceTokens list \<Rightarrow> PackedTokenMetadataArena \<Rightarrow>
     PackedTokenMetadataView result \<times> PackedTokenMetadataArena" where
  "materialize plan sequences arena =
     (if length sequences \<noteq> sequence_count plan \<or>
         length sequences > unat (ma_maximum_sequences arena) \<or>
         pp_execution_bucket_tokens plan > ma_maximum_tokens arena \<or>
         ma_generation arena = UINT64_MAX
      then (Inl (ResourceExhausted msg_packed_metadata_arena_cannot_represent_plan), arena)
      else
        let checked = first_error (map (validate_payload plan sequences) [0..<length sequences])
        in if \<not> ok checked then (Inl checked, arena)
        else
          let (sample_count, arena1) =
                fold (write_sequence plan sequences) [0..<length sequences] (0, arena);
              arena2 = arena1\<lparr>ma_query_offsets :=
                (ma_query_offsets arena1)[length sequences := pp_total_real_tokens plan]\<rparr>;
              arena3 = fold clear_padding
                [unat (pp_total_real_tokens plan)..<unat (pp_execution_bucket_tokens plan)] arena2;
              arena4 = arena3\<lparr>ma_generation := ma_generation arena3 + 1\<rparr>;
              bucket = unat (pp_execution_bucket_tokens plan)
          in (Inr \<lparr>mv_generation = ma_generation arena4,
                   mv_input_token_ids = take bucket (ma_token_ids arena4),
                   mv_positions = take bucket (ma_positions arena4),
                   mv_request_index = take bucket (ma_request_indices arena4),
                   mv_query_start_offsets = take (length sequences + 1) (ma_query_offsets arena4),
                   mv_sample_row_index = take (unat sample_count) (ma_sample_rows arena4),
                   mv_real_token_count = pp_total_real_tokens plan\<rparr>, arena4))"

section \<open>What the view must contain\<close>

definition packed_tokens :: "PackedSequenceTokens list \<Rightarrow> nat \<Rightarrow> u32 list" where
  "packed_tokens sequences k = concat (map pt_token_ids (take k sequences))"

definition sequence_positions :: "PackedTokenPlan \<Rightarrow> nat \<Rightarrow> u64 list" where
  "sequence_positions plan i =
     map (\<lambda>local. pp_committed_start_positions plan ! i + of_nat local)
       [0..<unat (pp_real_token_counts plan ! i)]"

definition packed_positions :: "PackedTokenPlan \<Rightarrow> nat \<Rightarrow> u64 list" where
  "packed_positions plan k = concat (map (sequence_positions plan) [0..<k])"

definition packed_requests :: "PackedTokenPlan \<Rightarrow> nat \<Rightarrow> u32 list" where
  "packed_requests plan k =
     concat (map (\<lambda>i. replicate (unat (pp_real_token_counts plan ! i)) (of_nat i)) [0..<k])"

definition sampled_rows :: "PackedTokenPlan \<Rightarrow> PackedSequenceTokens list \<Rightarrow> nat \<Rightarrow> u32 list" where
  "sampled_rows plan sequences k =
     map (\<lambda>i. pp_packed_offsets plan ! (i + 1) - 1)
       (filter (\<lambda>i. pt_produces_logits (sequences ! i)) [0..<k])"

definition metadata_ok :: "PackedTokenMetadataArena \<Rightarrow> bool" where
  "metadata_ok a \<longleftrightarrow>
     length (ma_token_ids a) = unat (ma_maximum_tokens a) \<and>
     length (ma_positions a) = unat (ma_maximum_tokens a) \<and>
     length (ma_request_indices a) = unat (ma_maximum_tokens a) \<and>
     length (ma_query_offsets a) = unat (ma_maximum_sequences a) + 1 \<and>
     length (ma_sample_rows a) = unat (ma_maximum_sequences a)"

definition payload_matches :: "PackedTokenPlan \<Rightarrow> PackedSequenceTokens list \<Rightarrow> bool" where
  "payload_matches plan sequences \<longleftrightarrow>
     length sequences = sequence_count plan \<and>
     (\<forall>i<length sequences. length (pt_token_ids (sequences ! i)) = unat (pp_real_token_counts plan ! i))"

section \<open>Loops that write arrays\<close>

lemma fold_project:
  assumes "\<And>x s. x \<in> set xs \<Longrightarrow> g (f x s) = h x (g s)"
  shows "g (fold f xs s) = fold h xs (g s)"
  using assms by (induction xs arbitrary: s) simp_all

lemma fold_keep:
  assumes "\<And>x s. g (f x s) = g s"
  shows "g (fold f xs s) = g s"
  using assms by (induction xs arbitrary: s) simp_all

lemma overwrite_append_end:
  assumes "b + length ys + length zs \<le> length xs"
  shows "overwrite (overwrite xs b ys) (b + length ys) zs = overwrite xs b (ys @ zs)"
  using assms by (simp add: overwrite_def ac_simps)

lemma overwrite_single: "b < length xs \<Longrightarrow> overwrite xs b [v] = xs[b := v]"
  by (simp add: overwrite_def upd_conv_take_nth_drop)

lemma fold_write:
  assumes "b + n \<le> length xs"
  shows "fold (\<lambda>l xs. xs[b + l := f l]) [0..<n] xs = overwrite xs b (map f [0..<n])"
  using assms
proof (induction n)
  case 0
  then show ?case by simp
next
  case (Suc n)
  then show ?case
    using overwrite_append_end [of b "map f [0..<n]" "[f n]" xs]
      overwrite_single [of "b + n" "overwrite xs b (map f [0..<n])" "f n"] by simp
qed

lemma fold_fill:
  assumes "t \<le> b" and "b \<le> length xs"
  shows "fold (\<lambda>i xs. xs[i := v]) [t..<b] xs = overwrite xs t (replicate (b - t) v)"
proof -
  have "[t..<b] = map (\<lambda>i. i + t) [0..<b - t]" using map_add_upt [of t "b - t"] assms(1) by simp
  then have "fold (\<lambda>i xs. xs[i := v]) [t..<b] xs = fold (\<lambda>l xs. xs[t + l := v]) [0..<b - t] xs"
    by (simp add: fold_map comp_def add.commute)
  then show ?thesis
    using fold_write [of t "b - t" xs "\<lambda>_. v"] assms by (simp add: map_replicate_const)
qed

lemma count_sum_Suc:
  "plan_ok plan \<Longrightarrow> k < sequence_count plan \<Longrightarrow>
     count_sum plan (Suc k) = count_sum plan k + unat (pp_real_token_counts plan ! k)"
  by (simp add: count_sum_def take_Suc_conv_app_nth plan_ok_lengths)

lemma count_sum_mono: "plan_ok plan \<Longrightarrow> j \<le> k \<Longrightarrow> count_sum plan j \<le> count_sum plan k"
proof -
  assume "j \<le> k"
  then have "take k cs = take j cs @ take (k - j) (drop j cs)" for cs :: "u32 list"
    by (metis le_add_diff_inverse take_add)
  then show ?thesis by (simp add: count_sum_def)
qed

lemma plan_offset:
  "plan_ok plan \<Longrightarrow> k \<le> sequence_count plan \<Longrightarrow> unat (pp_packed_offsets plan ! k) = count_sum plan k"
  by (simp add: plan_ok_def Let_def)

lemma plan_total: "plan_ok plan \<Longrightarrow> unat (pp_total_real_tokens plan) = count_sum plan (sequence_count plan)"
  by (simp add: plan_ok_def Let_def)

text \<open>The 32-bit sum of an offset and a position inside the sequence does not wrap.\<close>

lemma packed_index:
  assumes "plan_ok plan" and "i < sequence_count plan" and "l < unat (pp_real_token_counts plan ! i)"
  shows "unat (pp_packed_offsets plan ! i + of_nat l) = count_sum plan i + l"
proof -
  have "count_sum plan i + l < count_sum plan (Suc i)"
    using assms count_sum_Suc [of plan i] by simp
  also have "\<dots> \<le> unat (pp_total_real_tokens plan)"
    using assms(1,2) count_sum_mono [of plan "Suc i" "sequence_count plan"] by (simp add: plan_total)
  also have "\<dots> < 2 ^ 32" by (rule unat_lt_u32)
  finally have small: "count_sum plan i + l < 2 ^ 32" .
  then have "unat (of_nat l :: u32) = l" by (simp add: unat_of_nat)
  with small assms(1,2) show ?thesis
    using unat_add_lem [of "pp_packed_offsets plan ! i" "of_nat l"] by (simp add: plan_offset)
qed

lemma write_token_loop:
  assumes ok: "plan_ok plan" and i: "i < sequence_count plan"
    and n: "length (pt_token_ids (sequences ! i)) = unat (pp_real_token_counts plan ! i)"
    and len: "count_sum plan (Suc i) \<le> length (ma_token_ids a)"
      "count_sum plan (Suc i) \<le> length (ma_positions a)"
      "count_sum plan (Suc i) \<le> length (ma_request_indices a)"
  defines "a' \<equiv> fold (write_token plan sequences i) [0..<length (pt_token_ids (sequences ! i))] a"
  shows "ma_token_ids a' = overwrite (ma_token_ids a) (count_sum plan i) (pt_token_ids (sequences ! i))"
    and "ma_positions a' = overwrite (ma_positions a) (count_sum plan i) (sequence_positions plan i)"
    and "ma_request_indices a' = overwrite (ma_request_indices a) (count_sum plan i)
           (replicate (unat (pp_real_token_counts plan ! i)) (of_nat i))"
    and "ma_query_offsets a' = ma_query_offsets a" and "ma_sample_rows a' = ma_sample_rows a"
    and "ma_generation a' = ma_generation a" and "ma_maximum_tokens a' = ma_maximum_tokens a"
    and "ma_maximum_sequences a' = ma_maximum_sequences a"
proof -
  let ?n = "length (pt_token_ids (sequences ! i))" and ?b = "count_sum plan i"
  have idx: "unat (pp_packed_offsets plan ! i + of_nat l) = ?b + l" if "l \<in> set [0..<?n]" for l
    using packed_index [OF ok i, of l] that n by simp
  have fits: "?b + ?n \<le> length (ma_token_ids a)" "?b + ?n \<le> length (ma_positions a)"
    "?b + ?n \<le> length (ma_request_indices a)"
    using len n count_sum_Suc [OF ok i] by simp_all
  have "ma_token_ids a' = fold (\<lambda>l xs. xs[?b + l := pt_token_ids (sequences ! i) ! l]) [0..<?n] (ma_token_ids a)"
    unfolding a'_def by (rule fold_project) (simp add: write_token_def idx Let_def)
  also have "\<dots> = overwrite (ma_token_ids a) ?b (pt_token_ids (sequences ! i))"
    by (simp add: fold_write [OF fits(1)] map_nth)
  finally show "ma_token_ids a' = overwrite (ma_token_ids a) ?b (pt_token_ids (sequences ! i))" .
  have "ma_positions a' = fold (\<lambda>l xs. xs[?b + l := pp_committed_start_positions plan ! i + of_nat l])
      [0..<?n] (ma_positions a)"
    unfolding a'_def by (rule fold_project) (simp add: write_token_def idx Let_def)
  also have "\<dots> = overwrite (ma_positions a) ?b (sequence_positions plan i)"
    unfolding fold_write [OF fits(2)] by (simp add: sequence_positions_def n)
  finally show "ma_positions a' = overwrite (ma_positions a) ?b (sequence_positions plan i)" .
  have "ma_request_indices a' = fold (\<lambda>l xs. xs[?b + l := of_nat i]) [0..<?n] (ma_request_indices a)"
    unfolding a'_def by (rule fold_project) (simp add: write_token_def idx Let_def)
  also have "\<dots> = overwrite (ma_request_indices a) ?b (replicate (unat (pp_real_token_counts plan ! i)) (of_nat i))"
    unfolding fold_write [OF fits(3)] by (simp add: map_replicate_const n)
  finally show "ma_request_indices a' = overwrite (ma_request_indices a) ?b
      (replicate (unat (pp_real_token_counts plan ! i)) (of_nat i))" .
  show "ma_query_offsets a' = ma_query_offsets a" "ma_sample_rows a' = ma_sample_rows a"
    "ma_generation a' = ma_generation a" "ma_maximum_tokens a' = ma_maximum_tokens a"
    "ma_maximum_sequences a' = ma_maximum_sequences a"
    unfolding a'_def by (rule fold_keep, simp add: write_token_def Let_def)+
qed

section \<open>The loop over the sequences\<close>

definition filled ::
  "PackedTokenPlan \<Rightarrow> PackedSequenceTokens list \<Rightarrow> PackedTokenMetadataArena \<Rightarrow> nat \<Rightarrow>
     u32 \<times> PackedTokenMetadataArena \<Rightarrow> bool" where
  "filled plan sequences a0 k acc \<longleftrightarrow>
     (let (n, a) = acc in
      ma_token_ids a = overwrite (ma_token_ids a0) 0 (packed_tokens sequences k) \<and>
      ma_positions a = overwrite (ma_positions a0) 0 (packed_positions plan k) \<and>
      ma_request_indices a = overwrite (ma_request_indices a0) 0 (packed_requests plan k) \<and>
      ma_query_offsets a = overwrite (ma_query_offsets a0) 0 (take k (pp_packed_offsets plan)) \<and>
      ma_sample_rows a = overwrite (ma_sample_rows a0) 0 (sampled_rows plan sequences k) \<and>
      n = of_nat (length (sampled_rows plan sequences k)) \<and>
      ma_generation a = ma_generation a0 \<and> ma_maximum_tokens a = ma_maximum_tokens a0 \<and>
      ma_maximum_sequences a = ma_maximum_sequences a0)"

lemma length_packed:
  assumes ok: "plan_ok plan" and pm: "payload_matches plan sequences" and k: "k \<le> sequence_count plan"
  shows "length (packed_tokens sequences k) = count_sum plan k"
    and "length (packed_positions plan k) = count_sum plan k"
    and "length (packed_requests plan k) = count_sum plan k"
proof -
  have "length (packed_tokens sequences k) = count_sum plan k \<and>
      length (packed_positions plan k) = count_sum plan k \<and>
      length (packed_requests plan k) = count_sum plan k"
    using k
  proof (induction k)
    case 0
    then show ?case by (simp add: packed_tokens_def packed_positions_def packed_requests_def count_sum_def)
  next
    case (Suc k)
    then have "k < length sequences" "k < sequence_count plan"
      using pm by (simp_all add: payload_matches_def)
    with Suc pm count_sum_Suc [OF ok, of k] show ?case
      by (simp add: packed_tokens_def packed_positions_def packed_requests_def payload_matches_def
          sequence_positions_def take_Suc_conv_app_nth)
  qed
  then show "length (packed_tokens sequences k) = count_sum plan k"
    "length (packed_positions plan k) = count_sum plan k"
    "length (packed_requests plan k) = count_sum plan k" by simp_all
qed

lemma packed_Suc:
  "k < length sequences \<Longrightarrow> packed_tokens sequences (Suc k) = packed_tokens sequences k @ pt_token_ids (sequences ! k)"
  "packed_positions plan (Suc k) = packed_positions plan k @ sequence_positions plan k"
  "packed_requests plan (Suc k) =
     packed_requests plan k @ replicate (unat (pp_real_token_counts plan ! k)) (of_nat k)"
  "sampled_rows plan sequences (Suc k) = sampled_rows plan sequences k @
     (if pt_produces_logits (sequences ! k) then [pp_packed_offsets plan ! (k + 1) - 1] else [])"
  by (simp_all add: packed_tokens_def packed_positions_def packed_requests_def sampled_rows_def
      take_Suc_conv_app_nth)

lemma length_sampled_rows: "length (sampled_rows plan sequences k) \<le> k"
  by (simp add: sampled_rows_def) (metis length_filter_le length_upt minus_nat.diff_0)

lemma overwrite_extend:
  assumes "length ys = b" and "b + length zs \<le> length xs"
  shows "overwrite (overwrite xs 0 ys) b zs = overwrite xs 0 (ys @ zs)"
  using overwrite_append_end [of 0 ys zs xs] assms by simp

lemma filled_step:
  assumes ok: "plan_ok plan" and pm: "payload_matches plan sequences" and arena: "metadata_ok a0"
    and fits: "pp_execution_bucket_tokens plan \<le> ma_maximum_tokens a0"
      "length sequences \<le> unat (ma_maximum_sequences a0)"
    and k: "k < length sequences" and f: "filled plan sequences a0 k acc"
  shows "filled plan sequences a0 (Suc k) (write_sequence plan sequences k acc)"
proof -
  obtain n a where acc: "acc = (n, a)" by fastforce
  have kc: "k < sequence_count plan" using k pm by (simp add: payload_matches_def)
  have cap: "count_sum plan (Suc k) \<le> unat (ma_maximum_tokens a0)"
  proof -
    have "count_sum plan (Suc k) \<le> unat (pp_total_real_tokens plan)"
      using count_sum_mono [OF ok, of "Suc k" "sequence_count plan"] kc by (simp add: plan_total ok)
    also have "\<dots> \<le> unat (ma_maximum_tokens a0)"
      using ok fits(1) by (auto simp: plan_ok_def Let_def word_le_nat_alt)
    finally show ?thesis .
  qed
  define a1 where "a1 = a\<lparr>ma_query_offsets := (ma_query_offsets a)[k := pp_packed_offsets plan ! k]\<rparr>"
  define a2 where "a2 = fold (write_token plan sequences k) [0..<length (pt_token_ids (sequences ! k))] a1"
  note len = length_packed [OF ok pm, of k] and sum = count_sum_Suc [OF ok kc]
  have toks: "length (pt_token_ids (sequences ! k)) = unat (pp_real_token_counts plan ! k)"
    using pm k by (simp add: payload_matches_def)
  have lens: "count_sum plan (Suc k) \<le> length (ma_token_ids a1)"
    "count_sum plan (Suc k) \<le> length (ma_positions a1)"
    "count_sum plan (Suc k) \<le> length (ma_request_indices a1)"
    using f cap arena len kc sum by (simp_all add: a1_def acc filled_def metadata_ok_def)
  note loop = write_token_loop [OF ok kc toks lens, folded a2_def]
  have rows: "length (sampled_rows plan sequences k) \<le> k" by (rule length_sampled_rows)
  have cnt: "unat (of_nat (length (sampled_rows plan sequences k)) :: u32) = length (sampled_rows plan sequences k)"
    using rows k fits(2) unat_lt_u32 [of "ma_maximum_sequences a0"] by (simp add: unat_of_nat)
  have q: "(overwrite (ma_query_offsets a0) 0 (take k (pp_packed_offsets plan)))[k := pp_packed_offsets plan ! k] =
      overwrite (ma_query_offsets a0) 0 (take (Suc k) (pp_packed_offsets plan))"
    using overwrite_extend [of "take k (pp_packed_offsets plan)" k "[pp_packed_offsets plan ! k]" "ma_query_offsets a0"]
      overwrite_single [of k "overwrite (ma_query_offsets a0) 0 (take k (pp_packed_offsets plan))"]
      arena k fits(2) kc plan_ok_lengths(4) [OF ok]
    by (simp add: metadata_ok_def take_Suc_conv_app_nth)
  have a: "ma_token_ids a1 = overwrite (ma_token_ids a0) 0 (packed_tokens sequences k)"
    "ma_positions a1 = overwrite (ma_positions a0) 0 (packed_positions plan k)"
    "ma_request_indices a1 = overwrite (ma_request_indices a0) 0 (packed_requests plan k)"
    "ma_query_offsets a1 = overwrite (ma_query_offsets a0) 0 (take (Suc k) (pp_packed_offsets plan))"
    "ma_sample_rows a1 = overwrite (ma_sample_rows a0) 0 (sampled_rows plan sequences k)"
    "n = of_nat (length (sampled_rows plan sequences k))"
    "ma_generation a1 = ma_generation a0" "ma_maximum_tokens a1 = ma_maximum_tokens a0"
    "ma_maximum_sequences a1 = ma_maximum_sequences a0"
    using f q by (simp_all add: acc filled_def a1_def)
  have a2: "ma_token_ids a2 = overwrite (ma_token_ids a0) 0 (packed_tokens sequences (Suc k))"
    "ma_positions a2 = overwrite (ma_positions a0) 0 (packed_positions plan (Suc k))"
    "ma_request_indices a2 = overwrite (ma_request_indices a0) 0 (packed_requests plan (Suc k))"
    unfolding loop(1-3) a(1-3) packed_Suc(1) [OF k] packed_Suc(2,3)
    using arena cap sum toks kc len
    by (intro overwrite_extend; simp add: metadata_ok_def sequence_positions_def)+
  have row: "(ma_sample_rows a2)[unat n := v] =
      overwrite (ma_sample_rows a0) 0 (sampled_rows plan sequences k @ [v])" for v
    using overwrite_extend [of "sampled_rows plan sequences k" "length (sampled_rows plan sequences k)" "[v]"
        "ma_sample_rows a0"]
      overwrite_single [of "length (sampled_rows plan sequences k)"
        "overwrite (ma_sample_rows a0) 0 (sampled_rows plan sequences k)" v]
      rows k fits(2) arena cnt
    by (simp add: loop(5) a(5,6) metadata_ok_def)
  have w: "write_sequence plan sequences k acc =
      (if pt_produces_logits (sequences ! k)
       then (n + 1, a2\<lparr>ma_sample_rows := (ma_sample_rows a2)[unat n := pp_packed_offsets plan ! (k + 1) - 1]\<rparr>)
       else (n, a2))"
    by (simp add: write_sequence_def acc a1_def a2_def Let_def)
  show ?thesis
    using a2 row loop(4-8) a(4-9)
    by (simp add: w filled_def packed_Suc(4) add.commute)
qed

lemma filled_all:
  assumes ok: "plan_ok plan" and pm: "payload_matches plan sequences" and arena: "metadata_ok a0"
    and fits: "pp_execution_bucket_tokens plan \<le> ma_maximum_tokens a0"
      "length sequences \<le> unat (ma_maximum_sequences a0)"
    and "k \<le> length sequences"
  shows "filled plan sequences a0 k (fold (write_sequence plan sequences) [0..<k] (0, a0))"
  using assms(6)
proof (induction k)
  case 0
  show ?case
    by (simp add: filled_def packed_tokens_def packed_positions_def packed_requests_def sampled_rows_def)
next
  case (Suc k)
  then show ?case using filled_step [OF ok pm arena fits, of k] by simp
qed

lemma clear_padding_loop:
  assumes "t \<le> b" and "b \<le> length (ma_token_ids a)" and "b \<le> length (ma_positions a)"
    and "b \<le> length (ma_request_indices a)"
  defines "a' \<equiv> fold clear_padding [t..<b] a"
  shows "ma_token_ids a' = overwrite (ma_token_ids a) t (replicate (b - t) 0)"
    and "ma_positions a' = overwrite (ma_positions a) t (replicate (b - t) 0)"
    and "ma_request_indices a' = overwrite (ma_request_indices a) t (replicate (b - t) kInvalidPackedRequestIndex)"
    and "ma_query_offsets a' = ma_query_offsets a" and "ma_sample_rows a' = ma_sample_rows a"
    and "ma_generation a' = ma_generation a" and "ma_maximum_tokens a' = ma_maximum_tokens a"
    and "ma_maximum_sequences a' = ma_maximum_sequences a"
proof -
  have "ma_token_ids a' = fold (\<lambda>i xs. xs[i := 0]) [t..<b] (ma_token_ids a)"
    "ma_positions a' = fold (\<lambda>i xs. xs[i := 0]) [t..<b] (ma_positions a)"
    "ma_request_indices a' = fold (\<lambda>i xs. xs[i := kInvalidPackedRequestIndex]) [t..<b] (ma_request_indices a)"
    unfolding a'_def by (rule fold_project, simp add: clear_padding_def)+
  then show "ma_token_ids a' = overwrite (ma_token_ids a) t (replicate (b - t) 0)"
    "ma_positions a' = overwrite (ma_positions a) t (replicate (b - t) 0)"
    "ma_request_indices a' = overwrite (ma_request_indices a) t (replicate (b - t) kInvalidPackedRequestIndex)"
    using assms(1-4) by (simp_all add: fold_fill)
  show "ma_query_offsets a' = ma_query_offsets a" "ma_sample_rows a' = ma_sample_rows a"
    "ma_generation a' = ma_generation a" "ma_maximum_tokens a' = ma_maximum_tokens a"
    "ma_maximum_sequences a' = ma_maximum_sequences a"
    unfolding a'_def by (rule fold_keep, simp add: clear_padding_def)+
qed

section \<open>Every reachable arena, every plan\<close>

definition metadata_init :: "PackedTokenMetadataArena \<Rightarrow> bool" where
  "metadata_init a \<longleftrightarrow> (\<exists>limits. metadata_Create limits = Inr a)"

inductive metadata_step :: "PackedTokenMetadataArena \<Rightarrow> PackedTokenMetadataArena \<Rightarrow> bool" where
  metadata_materialize: "materialize plan sequences a = (r, a') \<Longrightarrow> metadata_step a a'"

lemma metadata_ok_write_token: "metadata_ok a \<Longrightarrow> metadata_ok (write_token plan sequences i l a)"
  by (simp add: metadata_ok_def write_token_def Let_def)

lemma metadata_ok_fold:
  "(\<And>x a. metadata_ok a \<Longrightarrow> metadata_ok (f x a)) \<Longrightarrow> metadata_ok a \<Longrightarrow> metadata_ok (fold f xs a)"
  by (induction xs arbitrary: a) simp_all

lemma metadata_ok_write_sequence:
  "metadata_ok (snd acc) \<Longrightarrow> metadata_ok (snd (write_sequence plan sequences i acc))"
proof -
  assume ok: "metadata_ok (snd acc)"
  let ?a = "(snd acc)\<lparr>ma_query_offsets := (ma_query_offsets (snd acc))[i := pp_packed_offsets plan ! i]\<rparr>"
  have "metadata_ok ?a" using ok by (simp add: metadata_ok_def)
  then have "metadata_ok (fold (write_token plan sequences i) xs ?a)" for xs
    by (intro metadata_ok_fold metadata_ok_write_token)
  then show ?thesis by (cases acc) (auto simp: write_sequence_def Let_def metadata_ok_def)
qed

lemma metadata_ok_materialize:
  assumes "metadata_ok a" and "materialize plan sequences a = (r, a')"
  shows "metadata_ok a'"
proof -
  have seqs: "metadata_ok (snd (fold (write_sequence plan sequences) xs (n, a)))" for xs n
  proof -
    have "metadata_ok (snd acc) \<Longrightarrow> metadata_ok (snd (fold (write_sequence plan sequences) xs acc))" for acc
      by (induction xs arbitrary: acc) (simp_all add: metadata_ok_write_sequence)
    from this [of "(n, a)"] assms(1) show ?thesis by simp
  qed
  have pad: "metadata_ok x \<Longrightarrow> metadata_ok (fold clear_padding xs x)" for xs x
    by (rule metadata_ok_fold) (simp_all add: metadata_ok_def clear_padding_def)
  have upd: "metadata_ok x \<Longrightarrow> metadata_ok (x\<lparr>ma_query_offsets := (ma_query_offsets x)[i := v]\<rparr>)"
    "metadata_ok (x\<lparr>ma_generation := g\<rparr>) = metadata_ok x" for x i v g
    by (simp_all add: metadata_ok_def)
  from assms show ?thesis
    using seqs [of "[0..<length sequences]" 0]
    by (auto simp: materialize_def Let_def split_beta upd intro!: pad upd(1) split: if_splits)
qed

lemma metadata_ok_Create: "metadata_Create limits = Inr a \<Longrightarrow> metadata_ok a"
  by (auto simp: metadata_Create_def metadata_ok_def Let_def split: if_splits)

interpretation metadata: inductive_invariant metadata_init metadata_step metadata_ok
  by unfold_locales
    (auto simp: metadata_init_def elim!: metadata_step.cases intro: metadata_ok_Create metadata_ok_materialize)

lemma materialize_accepts:
  assumes "materialize plan sequences a = (Inr view, a')"
  shows "payload_matches plan sequences" and "length sequences \<le> unat (ma_maximum_sequences a)"
    and "pp_execution_bucket_tokens plan \<le> ma_maximum_tokens a" and "ma_generation a \<noteq> UINT64_MAX"
proof -
  have guard: "\<not> (length sequences \<noteq> sequence_count plan \<or>
         length sequences > unat (ma_maximum_sequences a) \<or>
         pp_execution_bucket_tokens plan > ma_maximum_tokens a \<or> ma_generation a = UINT64_MAX)"
    and "ok (first_error (map (validate_payload plan sequences) [0..<length sequences]))"
    using assms by (auto simp: materialize_def Let_def split: if_splits)
  then have "ok (validate_payload plan sequences i)" if "i < length sequences" for i
    using that by simp
  then have "length (pt_token_ids (sequences ! i)) = unat (pp_real_token_counts plan ! i)"
    if "i < length sequences" for i
    using that by (fastforce simp: validate_payload_def Let_def split: if_splits)
  with guard show "payload_matches plan sequences" by (simp add: payload_matches_def)
  show "length sequences \<le> unat (ma_maximum_sequences a)"
    "pp_execution_bucket_tokens plan \<le> ma_maximum_tokens a" "ma_generation a \<noteq> UINT64_MAX"
    using guard by (auto simp: not_less)
qed

lemma take_overwrite_pad:
  assumes "length xs = t" and "t \<le> b" and "b \<le> length buf"
  shows "take b (overwrite (overwrite buf 0 xs) t (replicate (b - t) v)) = xs @ replicate (b - t) v"
  using assms by (simp add: overwrite_extend) (simp add: overwrite_def)

lemma query_offsets_view:
  assumes ok: "plan_ok plan" and "sequence_count plan < length q"
  shows "take (sequence_count plan + 1)
    ((overwrite q 0 (take (sequence_count plan) (pp_packed_offsets plan)))
      [sequence_count plan := pp_total_real_tokens plan]) = pp_packed_offsets plan"
proof -
  let ?n = "sequence_count plan" and ?o = "pp_packed_offsets plan"
  have len: "length ?o = Suc ?n" by (rule plan_ok_lengths [OF ok])
  have "?o ! ?n = pp_total_real_tokens plan"
    using plan_offset [OF ok, of ?n] plan_total [OF ok] by (simp add: word_unat_eq_iff)
  then have "(overwrite q 0 (take ?n ?o))[?n := pp_total_real_tokens plan] =
      overwrite q 0 (take ?n ?o @ [?o ! ?n])"
    using overwrite_extend [of "take ?n ?o" ?n "[?o ! ?n]" q]
      overwrite_single [of ?n "overwrite q 0 (take ?n ?o)" "?o ! ?n"] assms(2) len by simp
  also have "take ?n ?o @ [?o ! ?n] = ?o"
    using len take_Suc_conv_app_nth [of ?n ?o] by simp
  finally show ?thesis using len assms(2) by (simp add: overwrite_def)
qed

text \<open>The buffers when \<open>materialize\<close> returns, in terms of the buffers it started with.\<close>

lemma materialize_stages:
  assumes ok: "plan_ok plan" and arena: "metadata_ok a"
    and mat: "materialize plan sequences a = (Inr view, a')"
  defines "n \<equiv> sequence_count plan" and "t \<equiv> unat (pp_total_real_tokens plan)"
    and "b \<equiv> unat (pp_execution_bucket_tokens plan)"
  obtains a3 :: PackedTokenMetadataArena where
    "ma_token_ids a3 = overwrite (overwrite (ma_token_ids a) 0 (packed_tokens sequences n)) t (replicate (b - t) 0)"
    "ma_positions a3 = overwrite (overwrite (ma_positions a) 0 (packed_positions plan n)) t (replicate (b - t) 0)"
    "ma_request_indices a3 = overwrite (overwrite (ma_request_indices a) 0 (packed_requests plan n)) t
       (replicate (b - t) kInvalidPackedRequestIndex)"
    "ma_query_offsets a3 = (overwrite (ma_query_offsets a) 0 (take n (pp_packed_offsets plan)))
       [n := pp_total_real_tokens plan]"
    "ma_sample_rows a3 = overwrite (ma_sample_rows a) 0 (sampled_rows plan sequences n)"
    "ma_generation a3 = ma_generation a"
    "view = \<lparr>mv_generation = ma_generation a3 + 1,
      mv_input_token_ids = take b (ma_token_ids a3), mv_positions = take b (ma_positions a3),
      mv_request_index = take b (ma_request_indices a3),
      mv_query_start_offsets = take (n + 1) (ma_query_offsets a3),
      mv_sample_row_index =
        take (unat (of_nat (length (sampled_rows plan sequences n)) :: u32)) (ma_sample_rows a3),
      mv_real_token_count = pp_total_real_tokens plan\<rparr>"
proof -
  note acc = materialize_accepts [OF mat]
  have cnt: "length sequences = n" using acc(1) by (simp add: payload_matches_def n_def)
  obtain m a1 where loop: "fold (write_sequence plan sequences) [0..<n] (0, a) = (m, a1)" by fastforce
  have filled: "filled plan sequences a n (m, a1)"
    using filled_all [OF ok acc(1) arena acc(3,2), of n] loop by (simp add: cnt)
  define a2 where "a2 = a1\<lparr>ma_query_offsets := (ma_query_offsets a1)[n := pp_total_real_tokens plan]\<rparr>"
  define a3 where "a3 = fold clear_padding [t..<b] a2"
  have tb: "t \<le> b" using ok by (simp add: plan_ok_def Let_def word_le_nat_alt t_def b_def)
  have bl: "b \<le> length (ma_token_ids a)" "b \<le> length (ma_positions a)" "b \<le> length (ma_request_indices a)"
    using acc(3) arena by (simp_all add: metadata_ok_def word_le_nat_alt b_def)
  note len = length_packed [OF ok acc(1), of n, folded n_def, OF order_refl]
  have f: "ma_token_ids a2 = overwrite (ma_token_ids a) 0 (packed_tokens sequences n)"
    "ma_positions a2 = overwrite (ma_positions a) 0 (packed_positions plan n)"
    "ma_request_indices a2 = overwrite (ma_request_indices a) 0 (packed_requests plan n)"
    "ma_query_offsets a2 = (overwrite (ma_query_offsets a) 0 (take n (pp_packed_offsets plan)))
       [n := pp_total_real_tokens plan]"
    "ma_sample_rows a2 = overwrite (ma_sample_rows a) 0 (sampled_rows plan sequences n)"
    "ma_generation a2 = ma_generation a"
    and m: "m = of_nat (length (sampled_rows plan sequences n))"
    using filled by (simp_all add: filled_def a2_def)
  have "b \<le> length (ma_token_ids a2)" "b \<le> length (ma_positions a2)" "b \<le> length (ma_request_indices a2)"
    using bl tb len plan_total [OF ok] by (simp_all add: f t_def n_def)
  note p = clear_padding_loop [OF tb this, folded a3_def]
  have "view = \<lparr>mv_generation = ma_generation a3 + 1,
      mv_input_token_ids = take b (ma_token_ids a3), mv_positions = take b (ma_positions a3),
      mv_request_index = take b (ma_request_indices a3),
      mv_query_start_offsets = take (n + 1) (ma_query_offsets a3),
      mv_sample_row_index = take (unat m) (ma_sample_rows a3),
      mv_real_token_count = pp_total_real_tokens plan\<rparr>"
    using mat loop
    by (auto simp: materialize_def Let_def cnt a2_def a3_def t_def b_def split: if_splits)
  with p f m show thesis by (intro that [of a3]) simp_all
qed

text \<open>
  C15. Whatever earlier plans left in the buffers, a successful \<open>materialize\<close> of a created plan
  returns exactly: the sequences' tokens one after another, then zeros up to the execution bucket;
  for each token its position counted from the sequence's committed start; for each token the index
  of its sequence, and the invalid index for the padding; the plan's packed offsets; and for each
  sequence that produces logits, in order, the row of its last token. Nothing of an earlier plan
  shows through. The arena's generation moves on by one.
\<close>

theorem materialize_correct:
  assumes "reachable metadata_init metadata_step a"
    and "plan_Create epoch number phase profile hash inputs bucket limits = Inr plan"
    and "materialize plan sequences a = (Inr view, a')"
  defines "n \<equiv> length sequences" and "padding \<equiv> unat bucket - unat (pp_total_real_tokens plan)"
  shows "mv_input_token_ids view = concat (map pt_token_ids sequences) @ replicate padding 0 \<and>
    mv_positions view = concat (map (sequence_positions plan) [0..<n]) @ replicate padding 0 \<and>
    mv_request_index view =
      concat (map (\<lambda>i. replicate (length (pt_token_ids (sequences ! i))) (of_nat i)) [0..<n]) @
      replicate padding kInvalidPackedRequestIndex \<and>
    mv_query_start_offsets view = pp_packed_offsets plan \<and>
    mv_sample_row_index view =
      map (\<lambda>i. pp_packed_offsets plan ! (i + 1) - 1)
        (filter (\<lambda>i. pt_produces_logits (sequences ! i)) [0..<n]) \<and>
    unat (mv_generation view) = Suc (unat (ma_generation a))"
proof -
  have ok: "plan_ok plan" using plan_ok_Create(1) [OF assms(2)] .
  have arena: "metadata_ok a" using metadata.holds_when_reachable [OF assms(1)] .
  note acc = materialize_accepts [OF assms(3)]
  have bucket: "pp_execution_bucket_tokens plan = bucket"
    using assms(2) by (simp add: plan_Create_Inr_iff built_plan_def)
  have cnt: "sequence_count plan = n" using acc(1) by (simp add: payload_matches_def n_def)
  let ?t = "unat (pp_total_real_tokens plan)" and ?b = "unat bucket"
  have tb: "?t \<le> ?b" using ok bucket by (simp add: plan_ok_def Let_def word_le_nat_alt)
  have bl: "?b \<le> length (ma_token_ids a)" "?b \<le> length (ma_positions a)" "?b \<le> length (ma_request_indices a)"
    using acc(3) arena bucket by (simp_all add: metadata_ok_def word_le_nat_alt)
  have len: "length (packed_tokens sequences n) = ?t" "length (packed_positions plan n) = ?t"
    "length (packed_requests plan n) = ?t"
    using length_packed [OF ok acc(1), of n] plan_total [OF ok] cnt by simp_all
  have rows: "length (sampled_rows plan sequences n) \<le> n" by (rule length_sampled_rows)
  have small: "n \<le> unat (ma_maximum_sequences a)" using acc(2) by (simp add: n_def)
  then have m: "unat (of_nat (length (sampled_rows plan sequences n)) :: u32) = length (sampled_rows plan sequences n)"
    using rows unat_lt_u32 [of "ma_maximum_sequences a"] by (simp add: unat_of_nat)
  obtain a3 :: PackedTokenMetadataArena where st:
    "ma_token_ids a3 = overwrite (overwrite (ma_token_ids a) 0 (packed_tokens sequences n)) ?t (replicate padding 0)"
    "ma_positions a3 = overwrite (overwrite (ma_positions a) 0 (packed_positions plan n)) ?t (replicate padding 0)"
    "ma_request_indices a3 = overwrite (overwrite (ma_request_indices a) 0 (packed_requests plan n)) ?t
       (replicate padding kInvalidPackedRequestIndex)"
    "ma_query_offsets a3 = (overwrite (ma_query_offsets a) 0 (take n (pp_packed_offsets plan)))
       [n := pp_total_real_tokens plan]"
    "ma_sample_rows a3 = overwrite (ma_sample_rows a) 0 (sampled_rows plan sequences n)"
    "ma_generation a3 = ma_generation a"
    and view: "view = \<lparr>mv_generation = ma_generation a3 + 1,
      mv_input_token_ids = take ?b (ma_token_ids a3), mv_positions = take ?b (ma_positions a3),
      mv_request_index = take ?b (ma_request_indices a3),
      mv_query_start_offsets = take (n + 1) (ma_query_offsets a3),
      mv_sample_row_index = take (length (sampled_rows plan sequences n)) (ma_sample_rows a3),
      mv_real_token_count = pp_total_real_tokens plan\<rparr>"
    using materialize_stages [OF ok arena assms(3), unfolded cnt bucket m] unfolding padding_def by blast
  have "mv_input_token_ids view = packed_tokens sequences n @ replicate padding 0"
    "mv_positions view = packed_positions plan n @ replicate padding 0"
    "mv_request_index view = packed_requests plan n @ replicate padding kInvalidPackedRequestIndex"
    using take_overwrite_pad [OF len(1) tb bl(1)] take_overwrite_pad [OF len(2) tb bl(2)]
      take_overwrite_pad [OF len(3) tb bl(3)]
    by (simp_all add: view st padding_def)
  moreover have "mv_query_start_offsets view = pp_packed_offsets plan"
    using query_offsets_view [OF ok, of "ma_query_offsets a"] arena small
    by (simp add: view st cnt metadata_ok_def)
  moreover have "mv_sample_row_index view = sampled_rows plan sequences n"
    using rows small arena by (simp add: view st metadata_ok_def overwrite_def)
  moreover have "unat (mv_generation view) = Suc (unat (ma_generation a))"
    using acc(4) by (simp add: view st unat_Suc_word)
  moreover have "packed_requests plan n =
      concat (map (\<lambda>i. replicate (length (pt_token_ids (sequences ! i))) (of_nat i)) [0..<n])"
    unfolding packed_requests_def
    using acc(1) by (intro arg_cong [of _ _ concat] map_cong) (simp_all add: payload_matches_def n_def)
  ultimately show ?thesis
    by (simp add: packed_tokens_def packed_positions_def sampled_rows_def n_def)
qed

definition example_tokens :: "u32 list" where
  "example_tokens = [5, 6]"

definition example_token_digest :: Sha256Digest where
  "example_token_digest = sha256_spec
     (string_bytes packed_tokens_domain @ concat (map le_bytes_u32 (2 # example_tokens)))"

lemma example_token_digest:
  "packed_token_input_digest example_tokens = Inr example_token_digest"
  by (simp add: packed_token_input_digest_def example_token_digest_def example_tokens_def
      digest_chunks_fits packed_tokens_domain_def max_message_bytes_def unat_max_u32)

lemma nonzero_example_token_digest: "nonzero example_token_digest"
proof -
  have i: "i_sha256 (string_bytes packed_tokens_domain @ concat (map le_bytes_u32 (2 # example_tokens))) =
      (0x96ba22d9, 0x8fff7054, 0x52974eb1, 0xea0c70e, 0x1e3d1aa9, 0x644e3f4e, 0x317df6ff, 0x4de8b532)"
    by code_simp
  show ?thesis unfolding example_token_digest_def sha256_spec_mirror i by code_simp
qed

definition example_payload :: "PackedSequenceTokens list" where
  "example_payload =
     [\<lparr>pt_sequence_generation = 4, pt_token_ids = example_tokens, pt_produces_logits = True\<rparr>]"

definition example_inputs :: "PackedSequenceInput list" where
  "example_inputs =
     [\<lparr>si_sequence_generation = 4, si_committed_start_position = 7, si_real_token_count = 2,
       si_state_generation = 1, si_input_digest = example_token_digest\<rparr>]"

definition example_plan :: PackedTokenPlan where
  "example_plan = built_plan 1 1 kPrefill ''r1'' ones_digest example_inputs 3"

definition example_metadata :: PackedTokenMetadataArena where
  "example_metadata =
     \<lparr>ma_maximum_sequences = 2, ma_maximum_tokens = 4, ma_generation = 0,
      ma_token_ids = replicate 4 0, ma_positions = replicate 4 0,
      ma_request_indices = replicate 4 kInvalidPackedRequestIndex,
      ma_query_offsets = replicate 3 0, ma_sample_rows = replicate 2 0\<rparr>"

lemma example_metadata_reachable: "reachable metadata_init metadata_step example_metadata"
proof (rule reachable_init)
  have "metadata_Create \<lparr>mt_maximum_sequences = 2, mt_maximum_execution_bucket_tokens = 4\<rparr> =
      Inr example_metadata"
    by (simp add: metadata_Create_def example_metadata_def Let_def)
  then show "metadata_init example_metadata" by (auto simp: metadata_init_def)
qed

lemma example_plan_Create:
  "plan_Create 1 1 kPrefill ''r1'' ones_digest example_inputs 3 example_plan_limits = Inr example_plan"
  by (simp add: plan_Create_Inr_iff plan_identity_invalid_def valid_phase_def example_plan_def
      example_plan_limits_def example_inputs_def sequence_acceptable_def nonzero_example_token_digest)

lemma example_materialize: "\<exists>view a. materialize example_plan example_payload example_metadata = (Inr view, a)"
proof -
  have "validate_payload example_plan example_payload 0 = Ok"
    by (simp add: validate_payload_def example_payload_def example_plan_def built_plan_def
        example_inputs_def example_token_digest checked_add_u64_def Let_def)
      (simp add: example_tokens_def)
  then have "ok (first_error (map (validate_payload example_plan example_payload) [0..<length example_payload]))"
    by (simp add: example_payload_def)
  then show ?thesis
    by (simp add: materialize_def example_metadata_def sequence_count_def example_plan_def
        built_plan_def example_inputs_def example_payload_def Let_def split_beta)
qed

theorem materialize_correct_witness:
  "\<exists>view a. materialize example_plan example_payload example_metadata = (Inr view, a) \<and>
     mv_input_token_ids view = [5, 6, 0]"
proof -
  obtain view a where m: "materialize example_plan example_payload example_metadata = (Inr view, a)"
    using example_materialize by blast
  from materialize_correct [OF example_metadata_reachable example_plan_Create m]
  have "mv_input_token_ids view = [5, 6, 0]"
    by (simp add: example_payload_def example_tokens_def example_plan_def built_plan_def example_inputs_def)
  with m show ?thesis by blast
qed

end
