(* ===== verification/Sequence.thy ===== *)
theory Sequence
  imports PackedPlan
begin

text \<open>
  \<open>controller_sequence.h\<close> and \<open>controller_sequence.cpp\<close>: the life cycle of one admitted request. A
  sequence alternates between a boundary state and a plan that is prepared, committed and in flight;
  cancellation, draining and failure leave that cycle. It also keeps the token ledger: the prompt
  length P, the model-processed length K and the number A of accepted output tokens.

  The lemmas show the ledger law K = P + A - 1 on every reachable sequence, that the sixteen states
  refine an abstract life cycle, that the scheduling queries agree with what the operations accept,
  and that chunked prefill reaches the decode boundary.
\<close>

section \<open>Messages\<close>

definition msg_controller_sequence_identity_is_invalid :: string where
  "msg_controller_sequence_identity_is_invalid = ''controller sequence identity is invalid''"

definition msg_sequence_cannot_prepare_this_plan :: string where
  "msg_sequence_cannot_prepare_this_plan = ''sequence cannot prepare this plan''"

definition msg_prefill_plan_exceeds_prompt_partition :: string where
  "msg_prefill_plan_exceeds_prompt_partition = ''prefill plan exceeds prompt partition''"

definition msg_decode_plan_must_contain_one_real_token :: string where
  "msg_decode_plan_must_contain_one_real_token = ''decode plan must contain one real token''"

definition msg_verify_plan_exceeds_the_V1_draft_bound :: string where
  "msg_verify_plan_exceeds_the_V1_draft_bound = ''verify plan exceeds the V1 draft bound''"

definition msg_sequence_plan_is_not_prepared :: string where
  "msg_sequence_plan_is_not_prepared = ''sequence plan is not prepared''"

definition msg_sequence_plan_is_not_committed :: string where
  "msg_sequence_plan_is_not_committed = ''sequence plan is not committed''"

definition msg_only_a_prepared_plan_can_be_aborted :: string where
  "msg_only_a_prepared_plan_can_be_aborted = ''only a prepared plan can be aborted''"

definition msg_prefill_completion_cut_is_invalid :: string where
  "msg_prefill_completion_cut_is_invalid = ''prefill completion cut is invalid''"

definition msg_decode_family_state_cut_is_invalid :: string where
  "msg_decode_family_state_cut_is_invalid = ''decode-family state cut is invalid''"

definition msg_K_P_A_1_ledger_invariant_failed :: string where
  "msg_K_P_A_1_ledger_invariant_failed = ''K=P+A-1 ledger invariant failed''"

definition msg_final_prefill_must_publish_its_first_token :: string where
  "msg_final_prefill_must_publish_its_first_token = ''final prefill must publish its first token''"

definition msg_plan_completion_identity_is_invalid :: string where
  "msg_plan_completion_identity_is_invalid = ''plan completion identity is invalid''"

definition msg_terminal_sequence_cannot_be_cancelled :: string where
  "msg_terminal_sequence_cannot_be_cancelled = ''terminal sequence cannot be cancelled''"

definition msg_sequence_still_has_committed_work :: string where
  "msg_sequence_still_has_committed_work = ''sequence still has committed work''"

definition msg_sequence_is_not_draining :: string where
  "msg_sequence_is_not_draining = ''sequence is not draining''"

definition msg_sequence_is_not_terminal_draining :: string where
  "msg_sequence_is_not_terminal_draining = ''sequence is not terminal-draining''"

definition msg_sequence_is_already_terminal :: string where
  "msg_sequence_is_already_terminal = ''sequence is already terminal''"

definition msg_sequence_is_not_at_a_schedulable_boundary :: string where
  "msg_sequence_is_not_at_a_schedulable_boundary = ''sequence is not at a schedulable boundary''"

definition msg_prefill_chunk_bound_must_be_positive :: string where
  "msg_prefill_chunk_bound_must_be_positive = ''prefill chunk bound must be positive''"

definition msg_prefill_scheduling_input_is_inconsistent :: string where
  "msg_prefill_scheduling_input_is_inconsistent = ''prefill scheduling input is inconsistent''"

definition msg_decode_cannot_carry_verify_tokens :: string where
  "msg_decode_cannot_carry_verify_tokens = ''decode cannot carry verify tokens''"

definition msg_verify_token_count_is_outside_the_V1_bound :: string where
  "msg_verify_token_count_is_outside_the_V1_bound = ''verify token count is outside the V1 bound''"

section \<open>Data\<close>

datatype ControllerSequenceState =
    kQueuedPrefill
  | kPrefillPrepared
  | kPrefillCommitted
  | kPrefillInFlight
  | kReadyDecode
  | kDecodePrepared
  | kDecodeCommitted
  | kDecodeInFlight
  | kVerifyPrepared
  | kVerifyCommitted
  | kVerifyInFlight
  | kCancelRequested
  | kDraining
  | kCancelled
  | kCompleted
  | kFailed

record ControllerPlanCompletion =
  cp_plan_sequence :: u64
  cp_sequence_generation :: u64
  cp_committed_model_processed_length :: u64
  cp_accepted_completion_count :: u64
  cp_state_generation :: u64
  cp_next_decode_phase :: PackedTokenPhase
  cp_terminal :: bool

record ControllerSequence =
  sq_sequence_generation :: u64
  sq_prompt_token_count :: u64
  sq_model_processed_length :: u64
  sq_accepted_completion_count :: u64
  sq_state_generation :: u64
  sq_active_plan_sequence :: u64
  sq_active_real_token_count :: u32
  sq_active_phase :: PackedTokenPhase
  sq_next_decode_phase :: PackedTokenPhase
  sq_state :: ControllerSequenceState
  sq_state_before_cancel :: ControllerSequenceState
  sq_drain_is_cancel :: bool

section \<open>Operations\<close>

fun prepared_state :: "PackedTokenPhase \<Rightarrow> ControllerSequenceState" where
  "prepared_state kPrefill = kPrefillPrepared"
| "prepared_state kDecode = kDecodePrepared"
| "prepared_state kVerify = kVerifyPrepared"
| "prepared_state (PackedTokenPhase_other _) = kFailed"

fun committed_state :: "PackedTokenPhase \<Rightarrow> ControllerSequenceState" where
  "committed_state kPrefill = kPrefillCommitted"
| "committed_state kDecode = kDecodeCommitted"
| "committed_state kVerify = kVerifyCommitted"
| "committed_state (PackedTokenPhase_other _) = kFailed"

fun inflight_state :: "PackedTokenPhase \<Rightarrow> ControllerSequenceState" where
  "inflight_state kPrefill = kPrefillInFlight"
| "inflight_state kDecode = kDecodeInFlight"
| "inflight_state kVerify = kVerifyInFlight"
| "inflight_state (PackedTokenPhase_other _) = kFailed"

definition sequence_new :: "u64 \<Rightarrow> u64 \<Rightarrow> u64 \<Rightarrow> ControllerSequence" where
  "sequence_new sequence_generation prompt_token_count state_generation =
     \<lparr>sq_sequence_generation = sequence_generation,
      sq_prompt_token_count = prompt_token_count,
      sq_model_processed_length = 0,
      sq_accepted_completion_count = 0,
      sq_state_generation = state_generation,
      sq_active_plan_sequence = 0,
      sq_active_real_token_count = 0,
      sq_active_phase = kPrefill,
      sq_next_decode_phase = kDecode,
      sq_state = kQueuedPrefill,
      sq_state_before_cancel = kQueuedPrefill,
      sq_drain_is_cancel = False\<rparr>"

definition Admit :: "u64 \<Rightarrow> u64 \<Rightarrow> u64 \<Rightarrow> ControllerSequence result" where
  "Admit sequence_generation prompt_token_count initial_state_generation =
     (if sequence_generation = 0 \<or> prompt_token_count = 0 \<or> initial_state_generation = 0
      then Inl (InvalidArgument msg_controller_sequence_identity_is_invalid)
      else Inr (sequence_new sequence_generation prompt_token_count initial_state_generation))"

definition terminal :: "ControllerSequenceState \<Rightarrow> bool" where
  "terminal st \<longleftrightarrow> st = kCancelled \<or> st = kCompleted \<or> st = kFailed"

definition prepared :: "ControllerSequenceState \<Rightarrow> bool" where
  "prepared st \<longleftrightarrow> st = kPrefillPrepared \<or> st = kDecodePrepared \<or> st = kVerifyPrepared"

definition committed_or_in_flight :: "ControllerSequenceState \<Rightarrow> bool" where
  "committed_or_in_flight st \<longleftrightarrow>
     st = kPrefillCommitted \<or> st = kPrefillInFlight \<or>
     st = kDecodeCommitted \<or> st = kDecodeInFlight \<or>
     st = kVerifyCommitted \<or> st = kVerifyInFlight"

definition has_active_plan :: "ControllerSequence \<Rightarrow> bool" where
  "has_active_plan s \<longleftrightarrow> sq_active_plan_sequence s \<noteq> 0"

definition clear_plan :: "ControllerSequence \<Rightarrow> ControllerSequence" where
  "clear_plan s = s\<lparr>sq_active_plan_sequence := 0, sq_active_real_token_count := 0\<rparr>"

definition prepare ::
  "u64 \<Rightarrow> PackedTokenPhase \<Rightarrow> u32 \<Rightarrow> ControllerSequence \<Rightarrow> status \<times> ControllerSequence" where
  "prepare plan_sequence phase real_token_count s =
     (let ready = (sq_state s = kQueuedPrefill \<or> sq_state s = kReadyDecode);
          phase_matches =
            (sq_state s = kQueuedPrefill \<and> phase = kPrefill \<or>
             sq_state s = kReadyDecode \<and> phase = sq_next_decode_phase s);
          accepted = (Ok, s\<lparr>sq_active_plan_sequence := plan_sequence,
                            sq_active_real_token_count := real_token_count,
                            sq_active_phase := phase,
                            sq_state := prepared_state phase\<rparr>)
      in if \<not> ready \<or> \<not> phase_matches \<or> plan_sequence = 0 \<or> real_token_count = 0 \<or>
            sq_active_plan_sequence s \<noteq> 0
         then (FailedPrecondition msg_sequence_cannot_prepare_this_plan, s)
         else if phase = kPrefill
         then (case checked_add_u64 (sq_model_processed_length s) (ucast real_token_count) of
                 Inl _ \<Rightarrow> (InvalidArgument msg_prefill_plan_exceeds_prompt_partition, s)
               | Inr plan_end \<Rightarrow>
                   if plan_end > sq_prompt_token_count s
                   then (InvalidArgument msg_prefill_plan_exceeds_prompt_partition, s)
                   else accepted)
         else if phase = kDecode \<and> real_token_count \<noteq> 1
         then (InvalidArgument msg_decode_plan_must_contain_one_real_token, s)
         else if phase = kVerify \<and> real_token_count > 5
         then (InvalidArgument msg_verify_plan_exceeds_the_V1_draft_bound, s)
         else accepted)"

definition commit :: "u64 \<Rightarrow> ControllerSequence \<Rightarrow> status \<times> ControllerSequence" where
  "commit plan_sequence s =
     (if \<not> prepared (sq_state s) \<or> plan_sequence \<noteq> sq_active_plan_sequence s
      then (FailedPrecondition msg_sequence_plan_is_not_prepared, s)
      else (Ok, s\<lparr>sq_state := committed_state (sq_active_phase s)\<rparr>))"

definition mark_in_flight :: "u64 \<Rightarrow> ControllerSequence \<Rightarrow> status \<times> ControllerSequence" where
  "mark_in_flight plan_sequence s =
     (if \<not> committed_or_in_flight (sq_state s) \<or> sq_state s = inflight_state (sq_active_phase s) \<or>
         plan_sequence \<noteq> sq_active_plan_sequence s
      then (FailedPrecondition msg_sequence_plan_is_not_committed, s)
      else (Ok, s\<lparr>sq_state := inflight_state (sq_active_phase s)\<rparr>))"

definition abort_prepared :: "u64 \<Rightarrow> ControllerSequence \<Rightarrow> status \<times> ControllerSequence" where
  "abort_prepared plan_sequence s =
     (if \<not> prepared (sq_state s) \<or> plan_sequence \<noteq> sq_active_plan_sequence s
      then (FailedPrecondition msg_only_a_prepared_plan_can_be_aborted, s)
      else (Ok, clear_plan
             (s\<lparr>sq_state := if sq_active_phase s = kPrefill then kQueuedPrefill else kReadyDecode\<rparr>)))"

definition completion_identity_invalid ::
  "ControllerPlanCompletion \<Rightarrow> ControllerSequence \<Rightarrow> bool" where
  "completion_identity_invalid c s \<longleftrightarrow>
     (let cancelled_committed =
            (sq_state s = kCancelRequested \<and> sq_active_plan_sequence s \<noteq> 0 \<and>
             committed_or_in_flight (sq_state_before_cancel s));
          normally_in_flight = (sq_state s = inflight_state (sq_active_phase s))
      in (\<not> normally_in_flight \<and> \<not> cancelled_committed) \<or>
         cp_plan_sequence c \<noteq> sq_active_plan_sequence s \<or>
         cp_sequence_generation c \<noteq> sq_sequence_generation s \<or>
         cp_state_generation c \<le> sq_state_generation s \<or>
         cp_committed_model_processed_length c < sq_model_processed_length s \<or>
         cp_accepted_completion_count c < sq_accepted_completion_count s \<or>
         (cp_next_decode_phase c \<noteq> kDecode \<and> cp_next_decode_phase c \<noteq> kVerify))"

definition completion_cut :: "ControllerPlanCompletion \<Rightarrow> ControllerSequence \<Rightarrow> status" where
  "completion_cut c s =
     (if sq_active_phase s = kPrefill
      then (case checked_add_u64 (sq_model_processed_length s)
                   (ucast (sq_active_real_token_count s)) of
              Inl _ \<Rightarrow> InvalidArgument msg_prefill_completion_cut_is_invalid
            | Inr expected \<Rightarrow>
                if cp_committed_model_processed_length c \<noteq> expected \<or>
                   expected > sq_prompt_token_count s
                then InvalidArgument msg_prefill_completion_cut_is_invalid else Ok)
      else (case checked_add_u64 (sq_model_processed_length s)
                   (ucast (sq_active_real_token_count s)) of
              Inl _ \<Rightarrow> InvalidArgument msg_decode_family_state_cut_is_invalid
            | Inr maximum \<Rightarrow>
                if cp_committed_model_processed_length c > maximum
                then InvalidArgument msg_decode_family_state_cut_is_invalid else Ok))"

definition completion_ledger :: "ControllerPlanCompletion \<Rightarrow> ControllerSequence \<Rightarrow> status" where
  "completion_ledger c s =
     (if cp_accepted_completion_count c \<noteq> 0
      then (case checked_add_u64 (sq_prompt_token_count s) (cp_accepted_completion_count c - 1) of
              Inl _ \<Rightarrow> InvalidArgument msg_K_P_A_1_ledger_invariant_failed
            | Inr invariant \<Rightarrow>
                if cp_committed_model_processed_length c \<noteq> invariant
                then InvalidArgument msg_K_P_A_1_ledger_invariant_failed else Ok)
      else if cp_committed_model_processed_length c \<ge> sq_prompt_token_count s
      then InvalidArgument msg_final_prefill_must_publish_its_first_token
      else Ok)"

definition validate_completion :: "ControllerPlanCompletion \<Rightarrow> ControllerSequence \<Rightarrow> status" where
  "validate_completion c s =
     (if completion_identity_invalid c s
      then FailedPrecondition msg_plan_completion_identity_is_invalid
      else if \<not> ok (completion_cut c s) then completion_cut c s
      else completion_ledger c s)"

definition complete ::
  "ControllerPlanCompletion \<Rightarrow> ControllerSequence \<Rightarrow> status \<times> ControllerSequence" where
  "complete c s =
     (let validation = validate_completion c s
      in if \<not> ok validation then (validation, s)
         else
           let cancelled_committed = (sq_state s = kCancelRequested);
               s = clear_plan
                 (s\<lparr>sq_model_processed_length := cp_committed_model_processed_length c,
                    sq_accepted_completion_count := cp_accepted_completion_count c,
                    sq_state_generation := cp_state_generation c,
                    sq_next_decode_phase := cp_next_decode_phase c\<rparr>)
           in (Ok, s\<lparr>sq_state :=
                 if cancelled_committed then kDraining
                 else if cp_terminal c then kDraining
                 else if sq_model_processed_length s < sq_prompt_token_count s then kQueuedPrefill
                 else kReadyDecode\<rparr>))"

definition request_cancel :: "ControllerSequence \<Rightarrow> status \<times> ControllerSequence" where
  "request_cancel s =
     (if terminal (sq_state s) \<or> sq_state s = kDraining
      then (FailedPrecondition msg_terminal_sequence_cannot_be_cancelled, s)
      else if sq_state s = kCancelRequested then (Ok, s)
      else (Ok, s\<lparr>sq_state_before_cancel := sq_state s, sq_drain_is_cancel := True,
                  sq_state := kCancelRequested\<rparr>))"

definition begin_draining :: "ControllerSequence \<Rightarrow> status \<times> ControllerSequence" where
  "begin_draining s =
     (if sq_state s \<noteq> kCancelRequested \<or>
         (sq_active_plan_sequence s \<noteq> 0 \<and>
          sq_state_before_cancel s \<noteq> kPrefillPrepared \<and>
          sq_state_before_cancel s \<noteq> kDecodePrepared \<and>
          sq_state_before_cancel s \<noteq> kVerifyPrepared)
      then (FailedPrecondition msg_sequence_still_has_committed_work, s)
      else (Ok, (clear_plan s)\<lparr>sq_state := kDraining\<rparr>))"

definition finish_cancel :: "ControllerSequence \<Rightarrow> status \<times> ControllerSequence" where
  "finish_cancel s =
     (if sq_state s \<noteq> kDraining \<or> \<not> sq_drain_is_cancel s
      then (FailedPrecondition msg_sequence_is_not_draining, s)
      else (Ok, s\<lparr>sq_state := kCancelled\<rparr>))"

definition finish_drain :: "ControllerSequence \<Rightarrow> status \<times> ControllerSequence" where
  "finish_drain s =
     (if sq_state s \<noteq> kDraining \<or> sq_drain_is_cancel s
      then (FailedPrecondition msg_sequence_is_not_terminal_draining, s)
      else (Ok, s\<lparr>sq_state := kCompleted\<rparr>))"

definition fail :: "ControllerSequence \<Rightarrow> status \<times> ControllerSequence" where
  "fail s =
     (if terminal (sq_state s)
      then (FailedPrecondition msg_sequence_is_already_terminal, s)
      else (Ok, (clear_plan s)\<lparr>sq_state := kFailed\<rparr>))"

definition ready_phase :: "ControllerSequence \<Rightarrow> PackedTokenPhase result" where
  "ready_phase s =
     (if sq_state s = kQueuedPrefill then Inr kPrefill
      else if sq_state s = kReadyDecode then Inr (sq_next_decode_phase s)
      else Inl (FailedPrecondition msg_sequence_is_not_at_a_schedulable_boundary))"

definition next_real_token_count :: "u32 \<Rightarrow> u32 \<Rightarrow> ControllerSequence \<Rightarrow> u32 result" where
  "next_real_token_count maximum_prefill_chunk_tokens verify_token_count s =
     (if maximum_prefill_chunk_tokens = 0
      then Inl (InvalidArgument msg_prefill_chunk_bound_must_be_positive)
      else (case ready_phase s of
          Inl e \<Rightarrow> Inl e
        | Inr phase \<Rightarrow>
            if phase = kPrefill
            then (if verify_token_count \<noteq> 0 \<or>
                     sq_model_processed_length s \<ge> sq_prompt_token_count s
                  then Inl (InvalidArgument msg_prefill_scheduling_input_is_inconsistent)
                  else let remaining = sq_prompt_token_count s - sq_model_processed_length s
                       in Inr (ucast (min remaining (ucast maximum_prefill_chunk_tokens))))
            else if phase = kDecode
            then (if verify_token_count \<noteq> 0
                  then Inl (InvalidArgument msg_decode_cannot_carry_verify_tokens)
                  else Inr 1)
            else if verify_token_count = 0 \<or> verify_token_count > 5
            then Inl (InvalidArgument msg_verify_token_count_is_outside_the_V1_bound)
            else Inr verify_token_count))"

definition next_plan_produces_logits :: "u32 \<Rightarrow> u32 \<Rightarrow> ControllerSequence \<Rightarrow> bool result" where
  "next_plan_produces_logits maximum_prefill_chunk_tokens verify_token_count s =
     (case next_real_token_count maximum_prefill_chunk_tokens verify_token_count s of
        Inl e \<Rightarrow> Inl e
      | Inr count \<Rightarrow>
          (case ready_phase s of
             Inl e \<Rightarrow> Inl e
           | Inr phase \<Rightarrow>
               if phase \<noteq> kPrefill then Inr True
               else Inr (sq_model_processed_length s + ucast count = sq_prompt_token_count s)))"

text \<open>The mutating operations as one labelled step.\<close>

datatype sequence_op =
    Prepare u64 PackedTokenPhase u32
  | Commit u64
  | MarkInFlight u64
  | AbortPrepared u64
  | Complete ControllerPlanCompletion
  | RequestCancel
  | BeginDraining
  | FinishCancel
  | FinishDrain
  | Fail

fun sequence_apply :: "sequence_op \<Rightarrow> ControllerSequence \<Rightarrow> status \<times> ControllerSequence" where
  "sequence_apply (Prepare p ph n) s = prepare p ph n s"
| "sequence_apply (Commit p) s = commit p s"
| "sequence_apply (MarkInFlight p) s = mark_in_flight p s"
| "sequence_apply (AbortPrepared p) s = abort_prepared p s"
| "sequence_apply (Complete c) s = complete c s"
| "sequence_apply RequestCancel s = request_cancel s"
| "sequence_apply BeginDraining s = begin_draining s"
| "sequence_apply FinishCancel s = finish_cancel s"
| "sequence_apply FinishDrain s = finish_drain s"
| "sequence_apply Fail s = fail s"


section \<open>The ledger and the shape of a sequence\<close>

datatype stage = Prepared | Committed | InFlight

fun stage_of :: "ControllerSequenceState \<Rightarrow> (PackedTokenPhase \<times> stage) option" where
  "stage_of kPrefillPrepared = Some (kPrefill, Prepared)"
| "stage_of kPrefillCommitted = Some (kPrefill, Committed)"
| "stage_of kPrefillInFlight = Some (kPrefill, InFlight)"
| "stage_of kDecodePrepared = Some (kDecode, Prepared)"
| "stage_of kDecodeCommitted = Some (kDecode, Committed)"
| "stage_of kDecodeInFlight = Some (kDecode, InFlight)"
| "stage_of kVerifyPrepared = Some (kVerify, Prepared)"
| "stage_of kVerifyCommitted = Some (kVerify, Committed)"
| "stage_of kVerifyInFlight = Some (kVerify, InFlight)"
| "stage_of _ = None"

text \<open>K, A and P as natural numbers, and the law between them.\<close>

abbreviation processed :: "ControllerSequence \<Rightarrow> nat" where
  "processed s \<equiv> unat (sq_model_processed_length s)"

abbreviation accepted :: "ControllerSequence \<Rightarrow> nat" where
  "accepted s \<equiv> unat (sq_accepted_completion_count s)"

abbreviation prompt :: "ControllerSequence \<Rightarrow> nat" where
  "prompt s \<equiv> unat (sq_prompt_token_count s)"

definition ledger :: "nat \<Rightarrow> nat \<Rightarrow> nat \<Rightarrow> bool" where
  "ledger P K A \<longleftrightarrow> (if A = 0 then K < P else K = P + A - 1)"

lemma ledger_prefill_iff: "ledger P K A \<Longrightarrow> K < P \<longleftrightarrow> A = 0"
  by (auto simp: ledger_def split: if_splits)

definition plan_shape :: "ControllerSequenceState \<Rightarrow> ControllerSequence \<Rightarrow> bool" where
  "plan_shape st s \<longleftrightarrow>
     (case stage_of st of
        None \<Rightarrow>
          sq_active_plan_sequence s = 0 \<and>
          (st = kQueuedPrefill \<longrightarrow> accepted s = 0) \<and>
          (st = kReadyDecode \<longrightarrow> accepted s \<noteq> 0)
      | Some (phase, _) \<Rightarrow>
          sq_active_plan_sequence s \<noteq> 0 \<and> sq_active_phase s = phase \<and>
          0 < unat (sq_active_real_token_count s) \<and>
          (phase = kPrefill \<longrightarrow> accepted s = 0 \<and>
             processed s + unat (sq_active_real_token_count s) \<le> prompt s) \<and>
          (phase \<noteq> kPrefill \<longrightarrow> accepted s \<noteq> 0 \<and> unat (sq_active_real_token_count s) \<le> 5))"

definition sequence_ok :: "ControllerSequence \<Rightarrow> bool" where
  "sequence_ok s \<longleftrightarrow>
     sq_sequence_generation s \<noteq> 0 \<and> 0 < prompt s \<and> 0 < unat (sq_state_generation s) \<and>
     valid_phase (sq_active_phase s) \<and>
     (sq_next_decode_phase s = kDecode \<or> sq_next_decode_phase s = kVerify) \<and>
     ledger (prompt s) (processed s) (accepted s) \<and>
     (if sq_state s = kCancelRequested
      then sq_drain_is_cancel s \<and> plan_shape (sq_state_before_cancel s) s \<and>
           (stage_of (sq_state_before_cancel s) \<noteq> None \<or>
            sq_state_before_cancel s = kQueuedPrefill \<or> sq_state_before_cancel s = kReadyDecode)
      else plan_shape (sq_state s) s \<and>
           (sq_drain_is_cancel s \<longrightarrow>
              sq_state s = kDraining \<or> sq_state s = kCancelled \<or> sq_state s = kFailed)) \<and>
     (sq_state s = kCancelled \<longrightarrow> sq_drain_is_cancel s)"

lemma prepared_stage: "prepared st \<longleftrightarrow> (\<exists>phase. stage_of st = Some (phase, Prepared))"
  by (cases st) (auto simp: prepared_def)

lemma committed_stage:
  "committed_or_in_flight st \<longleftrightarrow>
     (\<exists>phase stage. stage_of st = Some (phase, stage) \<and> stage \<noteq> Prepared)"
  by (cases st) (auto simp: committed_or_in_flight_def)

lemma stage_of_state [simp]:
  "phase \<in> {kPrefill, kDecode, kVerify} \<Longrightarrow> stage_of (prepared_state phase) = Some (phase, Prepared)"
  "phase \<in> {kPrefill, kDecode, kVerify} \<Longrightarrow> stage_of (committed_state phase) = Some (phase, Committed)"
  "phase \<in> {kPrefill, kDecode, kVerify} \<Longrightarrow> stage_of (inflight_state phase) = Some (phase, InFlight)"
  by auto

lemma stage_of_phase: "stage_of st = Some (phase, stage) \<Longrightarrow> phase \<in> {kPrefill, kDecode, kVerify}"
  by (cases st) auto

lemma stage_of_inflight:
  "stage_of st = Some (phase, stage) \<Longrightarrow> st = inflight_state phase \<longleftrightarrow> stage = InFlight"
  by (cases st) auto

lemma stage_of_cancel [simp]:
  "stage_of st = Some x \<Longrightarrow> st \<noteq> kCancelRequested \<and> st \<noteq> kQueuedPrefill \<and> st \<noteq> kReadyDecode \<and>
     st \<noteq> kDraining \<and> \<not> terminal st"
  by (cases st) (auto simp: terminal_def)


section \<open>What each operation does when it succeeds\<close>

lemma unat_add_u64:
  "unat a + unat b < 2 ^ 64 \<Longrightarrow> unat (a + b :: u64) = unat a + unat b"
  by (simp add: unat_word_ariths)

lemma checked_add_fits:
  "(case checked_add_u64 a b of Inl _ \<Rightarrow> x | Inr e \<Rightarrow> f e) =
     (if unat a + unat b < 2 ^ 64 then f (a + b) else x)"
proof (cases "unat a + unat b < 2 ^ 64")
  case True
  then have "checked_add_u64 a b = Inr (a + b)" by (simp add: checked_add_u64_Inr_iff unat_add_u64)
  with True show ?thesis by simp
next
  case False
  then have "checked_add_u64 a b \<noteq> Inr e" for e by (simp add: checked_add_u64_Inr_iff)
  with False show ?thesis by (cases "checked_add_u64 a b") auto
qed

lemma checked_add_upto:
  "(case checked_add_u64 a b of Inl _ \<Rightarrow> x | Inr e \<Rightarrow> if e > c then x else y) =
     (if unat a + unat b \<le> unat c then y else x)"
  using unat_add_u64 [of a b] unat_lt_u64 [of c]
  by (auto simp: checked_add_fits word_less_nat_alt)

lemma prepare_cases:
  assumes "sq_next_decode_phase s \<noteq> kPrefill"
  obtains (rejected) e where "prepare p phase n s = (e, s)" and "\<not> ok e"
  | (prefill) "prepare p phase n s =
        (Ok, s\<lparr>sq_active_plan_sequence := p, sq_active_real_token_count := n, sq_active_phase := kPrefill,
               sq_state := kPrefillPrepared\<rparr>)"
      and "sq_state s = kQueuedPrefill" and "p \<noteq> 0" and "n \<noteq> 0"
      and "processed s + unat n \<le> prompt s"
  | (decode) "prepare p phase n s =
        (Ok, s\<lparr>sq_active_plan_sequence := p, sq_active_real_token_count := n,
               sq_active_phase := sq_next_decode_phase s,
               sq_state := prepared_state (sq_next_decode_phase s)\<rparr>)"
      and "sq_state s = kReadyDecode" and "p \<noteq> 0" and "n \<noteq> 0"
      and "sq_next_decode_phase s = kDecode \<longrightarrow> n = 1"
      and "sq_next_decode_phase s = kVerify \<longrightarrow> n \<le> 5"
proof (cases "ok (fst (prepare p phase n s))")
  case False
  have "transactional s (prepare p phase n s)"
    unfolding prepare_def Let_def checked_add_upto by simp
  from transactionalD [OF this False] False show ?thesis by (rule rejected)
next
  case True
  have g: "(sq_state s = kQueuedPrefill \<and> phase = kPrefill \<or>
      sq_state s = kReadyDecode \<and> phase = sq_next_decode_phase s) \<and> p \<noteq> 0 \<and> n \<noteq> 0 \<and>
      sq_active_plan_sequence s = 0"
    using True unfolding prepare_def Let_def by (simp split: if_splits)
  then consider (q) "sq_state s = kQueuedPrefill" "phase = kPrefill"
    | (r) "sq_state s = kReadyDecode" "phase = sq_next_decode_phase s" by blast
  then show ?thesis
  proof cases
    case q
    with g True have "processed s + unat n \<le> prompt s"
      unfolding prepare_def Let_def checked_add_upto by (simp split: if_splits)
    with q g show ?thesis
      by (intro prefill) (simp_all add: prepare_def Let_def checked_add_upto)
  next
    case r
    with g True assms have "\<not> (phase = kDecode \<and> n \<noteq> 1)" and "\<not> (phase = kVerify \<and> n > 5)"
      unfolding prepare_def Let_def by (simp_all split: if_splits)
    with r g assms show ?thesis
      by (intro decode) (auto simp: prepare_def Let_def not_less)
  qed
qed

lemma completion_ledger_ok:
  "ok (completion_ledger c s) \<longleftrightarrow>
     ledger (prompt s) (unat (cp_committed_model_processed_length c))
       (unat (cp_accepted_completion_count c))"
proof (cases "cp_accepted_completion_count c = 0")
  case True
  then show ?thesis by (simp add: completion_ledger_def ledger_def word_le_nat_alt not_le)
next
  case False
  let ?c = "cp_committed_model_processed_length c" and ?a = "cp_accepted_completion_count c"
  let ?e = "sq_prompt_token_count s + (?a - 1)"
  have pos: "0 < unat ?a" using False by (simp add: unat_gt_0_word)
  have pred: "unat (?a - 1) = unat ?a - 1" using False by (rule unat_pred_word)
  have "ok (completion_ledger c s) \<longleftrightarrow> prompt s + unat (?a - 1) < 2 ^ 64 \<and> ?c = ?e"
    using False by (simp add: completion_ledger_def checked_add_fits)
  also have "\<dots> \<longleftrightarrow> prompt s + unat (?a - 1) < 2 ^ 64 \<and> unat ?c = prompt s + unat (?a - 1)"
    using unat_add_u64 [of "sq_prompt_token_count s" "?a - 1"]
    by (auto simp only: word_unat_eq_iff)
  also have "\<dots> \<longleftrightarrow> unat ?c = prompt s + unat ?a - 1"
    using unat_lt_u64 [of ?c] pos pred by auto
  finally show ?thesis using pos by (simp add: ledger_def)
qed

lemma validate_completion_ok_iff:
  "ok (validate_completion c s) \<longleftrightarrow>
     \<not> completion_identity_invalid c s \<and>
     (if sq_active_phase s = kPrefill
      then unat (cp_committed_model_processed_length c) =
             processed s + unat (sq_active_real_token_count s) \<and>
           unat (cp_committed_model_processed_length c) \<le> prompt s
      else processed s + unat (sq_active_real_token_count s) < 2 ^ 64 \<and>
           unat (cp_committed_model_processed_length c) \<le>
             processed s + unat (sq_active_real_token_count s)) \<and>
     ledger (prompt s) (unat (cp_committed_model_processed_length c))
       (unat (cp_accepted_completion_count c))"
proof -
  let ?k = "sq_model_processed_length s" and ?n = "ucast (sq_active_real_token_count s) :: u64"
  let ?c = "cp_committed_model_processed_length c" and ?a = "cp_accepted_completion_count c"
  have cut: "ok (completion_cut c s) \<longleftrightarrow>
      (if sq_active_phase s = kPrefill
       then unat ?c = processed s + unat (sq_active_real_token_count s) \<and> unat ?c \<le> prompt s
       else processed s + unat (sq_active_real_token_count s) < 2 ^ 64 \<and>
         unat ?c \<le> processed s + unat (sq_active_real_token_count s))"
    using unat_add_u64 [of ?k ?n] unat_lt_u64 [of ?c]
    by (auto simp: completion_cut_def checked_add_fits word_unat_eq_iff word_less_nat_alt)
  have "ok (completion_ledger c s) \<longleftrightarrow> ledger (prompt s) (unat ?c) (unat ?a)"
    by (rule completion_ledger_ok)
  with cut show ?thesis by (auto simp: validate_completion_def)
qed


definition completed :: "ControllerPlanCompletion \<Rightarrow> ControllerSequence \<Rightarrow> ControllerSequence" where
  "completed c s = snd (complete c s)"

lemma complete_eq:
  "ok (validate_completion c s) \<Longrightarrow> complete c s = (Ok, completed c s)"
  "\<not> ok (validate_completion c s) \<Longrightarrow> complete c s = (validate_completion c s, s)"
  by (simp_all add: completed_def complete_def Let_def)

lemma completed_simps [simp]:
  assumes "ok (validate_completion c s)"
  shows "sq_sequence_generation (completed c s) = sq_sequence_generation s"
    and "sq_prompt_token_count (completed c s) = sq_prompt_token_count s"
    and "sq_model_processed_length (completed c s) = cp_committed_model_processed_length c"
    and "sq_accepted_completion_count (completed c s) = cp_accepted_completion_count c"
    and "sq_state_generation (completed c s) = cp_state_generation c"
    and "sq_next_decode_phase (completed c s) = cp_next_decode_phase c"
    and "sq_active_plan_sequence (completed c s) = 0"
    and "sq_drain_is_cancel (completed c s) = sq_drain_is_cancel s"
    and "sq_state (completed c s) =
      (if sq_state s = kCancelRequested \<or> cp_terminal c then kDraining
       else if cp_committed_model_processed_length c < sq_prompt_token_count s then kQueuedPrefill
       else kReadyDecode)"
  using assms by (simp_all add: completed_def complete_def Let_def clear_plan_def)

text \<open>An accepted completion belongs to a plan that is in flight, or committed before a cancel.\<close>

lemma valid_completion:
  assumes "sequence_ok s" and "ok (validate_completion c s)"
  shows "ledger (prompt s) (unat (cp_committed_model_processed_length c))
      (unat (cp_accepted_completion_count c))"
    and "processed s \<le> unat (cp_committed_model_processed_length c)"
    and "accepted s \<le> unat (cp_accepted_completion_count c)"
    and "unat (sq_state_generation s) < unat (cp_state_generation c)"
    and "cp_next_decode_phase c = kDecode \<or> cp_next_decode_phase c = kVerify"
    and "sq_state s = kCancelRequested \<and>
        (\<exists>phase stage. stage_of (sq_state_before_cancel s) = Some (phase, stage) \<and> stage \<noteq> Prepared) \<or>
      (\<exists>phase. stage_of (sq_state s) = Some (phase, InFlight) \<and> sq_active_phase s = phase)"
proof -
  from assms(2) have v: "\<not> completion_identity_invalid c s"
    and l: "ledger (prompt s) (unat (cp_committed_model_processed_length c))
      (unat (cp_accepted_completion_count c))"
    by (simp_all add: validate_completion_ok_iff)
  show "ledger (prompt s) (unat (cp_committed_model_processed_length c))
      (unat (cp_accepted_completion_count c))" by (rule l)
  from v show "processed s \<le> unat (cp_committed_model_processed_length c)"
    and "accepted s \<le> unat (cp_accepted_completion_count c)"
    and "unat (sq_state_generation s) < unat (cp_state_generation c)"
    and "cp_next_decode_phase c = kDecode \<or> cp_next_decode_phase c = kVerify"
    by (auto simp: completion_identity_invalid_def Let_def word_less_nat_alt word_le_nat_alt)
  from v have "sq_state s = inflight_state (sq_active_phase s) \<or>
      sq_state s = kCancelRequested \<and> sq_active_plan_sequence s \<noteq> 0 \<and>
      committed_or_in_flight (sq_state_before_cancel s)"
    and "cp_plan_sequence c = sq_active_plan_sequence s"
    by (auto simp: completion_identity_invalid_def Let_def)
  moreover have "valid_phase (sq_active_phase s)" using assms(1) by (simp add: sequence_ok_def)
  ultimately show "sq_state s = kCancelRequested \<and>
        (\<exists>phase stage. stage_of (sq_state_before_cancel s) = Some (phase, stage) \<and> stage \<noteq> Prepared) \<or>
      (\<exists>phase. stage_of (sq_state s) = Some (phase, InFlight) \<and> sq_active_phase s = phase)"
    by (cases "sq_active_phase s") (auto simp: committed_stage valid_phase_def)
qed


section \<open>The invariant\<close>

definition sequence_init :: "ControllerSequence \<Rightarrow> bool" where
  "sequence_init s \<longleftrightarrow> (\<exists>g n v. Admit g n v = Inr s)"

definition sequence_step :: "ControllerSequence \<Rightarrow> ControllerSequence \<Rightarrow> bool" where
  "sequence_step s t \<longleftrightarrow> (\<exists>opn. snd (sequence_apply opn s) = t)"

lemma sequence_ok_init: "sequence_init s \<Longrightarrow> sequence_ok s"
  by (auto simp: sequence_init_def Admit_def sequence_new_def sequence_ok_def ledger_def
      plan_shape_def valid_phase_def unat_gt_0_word split: if_splits)

lemma sequence_ok_prepare: "sequence_ok s \<Longrightarrow> sequence_ok (snd (prepare p phase n s))"
proof -
  assume s: "sequence_ok s"
  then have "sq_next_decode_phase s \<noteq> kPrefill" by (auto simp: sequence_ok_def)
  then show ?thesis
  proof (cases rule: prepare_cases [of s p phase n])
    case rejected
    with s show ?thesis by simp
  next
    case prefill
    with s show ?thesis
      by (clarsimp simp: sequence_ok_def plan_shape_def valid_phase_def unat_gt_0_word)
  next
    case decode
    from decode(5,6) have "unat n \<le> 5" if "sq_next_decode_phase s \<noteq> kPrefill"
      using s by (auto simp: sequence_ok_def word_le_nat_alt)
    with decode s show ?thesis
      by (auto simp: sequence_ok_def plan_shape_def valid_phase_def unat_gt_0_word)
  qed
qed

lemma sequence_ok_staged:
  assumes "sequence_ok s" and "stage_of (sq_state s) = Some (phase, stage)"
    and "stage_of st = Some (phase, stage')"
  shows "sequence_ok (s\<lparr>sq_state := st\<rparr>)"
proof -
  have "plan_shape st (s\<lparr>sq_state := st\<rparr>) \<longleftrightarrow> plan_shape (sq_state s) s"
    using assms(2,3) by (simp add: plan_shape_def)
  with assms show ?thesis
    by (auto simp: sequence_ok_def dest: stage_of_cancel)
qed


lemma plan_shape_cleared:
  "sq_active_plan_sequence s = 0 \<Longrightarrow> plan_shape kDraining s \<and> plan_shape kFailed s \<and>
     plan_shape kCancelled s \<and> plan_shape kCompleted s"
  by (simp add: plan_shape_def)

lemma staged:
  assumes "sequence_ok s" and "stage_of (sq_state s) = Some (phase, stage)"
  shows "sq_active_phase s = phase" and "phase \<in> {kPrefill, kDecode, kVerify}"
    and "\<not> sq_drain_is_cancel s" and "phase = kPrefill \<Longrightarrow> accepted s = 0"
    and "phase \<noteq> kPrefill \<Longrightarrow> accepted s \<noteq> 0"
proof -
  have c: "sq_state s \<noteq> kCancelRequested" "sq_state s \<noteq> kDraining" "\<not> terminal (sq_state s)"
    using stage_of_cancel [OF assms(2)] by simp_all
  show "phase \<in> {kPrefill, kDecode, kVerify}" by (rule stage_of_phase [OF assms(2)])
  show "\<not> sq_drain_is_cancel s" using assms(1) c by (auto simp: sequence_ok_def terminal_def)
  have "plan_shape (sq_state s) s" using assms(1) c by (simp add: sequence_ok_def)
  then show "sq_active_phase s = phase" and "phase = kPrefill \<Longrightarrow> accepted s = 0"
    and "phase \<noteq> kPrefill \<Longrightarrow> accepted s \<noteq> 0"
    using assms(2) by (simp_all add: plan_shape_def)
qed

lemma sequence_ok_commit:
  assumes "sequence_ok s"
  shows "sequence_ok (snd (commit p s))"
proof (cases "\<exists>phase. stage_of (sq_state s) = Some (phase, Prepared)")
  case True
  then obtain phase where g: "stage_of (sq_state s) = Some (phase, Prepared)" by blast
  show ?thesis
    using assms sequence_ok_staged [OF assms g, of "committed_state phase" Committed]
      staged(1,2) [OF assms g]
    by (auto simp: commit_def)
next
  case False
  then show ?thesis using assms by (simp add: commit_def prepared_stage)
qed

lemma sequence_ok_mark:
  assumes "sequence_ok s"
  shows "sequence_ok (snd (mark_in_flight p s))"
proof (cases "\<exists>phase stage. stage_of (sq_state s) = Some (phase, stage)")
  case True
  then obtain phase stage where g: "stage_of (sq_state s) = Some (phase, stage)" by blast
  show ?thesis
    using assms sequence_ok_staged [OF assms g, of "inflight_state phase" InFlight]
      staged(1,2) [OF assms g]
    by (auto simp: mark_in_flight_def)
next
  case False
  then show ?thesis using assms by (simp add: mark_in_flight_def committed_stage)
qed

lemma sequence_ok_abort:
  assumes "sequence_ok s"
  shows "sequence_ok (snd (abort_prepared p s))"
proof (cases "\<exists>phase. stage_of (sq_state s) = Some (phase, Prepared)")
  case True
  then obtain phase where g: "stage_of (sq_state s) = Some (phase, Prepared)" by blast
  note f = staged [OF assms g]
  let ?st = "if phase = kPrefill then kQueuedPrefill else kReadyDecode"
  have "plan_shape ?st (clear_plan (s\<lparr>sq_state := ?st\<rparr>))"
    using f(4,5) by (simp add: plan_shape_def clear_plan_def)
  then have "sequence_ok (clear_plan (s\<lparr>sq_state := ?st\<rparr>))"
    using assms f(3) by (simp add: sequence_ok_def clear_plan_def)
  then show ?thesis using assms f(1) by (simp add: abort_prepared_def)
next
  case False
  then show ?thesis using assms by (simp add: abort_prepared_def prepared_stage)
qed

lemma sequence_okI:
  assumes "sq_sequence_generation s \<noteq> 0" and "0 < prompt s" and "0 < unat (sq_state_generation s)"
    and "valid_phase (sq_active_phase s)"
    and "sq_next_decode_phase s = kDecode \<or> sq_next_decode_phase s = kVerify"
    and "ledger (prompt s) (processed s) (accepted s)"
    and "sq_state s \<noteq> kCancelRequested" and "sq_state s \<noteq> kCancelled"
    and "plan_shape (sq_state s) s"
    and "sq_drain_is_cancel s \<longrightarrow> sq_state s = kDraining"
  shows "sequence_ok s"
  using assms by (simp add: sequence_ok_def)

lemma sequence_ok_complete:
  assumes "sequence_ok s"
  shows "sequence_ok (snd (complete c s))"
proof (cases "ok (validate_completion c s)")
  case True
  note v = valid_completion [OF assms True]
  have "plan_shape (sq_state (completed c s)) (completed c s)"
    using ledger_prefill_iff [OF v(1)] True by (auto simp: plan_shape_def word_less_nat_alt)
  moreover have "sq_drain_is_cancel s \<longrightarrow> sq_state s = kCancelRequested"
    using v(6) staged(3) [OF assms] by blast
  moreover have "valid_phase (sq_active_phase (completed c s))"
    using assms True by (simp add: completed_def complete_def Let_def clear_plan_def sequence_ok_def)
  moreover have "sq_sequence_generation s \<noteq> 0" and "0 < prompt s"
    using assms by (simp_all add: sequence_ok_def)
  ultimately have "sequence_ok (completed c s)"
    using v(1,4,5) True by (intro sequence_okI) simp_all
  then show ?thesis by (simp add: complete_eq(1) [OF True])
next
  case False
  with assms show ?thesis by (simp add: complete_eq)
qed

lemma plan_shape_control [simp]:
  "plan_shape st (s\<lparr>sq_state_before_cancel := a, sq_drain_is_cancel := b, sq_state := c\<rparr>) = plan_shape st s"
  by (cases "stage_of st") (simp_all add: plan_shape_def split_beta)

lemma sequence_ok_cancel: "sequence_ok s \<Longrightarrow> sequence_ok (snd (request_cancel s))"
  by (cases "sq_state s") (simp_all add: request_cancel_def terminal_def sequence_ok_def)

lemma sequence_ok_drain: "sequence_ok s \<Longrightarrow> sequence_ok (snd (begin_draining s))"
  by (auto simp: begin_draining_def sequence_ok_def plan_shape_def clear_plan_def)

lemma sequence_ok_finish:
  "sequence_ok s \<Longrightarrow> sequence_ok (snd (finish_cancel s))"
  "sequence_ok s \<Longrightarrow> sequence_ok (snd (finish_drain s))"
  by (auto simp: finish_cancel_def finish_drain_def sequence_ok_def plan_shape_def)

lemma sequence_ok_fail: "sequence_ok s \<Longrightarrow> sequence_ok (snd (fail s))"
  by (auto simp: fail_def sequence_ok_def plan_shape_def clear_plan_def)

lemmas sequence_ok_operations =
  sequence_ok_prepare sequence_ok_commit sequence_ok_mark sequence_ok_abort sequence_ok_complete
  sequence_ok_cancel sequence_ok_drain sequence_ok_finish sequence_ok_fail

lemma sequence_ok_apply: "sequence_ok s \<Longrightarrow> sequence_ok (snd (sequence_apply opn s))"
  by (cases opn) (simp_all add: sequence_ok_operations)

interpretation sequence: inductive_invariant sequence_init sequence_step sequence_ok
  by unfold_locales (auto simp: sequence_ok_init sequence_step_def sequence_ok_apply)

text \<open>
  C16. In every reachable sequence the ledger holds: before the first output token the model has
  processed fewer tokens than the prompt has, afterwards exactly P + A - 1. A sequence waiting for
  prefill has prompt left and one ready to decode has none, a prepared, committed or in-flight
  prefill plan stays inside the prompt, and a plan is recorded exactly while one is outstanding.
\<close>

theorem sequence_ledger:
  assumes "reachable sequence_init sequence_step s"
  shows "(if accepted s = 0 then processed s < prompt s else processed s = prompt s + accepted s - 1) \<and>
    (sq_state s = kQueuedPrefill \<longrightarrow> processed s < prompt s) \<and>
    (sq_state s = kReadyDecode \<longrightarrow> prompt s \<le> processed s) \<and>
    (sq_state s \<in> {kPrefillPrepared, kPrefillCommitted, kPrefillInFlight} \<longrightarrow>
       processed s + unat (sq_active_real_token_count s) \<le> prompt s) \<and>
    (has_active_plan s \<longleftrightarrow>
       stage_of (if sq_state s = kCancelRequested then sq_state_before_cancel s else sq_state s) \<noteq> None)"
proof -
  have s: "sequence_ok s" by (rule sequence.holds_when_reachable [OF assms])
  then have l: "ledger (prompt s) (processed s) (accepted s)" by (simp add: sequence_ok_def)
  show ?thesis
    using s ledger_prefill_iff [OF l] l
    by (cases "sq_state s")
      (auto simp: sequence_ok_def plan_shape_def ledger_def has_active_plan_def split: option.splits)
qed


section \<open>The abstract life cycle\<close>

datatype life =
    Waiting
  | Planned stage
  | Cancelling "stage option"
  | Draining_for bool
  | Ended ControllerSequenceState

text \<open>
  The specification keeps the prompt length, the phase of life and the ledger, and names the action
  of each step. Only the end of a plan moves the ledger, to another point that satisfies the ledger
  law. Cancelling a second time is the one action that may leave everything as it is.
\<close>

datatype life_action =
    Plan
  | CommitPlan
  | Launch
  | Abandon
  | EndPlan nat nat bool
  | Cancel
  | Drain
  | EndCancelled
  | EndCompleted
  | Break

inductive life_step ::
  "life_action \<Rightarrow> nat \<times> life \<times> nat \<times> nat \<Rightarrow> nat \<times> life \<times> nat \<times> nat \<Rightarrow> bool" where
  plan: "life_step Plan (P, Waiting, K, A) (P, Planned Prepared, K, A)"
| commit_plan: "life_step CommitPlan (P, Planned Prepared, K, A) (P, Planned Committed, K, A)"
| launch: "life_step Launch (P, Planned Committed, K, A) (P, Planned InFlight, K, A)"
| abandon: "life_step Abandon (P, Planned Prepared, K, A) (P, Waiting, K, A)"
| advance: "ledger P K' A' \<Longrightarrow> K \<le> K' \<Longrightarrow> A \<le> A' \<Longrightarrow>
    life_step (EndPlan K' A' last_plan) (P, Planned InFlight, K, A)
      (P, if last_plan then Draining_for False else Waiting, K', A')"
| settle: "ledger P K' A' \<Longrightarrow> K \<le> K' \<Longrightarrow> A \<le> A' \<Longrightarrow> g \<noteq> Prepared \<Longrightarrow>
    life_step (EndPlan K' A' last_plan) (P, Cancelling (Some g), K, A) (P, Draining_for True, K', A')"
| cancel_waiting: "life_step Cancel (P, Waiting, K, A) (P, Cancelling None, K, A)"
| cancel_planned: "life_step Cancel (P, Planned g, K, A) (P, Cancelling (Some g), K, A)"
| cancel_again: "life_step Cancel (P, Cancelling g, K, A) (P, Cancelling g, K, A)"
| drop: "g = None \<or> g = Some Prepared \<Longrightarrow>
    life_step Drain (P, Cancelling g, K, A) (P, Draining_for True, K, A)"
| end_cancelled: "life_step EndCancelled (P, Draining_for True, K, A) (P, Ended kCancelled, K, A)"
| end_completed: "life_step EndCompleted (P, Draining_for False, K, A) (P, Ended kCompleted, K, A)"
| break: "\<not> (\<exists>st. l = Ended st) \<Longrightarrow> life_step Break (P, l, K, A) (P, Ended kFailed, K, A)"

inductive_cases life_step_from_ended: "life_step act (P, Ended st, K, A) x"

inductive_simps life_step_simps:
  "life_step CommitPlan (P, l, K, A) x"
  "life_step Launch (P, l, K, A) x"
  "life_step Abandon (P, l, K, A) x"
  "life_step Cancel (P, l, K, A) x"
  "life_step Drain (P, l, K, A) x"
  "life_step EndCancelled (P, l, K, A) x"
  "life_step EndCompleted (P, l, K, A) x"
  "life_step Break (P, l, K, A) x"

text \<open>The action of each operation, and the plan an operation has to name.\<close>

fun action_of :: "sequence_op \<Rightarrow> life_action" where
  "action_of (Prepare p ph n) = Plan"
| "action_of (Commit p) = CommitPlan"
| "action_of (MarkInFlight p) = Launch"
| "action_of (AbortPrepared p) = Abandon"
| "action_of (Complete c) =
     EndPlan (unat (cp_committed_model_processed_length c)) (unat (cp_accepted_completion_count c))
       (cp_terminal c)"
| "action_of RequestCancel = Cancel"
| "action_of BeginDraining = Drain"
| "action_of FinishCancel = EndCancelled"
| "action_of FinishDrain = EndCompleted"
| "action_of Fail = Break"

fun names_plan :: "sequence_op \<Rightarrow> u64 \<Rightarrow> bool" where
  "names_plan (Commit p) active \<longleftrightarrow> p = active"
| "names_plan (MarkInFlight p) active \<longleftrightarrow> p = active"
| "names_plan (AbortPrepared p) active \<longleftrightarrow> p = active"
| "names_plan _ active \<longleftrightarrow> True"

text \<open>The operations whose only other argument is a plan number.\<close>

fun control_op :: "sequence_op \<Rightarrow> bool" where
  "control_op (Prepare p ph n) \<longleftrightarrow> False"
| "control_op (Complete c) \<longleftrightarrow> False"
| "control_op _ \<longleftrightarrow> True"

definition life_move :: "nat \<times> life \<times> nat \<times> nat \<Rightarrow> nat \<times> life \<times> nat \<times> nat \<Rightarrow> bool" where
  "life_move x y \<longleftrightarrow> (\<exists>act. life_step act x y)"

definition life_init :: "nat \<times> life \<times> nat \<times> nat \<Rightarrow> bool" where
  "life_init x \<longleftrightarrow> (\<exists>P. 0 < P \<and> x = (P, Waiting, 0, 0))"

definition life_of :: "ControllerSequence \<Rightarrow> life" where
  "life_of s =
     (if sq_state s = kCancelRequested
      then Cancelling (map_option snd (stage_of (sq_state_before_cancel s)))
      else if sq_state s = kDraining then Draining_for (sq_drain_is_cancel s)
      else if terminal (sq_state s) then Ended (sq_state s)
      else (case stage_of (sq_state s) of None \<Rightarrow> Waiting | Some (_, g) \<Rightarrow> Planned g))"

definition sequence_abs :: "ControllerSequence \<Rightarrow> nat \<times> life \<times> nat \<times> nat" where
  "sequence_abs s = (prompt s, life_of s, processed s, accepted s)"

lemma life_of_staged: "stage_of (sq_state s) = Some (phase, g) \<Longrightarrow> life_of s = Planned g"
  using stage_of_cancel [of "sq_state s" "(phase, g)"] by (simp add: life_of_def)

lemma life_of_boundary:
  "sq_state s = kQueuedPrefill \<or> sq_state s = kReadyDecode \<Longrightarrow> life_of s = Waiting"
  by (auto simp: life_of_def terminal_def)

lemma sequence_apply_transactional: "transactional s (sequence_apply opn s)"
  by (cases opn)
    (simp_all add: prepare_def commit_def mark_in_flight_def abort_prepared_def complete_def
      request_cancel_def begin_draining_def finish_cancel_def finish_drain_def fail_def
      Let_def checked_add_upto)

lemma refine_prepare:
  assumes "sequence_ok s"
  shows "\<not> ok (fst (prepare p phase n s)) \<or>
    life_step Plan (sequence_abs s) (sequence_abs (snd (prepare p phase n s)))"
proof -
  have next_phase: "sq_next_decode_phase s = kDecode \<or> sq_next_decode_phase s = kVerify"
    using assms by (simp add: sequence_ok_def)
  then have "sq_next_decode_phase s \<noteq> kPrefill" by auto
  then show ?thesis
  proof (cases rule: prepare_cases [of s p phase n])
    case rejected
    then show ?thesis by simp
  next
    case prefill
    then show ?thesis
      by (simp add: sequence_abs_def life_of_boundary life_of_staged plan)
  next
    case decode
    then show ?thesis using next_phase
      by (auto simp: sequence_abs_def life_of_boundary life_of_staged plan)
  qed
qed

lemma refine_commit:
  assumes "sequence_ok s"
  shows "\<not> ok (fst (commit p s)) \<or> life_step CommitPlan (sequence_abs s) (sequence_abs (snd (commit p s)))"
proof (cases "\<exists>phase. stage_of (sq_state s) = Some (phase, Prepared)")
  case True
  then obtain phase where g: "stage_of (sq_state s) = Some (phase, Prepared)" by blast
  with staged(1,2) [OF assms g] show ?thesis
    by (auto simp: commit_def sequence_abs_def life_of_staged commit_plan)
next
  case False
  then show ?thesis by (simp add: commit_def prepared_stage)
qed

lemma refine_mark:
  assumes "sequence_ok s"
  shows "\<not> ok (fst (mark_in_flight p s)) \<or>
    life_step Launch (sequence_abs s) (sequence_abs (snd (mark_in_flight p s)))"
proof (cases "\<exists>phase. stage_of (sq_state s) = Some (phase, Committed)")
  case True
  then obtain phase where g: "stage_of (sq_state s) = Some (phase, Committed)" by blast
  with staged(1,2) [OF assms g] show ?thesis
    by (auto simp: mark_in_flight_def sequence_abs_def life_of_staged launch)
next
  case False
  have "sq_state s = inflight_state (sq_active_phase s)" if "committed_or_in_flight (sq_state s)"
  proof -
    from that obtain phase stage where g: "stage_of (sq_state s) = Some (phase, stage)" and "stage \<noteq> Prepared"
      by (auto simp: committed_stage)
    with False have "stage = InFlight" by (cases stage) auto
    with stage_of_inflight [OF g] staged(1) [OF assms g]
    show "sq_state s = inflight_state (sq_active_phase s)" by simp
  qed
  then show ?thesis by (auto simp: mark_in_flight_def)
qed


lemma refine_abort:
  assumes "sequence_ok s"
  shows "\<not> ok (fst (abort_prepared p s)) \<or>
    life_step Abandon (sequence_abs s) (sequence_abs (snd (abort_prepared p s)))"
proof (cases "\<exists>phase. stage_of (sq_state s) = Some (phase, Prepared)")
  case True
  then obtain phase where g: "stage_of (sq_state s) = Some (phase, Prepared)" by blast
  then show ?thesis
    by (auto simp: abort_prepared_def sequence_abs_def life_of_staged life_of_boundary clear_plan_def
        abandon)
next
  case False
  then show ?thesis by (simp add: abort_prepared_def prepared_stage)
qed

lemma refine_complete:
  assumes "sequence_ok s"
  shows "\<not> ok (fst (complete c s)) \<or>
    life_step (action_of (Complete c)) (sequence_abs s) (sequence_abs (snd (complete c s)))"
proof (cases "ok (validate_completion c s)")
  case True
  note v = valid_completion [OF assms True]
  let ?K = "unat (cp_committed_model_processed_length c)"
  let ?A = "unat (cp_accepted_completion_count c)"
  from v(6) have "life_step (action_of (Complete c)) (sequence_abs s) (sequence_abs (completed c s))"
  proof
    assume c: "sq_state s = kCancelRequested \<and>
      (\<exists>phase stage. stage_of (sq_state_before_cancel s) = Some (phase, stage) \<and> stage \<noteq> Prepared)"
    then obtain g where "life_of s = Cancelling (Some g)" and "g \<noteq> Prepared"
      by (auto simp: life_of_def)
    moreover have "sq_drain_is_cancel s" using assms c by (simp add: sequence_ok_def)
    with c True have "life_of (completed c s) = Draining_for True" by (simp add: life_of_def)
    ultimately show ?thesis
      using v(1,2,3) True by (simp add: sequence_abs_def settle)
  next
    assume "\<exists>phase. stage_of (sq_state s) = Some (phase, InFlight) \<and> sq_active_phase s = phase"
    then obtain phase where g: "stage_of (sq_state s) = Some (phase, InFlight)" by blast
    have d: "\<not> sq_drain_is_cancel s" and n: "sq_state s \<noteq> kCancelRequested"
      using staged(3) [OF assms g] stage_of_cancel [OF g] by simp_all
    have "life_of (completed c s) = (if cp_terminal c then Draining_for False else Waiting)"
      using True d n by (auto simp: life_of_def terminal_def)
    then show ?thesis
      using v(1,2,3) True g advance [of "prompt s" ?K ?A "processed s" "accepted s" "cp_terminal c"]
      by (simp add: sequence_abs_def life_of_staged)
  qed
  then show ?thesis by (simp add: complete_eq(1) [OF True])
next
  case False
  then show ?thesis by (simp add: complete_eq)
qed

lemma refine_cancel:
  "\<not> ok (fst (request_cancel s)) \<or>
    life_step Cancel (sequence_abs s) (sequence_abs (snd (request_cancel s)))"
proof (cases "terminal (sq_state s) \<or> sq_state s = kDraining \<or> sq_state s = kCancelRequested")
  case True
  then show ?thesis
    by (auto simp: request_cancel_def sequence_abs_def life_of_def terminal_def cancel_again)
next
  case False
  then show ?thesis
  proof (cases "stage_of (sq_state s)")
    case None
    with False show ?thesis
      by (simp add: request_cancel_def sequence_abs_def life_of_def cancel_waiting)
  next
    case (Some x)
    with False show ?thesis
      by (cases x) (simp add: request_cancel_def sequence_abs_def life_of_def cancel_planned)
  qed
qed

lemma refine_drain:
  assumes "sequence_ok s"
  shows "\<not> ok (fst (begin_draining s)) \<or>
    life_step Drain (sequence_abs s) (sequence_abs (snd (begin_draining s)))"
proof (cases "ok (fst (begin_draining s))")
  case True
  then have c: "sq_state s = kCancelRequested"
    and "sq_active_plan_sequence s = 0 \<or> prepared (sq_state_before_cancel s)"
    by (auto simp: begin_draining_def prepared_def split: if_splits)
  then have "map_option snd (stage_of (sq_state_before_cancel s)) = None \<or>
      map_option snd (stage_of (sq_state_before_cancel s)) = Some Prepared"
    using assms
    by (auto simp: sequence_ok_def plan_shape_def prepared_stage split: option.splits)
  moreover have "sq_drain_is_cancel s" using assms c by (simp add: sequence_ok_def)
  ultimately show ?thesis using c True
    by (auto simp: begin_draining_def sequence_abs_def life_of_def clear_plan_def
        intro: drop split: if_splits)
next
  case False
  then show ?thesis by (auto simp: begin_draining_def split: if_splits)
qed

lemma refine_finish:
  "\<not> ok (fst (finish_cancel s)) \<or> life_step EndCancelled (sequence_abs s) (sequence_abs (snd (finish_cancel s)))"
  "\<not> ok (fst (finish_drain s)) \<or> life_step EndCompleted (sequence_abs s) (sequence_abs (snd (finish_drain s)))"
  by (auto simp: finish_cancel_def finish_drain_def sequence_abs_def life_of_def terminal_def
      intro: end_cancelled end_completed)

lemma refine_fail:
  "\<not> ok (fst (fail s)) \<or> life_step Break (sequence_abs s) (sequence_abs (snd (fail s)))"
proof (cases "terminal (sq_state s)")
  case True
  then show ?thesis by (simp add: fail_def)
next
  case False
  then have "\<not> (\<exists>st. life_of s = Ended st)"
    by (auto simp: life_of_def split: option.splits)
  then show ?thesis
    by (simp add: fail_def False sequence_abs_def clear_plan_def life_of_def [of "s\<lparr>sq_active_plan_sequence := 0, sq_active_real_token_count := 0, sq_state := kFailed\<rparr>"]
        terminal_def break)
qed

lemmas refine_operations =
  refine_prepare refine_commit refine_mark refine_abort refine_complete refine_cancel refine_drain
  refine_finish refine_fail

lemma refine_apply:
  "sequence_ok s \<Longrightarrow> \<not> ok (fst (sequence_apply opn s)) \<or>
     life_step (action_of opn) (sequence_abs s) (sequence_abs (snd (sequence_apply opn s)))"
  by (cases opn) (simp_all add: refine_operations refine_complete [unfolded action_of.simps] del: disj_not1)

interpretation sequence_life: refinement_map sequence_init sequence_step sequence_ok
  life_init life_move sequence_abs
proof (unfold_locales, goal_cases)
  case (1 s)
  then show ?case
    by (auto simp: sequence_init_def Admit_def sequence_new_def life_init_def sequence_abs_def
        life_of_def terminal_def unat_gt_0_word split: if_splits)
next
  case (2 s t)
  then obtain opn where "snd (sequence_apply opn s) = t" by (auto simp: sequence_step_def)
  with refine_apply [OF 2(1), of opn] sequence_apply_transactional [of s opn]
  show ?case by (auto simp: transactional_def life_move_def)
qed

text \<open>The control operations are accepted whenever the specification has a step for them.\<close>

lemma life_of_stage:
  assumes "life_of s = Planned g"
  obtains phase where "stage_of (sq_state s) = Some (phase, g)"
  using assms by (auto simp: life_of_def split: if_splits option.splits)

lemma accepts_control:
  assumes ok: "sequence_ok s" and "control_op opn" and "names_plan opn (sq_active_plan_sequence s)"
    and "life_step (action_of opn) (sequence_abs s) x"
  shows "ok (fst (sequence_apply opn s))"
proof (cases opn)
  case (Commit p)
  with assms obtain phase where "stage_of (sq_state s) = Some (phase, Prepared)"
    by (auto simp: sequence_abs_def life_step_simps elim: life_of_stage)
  with Commit assms(3) show ?thesis by (auto simp: commit_def prepared_stage)
next
  case (MarkInFlight p)
  with assms obtain phase where g: "stage_of (sq_state s) = Some (phase, Committed)"
    by (auto simp: sequence_abs_def life_step_simps elim: life_of_stage)
  moreover have "sq_state s \<noteq> inflight_state (sq_active_phase s)"
    using staged(1) [OF ok g] g stage_of_phase [OF g] by auto
  ultimately show ?thesis
    using MarkInFlight assms(3) by (auto simp: mark_in_flight_def committed_stage)
next
  case (AbortPrepared p)
  with assms obtain phase where "stage_of (sq_state s) = Some (phase, Prepared)"
    by (auto simp: sequence_abs_def life_step_simps elim: life_of_stage)
  with AbortPrepared assms(3) show ?thesis by (auto simp: abort_prepared_def prepared_stage)
next
  case RequestCancel
  with assms(4) show ?thesis
    by (auto simp: request_cancel_def sequence_abs_def life_step_simps life_of_def terminal_def
        split: if_splits)
next
  case BeginDraining
  with assms(4) have c: "sq_state s = kCancelRequested"
    and g: "map_option snd (stage_of (sq_state_before_cancel s)) = None \<or>
      map_option snd (stage_of (sq_state_before_cancel s)) = Some Prepared"
    by (auto simp: sequence_abs_def life_step_simps life_of_def split: if_splits option.splits)
  with ok have "sq_active_plan_sequence s = 0 \<or> prepared (sq_state_before_cancel s)"
    by (auto simp: sequence_ok_def plan_shape_def prepared_stage split: option.splits)
  with BeginDraining c show ?thesis by (auto simp: begin_draining_def prepared_def)
qed (use assms in \<open>auto simp: sequence_abs_def life_step_simps life_of_def finish_cancel_def finish_drain_def
    fail_def terminal_def split: if_splits option.splits\<close>)

text \<open>
  C17. Every operation of a reachable sequence implements its own action of the abstract life cycle:
  an error leaves the sequence untouched, and a success is a step of the specification under the
  action of that operation, with the ledger a completion carries. Conversely, commit, launch, abort,
  cancel, drain, finish and fail are accepted exactly when the specification has a step for their
  action and they name the active plan; in particular a cancellation is accepted, and stops the
  sequence, everywhere but in a draining or ended sequence.
\<close>

theorem sequence_refines_life:
  assumes "reachable sequence_init sequence_step s" and "sequence_apply opn s = (e, t)"
  shows "(\<not> ok e \<longrightarrow> t = s) \<and>
    (ok e \<longrightarrow> life_step (action_of opn) (sequence_abs s) (sequence_abs t)) \<and>
    (control_op opn \<longrightarrow>
       (ok e \<longleftrightarrow> names_plan opn (sq_active_plan_sequence s) \<and>
                 (\<exists>x. life_step (action_of opn) (sequence_abs s) x)))"
proof -
  have s: "sequence_ok s" by (rule sequence.holds_when_reachable [OF assms(1)])
  have "transactional s (e, t)" using sequence_apply_transactional [of s opn] assms(2) by simp
  then have err: "\<not> ok e \<longrightarrow> t = s" by (auto simp: transactional_def)
  have step: "ok e \<longrightarrow> life_step (action_of opn) (sequence_abs s) (sequence_abs t)"
    using refine_apply [OF s, of opn] assms(2) by auto
  have "names_plan opn (sq_active_plan_sequence s)" if "ok e"
    using that assms(2) by (cases opn)
      (auto simp: commit_def mark_in_flight_def abort_prepared_def split: if_splits)
  moreover have "ok e" if "control_op opn" "names_plan opn (sq_active_plan_sequence s)"
    "life_step (action_of opn) (sequence_abs s) x" for x
    using accepts_control [OF s that] assms(2) by simp
  ultimately show ?thesis using err step by blast
qed


lemma life_run_ended:
  "life_move\<^sup>*\<^sup>* (P, Ended st, K, A) x \<Longrightarrow> x = (P, Ended st, K, A)"
  by (induction rule: rtranclp_induct) (auto simp: life_move_def elim: life_step_from_ended)

definition giving_up :: "life \<Rightarrow> bool" where
  "giving_up l \<longleftrightarrow>
     (\<exists>g. l = Cancelling g) \<or> l = Draining_for True \<or> l = Ended kCancelled \<or> l = Ended kFailed"

lemma life_run_giving_up:
  "life_move\<^sup>*\<^sup>* x y \<Longrightarrow> giving_up (fst (snd x)) \<Longrightarrow> giving_up (fst (snd y))"
  by (induction rule: rtranclp_induct) (auto simp: giving_up_def life_move_def elim!: life_step.cases)

lemma life_run_mono:
  "life_move\<^sup>*\<^sup>* x y \<Longrightarrow> fst y = fst x \<and> fst (snd (snd x)) \<le> fst (snd (snd y)) \<and>
     snd (snd (snd x)) \<le> snd (snd (snd y))"
  by (induction rule: rtranclp_induct) (auto simp: life_move_def elim!: life_step.cases)

lemma giving_up_iff: "sequence_ok s \<Longrightarrow> sq_drain_is_cancel s \<Longrightarrow> giving_up (life_of s)"
  by (auto simp: sequence_ok_def giving_up_def life_of_def terminal_def split: if_splits)

text \<open>
  C18. Over any further history of a reachable sequence the prompt stays, the processed length and
  the accepted count never go back, a terminal state is final together with its ledger, and a
  sequence whose cancellation was requested never ends as completed.
\<close>

theorem sequence_history:
  assumes "reachable sequence_init sequence_step s" and "sequence_step\<^sup>*\<^sup>* s t"
  shows "prompt t = prompt s \<and> processed s \<le> processed t \<and> accepted s \<le> accepted t \<and>
    (terminal (sq_state s) \<longrightarrow>
       sq_state t = sq_state s \<and> processed t = processed s \<and> accepted t = accepted s) \<and>
    (sq_drain_is_cancel s \<longrightarrow> sq_state t \<noteq> kCompleted)"
proof -
  have s: "sequence_ok s" by (rule sequence.holds_when_reachable [OF assms(1)])
  have run: "life_move\<^sup>*\<^sup>* (sequence_abs s) (sequence_abs t)"
    by (rule sequence_life.run_refines [OF assms(2) s])
  have "sq_state t = sq_state s \<and> processed t = processed s \<and> accepted t = accepted s"
    if "terminal (sq_state s)"
  proof -
    from that have "sequence_abs s = (prompt s, Ended (sq_state s), processed s, accepted s)"
      by (auto simp: sequence_abs_def life_of_def terminal_def)
    with run life_run_ended
    have t: "sequence_abs t = (prompt s, Ended (sq_state s), processed s, accepted s)" by metis
    then have "life_of t = Ended (sq_state s)" by (simp add: sequence_abs_def)
    then have "sq_state t = sq_state s" by (auto simp: life_of_def split: if_splits option.splits)
    with t show ?thesis by (simp add: sequence_abs_def)
  qed
  moreover have "sq_state t \<noteq> kCompleted" if "sq_drain_is_cancel s"
    using life_run_giving_up [OF run] giving_up_iff [OF s that]
    by (auto simp: sequence_abs_def giving_up_def life_of_def terminal_def)
  ultimately show ?thesis
    using life_run_mono [OF run] by (simp add: sequence_abs_def)
qed

section \<open>The scheduling queries agree with the operations\<close>

lemma next_count_bounds:
  assumes "sequence_ok s" and "next_real_token_count m v s = Inr n"
  shows "sq_state s = kQueuedPrefill \<and> ready_phase s = Inr kPrefill \<and>
      unat n = min (prompt s - processed s) (unat m) \<and> 0 < unat n \<or>
    sq_state s = kReadyDecode \<and> ready_phase s = Inr (sq_next_decode_phase s) \<and>
      sq_next_decode_phase s \<noteq> kPrefill \<and> n \<noteq> 0 \<and>
      (if sq_next_decode_phase s = kDecode then n = 1 else n \<le> 5)"
proof (cases "sq_state s = kQueuedPrefill")
  case True
  let ?r = "sq_prompt_token_count s - sq_model_processed_length s"
  from True assms(2) have lt: "sq_model_processed_length s < sq_prompt_token_count s"
    and n: "n = ucast (min ?r (ucast m))" and "m \<noteq> 0"
    by (auto simp: next_real_token_count_def ready_phase_def Let_def not_le split: if_splits)
  have r: "unat ?r = prompt s - processed s" using lt by (simp add: unat_sub)
  have "unat (min ?r (ucast m)) = min (unat ?r) (unat m)"
    by (simp add: min_def word_le_nat_alt)
  moreover have "min (unat ?r) (unat m) < 2 ^ 32" using unat_lt_u32 [of m] by simp
  ultimately have "unat n = min (unat ?r) (unat m)"
    unfolding n by (simp add: unsigned_ucast_eq take_bit_nat_eq_self)
  moreover have "0 < unat ?r" using lt r by (simp add: word_less_nat_alt)
  ultimately show ?thesis
    using True r \<open>m \<noteq> 0\<close> by (simp add: ready_phase_def unat_gt_0_word)
next
  case False
  with assms show ?thesis
    by (auto simp: next_real_token_count_def ready_phase_def sequence_ok_def not_less split: if_splits)
qed


text \<open>The chain of calls that takes a boundary sequence to a plan in flight.\<close>

lemma launch_plan:
  assumes "sequence_ok s" and "next_real_token_count m v s = Inr n" and "p \<noteq> 0"
    and "ready_phase s = Inr phase"
  defines "t \<equiv> s\<lparr>sq_active_plan_sequence := p, sq_active_real_token_count := n,
    sq_active_phase := phase, sq_state := inflight_state phase\<rparr>"
  shows "fst (prepare p phase n s) = Ok"
    and "fst (commit p (snd (prepare p phase n s))) = Ok"
    and "mark_in_flight p (snd (commit p (snd (prepare p phase n s)))) = (Ok, t)"
    and "sequence_ok t"
proof -
  note nb = next_count_bounds [OF assms(1,2)]
  have c: "sq_active_plan_sequence s = 0"
    using assms(1) nb by (auto simp: sequence_ok_def plan_shape_def)
  have ph: "phase = kPrefill \<or> phase = kDecode \<or> phase = kVerify"
    using assms(1,4) nb by (auto simp: sequence_ok_def)
  have le: "processed s + unat n \<le> prompt s" if "sq_state s = kQueuedPrefill"
    using nb that by auto
  have prep: "prepare p phase n s =
      (Ok, s\<lparr>sq_active_plan_sequence := p, sq_active_real_token_count := n,
        sq_active_phase := phase, sq_state := prepared_state phase\<rparr>)"
    using nb le c assms(3,4)
    by (auto simp: prepare_def Let_def checked_add_upto unat_gt_0_word not_less split: if_splits)
  then show "fst (prepare p phase n s) = Ok" by simp
  have com: "commit p (snd (prepare p phase n s)) =
      (Ok, s\<lparr>sq_active_plan_sequence := p, sq_active_real_token_count := n,
        sq_active_phase := phase, sq_state := committed_state phase\<rparr>)"
    using ph unfolding prep by (auto simp: commit_def prepared_def)
  then show "fst (commit p (snd (prepare p phase n s))) = Ok" by simp
  show mark: "mark_in_flight p (snd (commit p (snd (prepare p phase n s)))) = (Ok, t)"
    using ph unfolding com t_def by (auto simp: mark_in_flight_def committed_or_in_flight_def)
  have "sequence_ok (snd (prepare p phase n s))" by (rule sequence_ok_prepare [OF assms(1)])
  then have "sequence_ok (snd (commit p (snd (prepare p phase n s))))" by (rule sequence_ok_commit)
  then have "sequence_ok (snd (mark_in_flight p (snd (commit p (snd (prepare p phase n s))))))"
    by (rule sequence_ok_mark)
  then show "sequence_ok t" unfolding mark by simp
qed

text \<open>The output tokens a completion adds, and the completion that adds \<open>a\<close> of them.\<close>

definition new_tokens :: "ControllerSequence \<Rightarrow> ControllerPlanCompletion \<Rightarrow> nat" where
  "new_tokens s c = unat (cp_accepted_completion_count c) - accepted s"

definition new_token_limit :: "PackedTokenPhase \<Rightarrow> bool \<Rightarrow> u32 \<Rightarrow> nat" where
  "new_token_limit phase logits n = (if \<not> logits then 0 else if phase = kPrefill then 1 else unat n)"

definition full_completion :: "nat \<Rightarrow> ControllerSequence \<Rightarrow> ControllerPlanCompletion" where
  "full_completion a s =
     \<lparr>cp_plan_sequence = sq_active_plan_sequence s,
      cp_sequence_generation = sq_sequence_generation s,
      cp_committed_model_processed_length =
        sq_model_processed_length s + ucast (sq_active_real_token_count s),
      cp_accepted_completion_count = sq_accepted_completion_count s + of_nat a,
      cp_state_generation = sq_state_generation s + 1,
      cp_next_decode_phase = kDecode,
      cp_terminal = False\<rparr>"

lemma full_completion_accepted:
  assumes "sq_state s = inflight_state (sq_active_phase s)"
    and "unat (sq_state_generation s) + 1 < 2 ^ 64"
    and "processed s + unat (sq_active_real_token_count s) < 2 ^ 64" and "accepted s + a < 2 ^ 64"
    and "sq_active_phase s = kPrefill \<Longrightarrow> processed s + unat (sq_active_real_token_count s) \<le> prompt s"
    and "ledger (prompt s) (processed s + unat (sq_active_real_token_count s)) (accepted s + a)"
  shows "ok (validate_completion (full_completion a s) s)"
    and "new_tokens s (full_completion a s) = a"
proof -
  let ?c = "full_completion a s"
  have K: "unat (cp_committed_model_processed_length ?c) = processed s + unat (sq_active_real_token_count s)"
    using assms(3) unat_add_u64 [of "sq_model_processed_length s" "ucast (sq_active_real_token_count s)"]
    by (simp add: full_completion_def)
  have "unat (of_nat a :: u64) = a" using assms(4) by (simp add: unat_of_nat take_bit_nat_eq_self)
  then have A: "unat (cp_accepted_completion_count ?c) = accepted s + a"
    using assms(4) unat_add_u64 [of "sq_accepted_completion_count s" "of_nat a"]
    by (simp add: full_completion_def)
  have g: "sq_state_generation s < cp_state_generation ?c"
    using assms(2) unat_add_u64 [of "sq_state_generation s" 1]
    by (simp add: full_completion_def word_less_nat_alt)
  have "\<not> completion_identity_invalid ?c s"
    using assms(1) g K A
    by (auto simp: completion_identity_invalid_def Let_def word_le_nat_alt word_less_nat_alt
        full_completion_def simp del: unat_add_lem)
  then show "ok (validate_completion ?c s)"
    using assms(3,5,6) by (simp add: validate_completion_ok_iff K A)
  show "new_tokens s ?c = a" by (simp add: new_tokens_def A)
qed

lemma completion_new_tokens:
  assumes ok: "sequence_ok s" and v: "ok (validate_completion c s)"
    and count: "sq_active_phase s = kPrefill \<Longrightarrow>
      accepted s = 0 \<and> processed s + unat (sq_active_real_token_count s) \<le> prompt s"
    and later: "sq_active_phase s \<noteq> kPrefill \<Longrightarrow> accepted s \<noteq> 0"
  shows "if sq_active_phase s = kPrefill
    then new_tokens s c = (if processed s + unat (sq_active_real_token_count s) = prompt s then 1 else 0)
    else new_tokens s c \<le> unat (sq_active_real_token_count s)"
proof -
  note vc = valid_completion [OF ok v]
  have l: "ledger (prompt s) (processed s) (accepted s)" using ok by (simp add: sequence_ok_def)
  show ?thesis
    using v vc(1,3) l count later
    by (auto simp: validate_completion_ok_iff new_tokens_def ledger_def split: if_splits)
qed

text \<open>
  C19. The scheduling queries are honest. Whenever the next token count of a reachable sequence is
  reported, it respects the chunk, prompt and verification bounds, and a plan with the reported phase
  and count is accepted, commits and launches. The logits query says whether that plan can add output
  tokens: no completion the sequence accepts for it adds a token when the query says no; when it says
  yes, a prefill plan adds exactly the first token and a decode or verify plan at most its count
  (possibly none), and there is a completion that is accepted and adds that many, unless a 64-bit
  counter is exhausted.
\<close>

theorem scheduling_query_honest:
  assumes "reachable sequence_init sequence_step s" and "next_real_token_count m v s = Inr n"
    and "p \<noteq> 0"
  shows "\<exists>phase logits t1 t2 t.
    ready_phase s = Inr phase \<and> next_plan_produces_logits m v s = Inr logits \<and>
    (if phase = kPrefill then n \<le> m \<and> processed s + unat n \<le> prompt s
     else if phase = kDecode then n = 1 else n \<le> 5) \<and>
    prepare p phase n s = (Ok, t1) \<and> commit p t1 = (Ok, t2) \<and> mark_in_flight p t2 = (Ok, t) \<and>
    (\<forall>c. ok (validate_completion c t) \<longrightarrow>
       (if phase = kPrefill then new_tokens s c = new_token_limit phase logits n
        else new_tokens s c \<le> new_token_limit phase logits n)) \<and>
    (unat (sq_state_generation s) + 1 < 2 ^ 64 \<and> processed s + unat n < 2 ^ 64 \<longrightarrow>
       (\<exists>c. ok (validate_completion c t) \<and> new_tokens s c = new_token_limit phase logits n))"
proof -
  have s: "sequence_ok s" by (rule sequence.holds_when_reachable [OF assms(1)])
  then have l: "ledger (prompt s) (processed s) (accepted s)" and P: "0 < prompt s"
    by (simp_all add: sequence_ok_def)
  note nb = next_count_bounds [OF s assms(2)]
  then obtain phase where ph: "ready_phase s = Inr phase" by blast
  define t where "t = s\<lparr>sq_active_plan_sequence := p, sq_active_real_token_count := n,
    sq_active_phase := phase, sq_state := inflight_state phase\<rparr>"
  note launched = launch_plan [OF s assms(2,3) ph, folded t_def]
  define logits where "logits \<longleftrightarrow> phase \<noteq> kPrefill \<or>
    sq_model_processed_length s + ucast n = sq_prompt_token_count s"
  have lg: "next_plan_produces_logits m v s = Inr logits"
    using assms(2) ph by (simp add: next_plan_produces_logits_def logits_def)
  have bounds: "if phase = kPrefill then n \<le> m \<and> processed s + unat n \<le> prompt s
     else if phase = kDecode then n = 1 else n \<le> 5"
    using nb ph by (auto simp: word_le_nat_alt split: if_splits)
  have pre: "accepted s = 0 \<and> processed s + unat n \<le> prompt s" if "phase = kPrefill"
    using that nb ph s bounds by (auto simp: sequence_ok_def plan_shape_def)
  have post: "accepted s \<noteq> 0" if "phase \<noteq> kPrefill"
    using that nb ph s by (auto simp: sequence_ok_def plan_shape_def)
  have lgp: "logits \<longleftrightarrow> processed s + unat n = prompt s" if "phase = kPrefill"
    using pre [OF that] that unat_lt_u64 [of "sq_prompt_token_count s"]
      unat_add_u64 [of "sq_model_processed_length s" "ucast n"]
    by (auto simp: logits_def word_unat_eq_iff)
  have lim: "new_token_limit phase logits n =
      (if phase = kPrefill then if processed s + unat n = prompt s then 1 else 0 else unat n)"
    using lgp by (auto simp: new_token_limit_def logits_def)
  have "if phase = kPrefill then new_tokens s c = new_token_limit phase logits n
      else new_tokens s c \<le> new_token_limit phase logits n" if "ok (validate_completion c t)" for c
    unfolding lim using completion_new_tokens [OF launched(4) that] pre post
    by (simp add: t_def new_tokens_def split: if_splits)
  moreover have "\<exists>c. ok (validate_completion c t) \<and> new_tokens s c = new_token_limit phase logits n"
    if g: "unat (sq_state_generation s) + 1 < 2 ^ 64" "processed s + unat n < 2 ^ 64"
  proof (intro exI conjI)
    let ?a = "new_token_limit phase logits n"
    have "ledger (prompt s) (processed s + unat n) (accepted s + ?a)"
      unfolding lim using l pre post by (auto simp: ledger_def)
    moreover have "accepted s + ?a < 2 ^ 64" unfolding lim using l g(2) P pre post by (auto simp: ledger_def)
    ultimately show "ok (validate_completion (full_completion ?a t) t)"
      and "new_tokens s (full_completion ?a t) = ?a"
      using full_completion_accepted [of t ?a] g pre by (simp_all add: t_def new_tokens_def)
  qed
  moreover obtain t1 t2 where "prepare p phase n s = (Ok, t1)" "commit p t1 = (Ok, t2)"
    "mark_in_flight p t2 = (Ok, t)"
    using launched(1-3) by (metis prod.collapse)
  ultimately show ?thesis
    using ph lg bounds
    by (intro exI [of _ phase] exI [of _ logits] exI [of _ t1] exI [of _ t2] exI [of _ t]) blast
qed


section \<open>Chunked prefill reaches the decode boundary\<close>

text \<open>
  One turn of the controller over a queued sequence: ask for the next count, prepare, commit,
  launch and complete the plan with the completion the worker owes for it. \<open>None\<close> is any refusal.
\<close>

definition prefill_completion :: "u64 \<Rightarrow> ControllerSequence \<Rightarrow> ControllerPlanCompletion" where
  "prefill_completion p s =
     (let k = sq_model_processed_length s + ucast (sq_active_real_token_count s)
      in \<lparr>cp_plan_sequence = p,
          cp_sequence_generation = sq_sequence_generation s,
          cp_committed_model_processed_length = k,
          cp_accepted_completion_count = (if k = sq_prompt_token_count s then 1 else 0),
          cp_state_generation = sq_state_generation s + 1,
          cp_next_decode_phase = kDecode,
          cp_terminal = False\<rparr>)"

definition prefill_turn :: "u32 \<Rightarrow> u64 \<Rightarrow> ControllerSequence \<Rightarrow> ControllerSequence option" where
  "prefill_turn m p s =
     (case next_real_token_count m 0 s of
        Inl _ \<Rightarrow> None
      | Inr n \<Rightarrow>
          (case prepare p kPrefill n s of (e1, s1) \<Rightarrow>
           case commit p s1 of (e2, s2) \<Rightarrow>
           case mark_in_flight p s2 of (e3, s3) \<Rightarrow>
           case complete (prefill_completion p s3) s3 of (e4, s4) \<Rightarrow>
             if ok e1 \<and> ok e2 \<and> ok e3 \<and> ok e4 then Some s4 else None))"

primrec prefill_turns :: "nat \<Rightarrow> u32 \<Rightarrow> u64 \<Rightarrow> ControllerSequence \<Rightarrow> ControllerSequence option" where
  "prefill_turns 0 m p s = Some s"
| "prefill_turns (Suc k) m p s = Option.bind (prefill_turn m p s) (prefill_turns k m p)"

lemma prefill_turn_advances:
  assumes "sequence_ok s" and "sq_state s = kQueuedPrefill" and "m \<noteq> 0" and "p \<noteq> 0"
    and "unat (sq_state_generation s) + 1 < 2 ^ 64"
  obtains t where "prefill_turn m p s = Some t" and "sequence_ok t" and "prompt t = prompt s"
    and "processed t = min (processed s + unat m) (prompt s)"
    and "sq_state t = (if processed t < prompt s then kQueuedPrefill else kReadyDecode)"
    and "accepted t = (if processed t < prompt s then 0 else 1)"
    and "unat (sq_state_generation t) = unat (sq_state_generation s) + 1"
proof -
  have lt: "processed s < prompt s" and gen: "0 < unat (sq_state_generation s)"
    using assms(1,2) ledger_prefill_iff [of "prompt s" "processed s" "accepted s"]
    by (auto simp: sequence_ok_def plan_shape_def)
  have ph: "ready_phase s = Inr kPrefill" using assms(2) by (simp add: ready_phase_def)
  obtain n where n: "next_real_token_count m 0 s = Inr n"
    using lt assms(2,3) by (auto simp: next_real_token_count_def ready_phase_def Let_def word_le_nat_alt)
  with next_count_bounds [OF assms(1) n] assms(2)
  have un: "unat n = min (prompt s - processed s) (unat m)" by simp
  define u where "u = s\<lparr>sq_active_plan_sequence := p, sq_active_real_token_count := n,
    sq_active_phase := kPrefill, sq_state := inflight_state kPrefill\<rparr>"
  note l = launch_plan [OF assms(1) n assms(4) ph, folded u_def]
  define c where "c = prefill_completion p u"
  have k: "unat (cp_committed_model_processed_length c) = processed s + unat n"
    using un lt unat_lt_u64 [of "sq_prompt_token_count s"]
      unat_add_u64 [of "sq_model_processed_length s" "ucast n"]
    by (simp add: c_def prefill_completion_def u_def Let_def)
  have full: "cp_accepted_completion_count c = (if processed s + unat n = prompt s then 1 else 0)"
    using k by (simp add: c_def prefill_completion_def u_def Let_def word_unat_eq_iff)
  have g: "unat (cp_state_generation c) = unat (sq_state_generation s) + 1"
    using assms(5) by (simp add: c_def prefill_completion_def u_def Let_def unat_word_ariths)
  have "accepted s = 0" using assms(1,2) by (simp add: sequence_ok_def plan_shape_def)
  then have "\<not> completion_identity_invalid c u"
    using k g by (simp add: completion_identity_invalid_def Let_def word_le_nat_alt word_less_nat_alt)
      (simp add: u_def c_def prefill_completion_def Let_def)
  then have v: "ok (validate_completion c u)"
    using k full un lt by (auto simp: validate_completion_ok_iff u_def ledger_def)
  have "prefill_turn m p s = Some (completed c u)"
    using l(1-3) complete_eq(1) [OF v] n
    by (simp add: prefill_turn_def split_beta c_def)
  moreover have "sequence_ok (completed c u)"
    using sequence_ok_complete [OF l(4), of c] complete_eq(1) [OF v] by simp
  moreover have "prompt (completed c u) = prompt s" using v by (simp add: u_def)
  moreover have pr: "processed (completed c u) = processed s + unat n" using v k by simp
  then have "processed (completed c u) = min (processed s + unat m) (prompt s)" using un lt by auto
  moreover have "sq_state (completed c u) =
      (if processed (completed c u) < prompt s then kQueuedPrefill else kReadyDecode)"
  proof -
    have "\<not> cp_terminal c" by (simp add: c_def prefill_completion_def Let_def)
    moreover have "sq_state u \<noteq> kCancelRequested" and "sq_prompt_token_count u = sq_prompt_token_count s"
      by (simp_all add: u_def)
    ultimately show ?thesis using v by (simp add: word_less_nat_alt)
  qed
  moreover have "accepted (completed c u) = (if processed (completed c u) < prompt s then 0 else 1)"
    using v k full un lt by auto
  moreover have "unat (sq_state_generation (completed c u)) = unat (sq_state_generation s) + 1"
    using v g by simp
  ultimately show ?thesis by (rule that)
qed


lemma prefill_turns_finish:
  assumes "sequence_ok s" and "sq_state s = kQueuedPrefill" and "m \<noteq> 0" and "p \<noteq> 0"
    and "prompt s - processed s \<le> k * unat m" and "(k - 1) * unat m < prompt s - processed s"
    and "unat (sq_state_generation s) + k < 2 ^ 64"
  shows "\<exists>t. prefill_turns k m p s = Some t \<and> sequence_ok t \<and> sq_state t = kReadyDecode \<and>
    prompt t = prompt s \<and> processed t = prompt s \<and> accepted t = 1"
  using assms
proof (induction k arbitrary: s)
  case 0
  then show ?case by simp
next
  case (Suc k)
  have g: "unat (sq_state_generation s) + 1 < 2 ^ 64" using Suc.prems(7) by simp
  obtain t where t: "prefill_turn m p s = Some t" "sequence_ok t" "prompt t = prompt s"
    "processed t = min (processed s + unat m) (prompt s)"
    "sq_state t = (if processed t < prompt s then kQueuedPrefill else kReadyDecode)"
    "accepted t = (if processed t < prompt s then 0 else 1)"
    "unat (sq_state_generation t) = unat (sq_state_generation s) + 1"
    by (rule prefill_turn_advances [OF Suc.prems(1-4) g])
  have mpos: "0 < unat m" using Suc.prems(3) by (simp add: unat_gt_0_word)
  show ?case
  proof (cases "processed t < prompt s")
    case True
    then have p: "processed t = processed s + unat m" using t(4) by auto
    have "k \<noteq> 0" using Suc.prems(5) True p by (cases k) auto
    then obtain j where j: "k = Suc j" by (cases k) auto
    have "sq_state t = kQueuedPrefill" using t(5) True by simp
    moreover have "prompt t - processed t \<le> k * unat m" using Suc.prems(5) t(3) p by simp
    moreover have "(k - 1) * unat m < prompt t - processed t"
      using Suc.prems(6) t(3) p j by simp
    moreover have "unat (sq_state_generation t) + k < 2 ^ 64" using Suc.prems(7) t(7) by simp
    ultimately show ?thesis
      using Suc.IH [OF t(2) _ Suc.prems(3,4)] t(1,3) by auto
  next
    case False
    have "k = 0"
    proof (rule ccontr)
      assume "k \<noteq> 0"
      then have "unat m \<le> k * unat m" by simp
      moreover have "k * unat m < prompt s - processed s" using Suc.prems(6) by simp
      moreover have "prompt s \<le> processed s + unat m" using False t(4) by auto
      ultimately show False by linarith
    qed
    then show ?thesis using False t by auto
  qed
qed

text \<open>
  C20. Prefill makes progress and ends. For a freshly admitted sequence, any positive chunk bound
  and any plan number, exactly the rounded-up quotient of prompt length and chunk bound many turns
  succeed one after the other and leave the sequence ready to decode, with the whole prompt
  processed and the first output token accepted, provided the state generation does not run out.
\<close>

theorem prefill_completes:
  assumes "Admit g n v = Inr s" and "m \<noteq> 0" and "p \<noteq> 0" and "unat v + unat n < 2 ^ 64"
  shows "\<exists>t. prefill_turns ((unat n + unat m - 1) div unat m) m p s = Some t \<and>
    sq_state t = kReadyDecode \<and> processed t = unat n \<and> accepted t = 1"
proof -
  let ?k = "(unat n + unat m - 1) div unat m"
  have s: "s = sequence_new g n v" using assms(1) by (simp add: Admit_def split: if_splits)
  have ok: "sequence_ok s" using assms(1) by (intro sequence_ok_init) (auto simp: sequence_init_def)
  have n: "0 < unat n" using ok s by (simp add: sequence_ok_def sequence_new_def)
  have m: "0 < unat m" using assms(2) by (simp add: unat_gt_0_word)
  have eq: "?k * unat m + (unat n + unat m - 1) mod unat m = unat n + unat m - 1" by simp
  have md: "(unat n + unat m - 1) mod unat m < unat m" using m by simp
  have up: "unat n \<le> ?k * unat m" using eq md by linarith
  have kpos: "0 < ?k" using n m by (simp add: div_greater_zero_iff)
  have "?k * unat m < unat n + unat m" using eq n by linarith
  then have down: "(?k - 1) * unat m < unat n" using kpos n by (cases ?k) auto
  have "?k \<le> unat n"
  proof -
    have "(?k - 1) * 1 \<le> (?k - 1) * unat m" using m by (intro mult_le_mono) simp_all
    with down show ?thesis by linarith
  qed
  with assms(4) have "unat (sq_state_generation s) + ?k < 2 ^ 64" by (simp add: s sequence_new_def)
  moreover have "sq_state s = kQueuedPrefill" by (simp add: s sequence_new_def)
  ultimately show ?thesis
    using prefill_turns_finish [OF ok _ assms(2,3), of ?k] up down
    by (auto simp: s sequence_new_def)
qed

section \<open>Instances\<close>

definition example_sequence :: ControllerSequence where
  "example_sequence = sequence_new 1 5 1"

lemma example_sequence_admitted: "Admit 1 5 1 = Inr example_sequence"
  by (simp add: Admit_def example_sequence_def)

lemma example_sequence_reachable: "reachable sequence_init sequence_step example_sequence"
proof (rule reachable_init)
  show "sequence_init example_sequence"
    using example_sequence_admitted unfolding sequence_init_def by blast
qed

theorem sequence_ledger_witness:
  "processed example_sequence < prompt example_sequence \<and> \<not> has_active_plan example_sequence"
  using sequence_ledger [OF example_sequence_reachable]
  by (simp add: example_sequence_def sequence_new_def)

theorem sequence_refines_life_witness:
  "life_step Cancel (5, Waiting, 0, 0) (sequence_abs (snd (request_cancel example_sequence))) \<and>
   ok (fst (request_cancel example_sequence))"
proof -
  obtain e t where r: "sequence_apply RequestCancel example_sequence = (e, t)"
    by (cases "sequence_apply RequestCancel example_sequence") auto
  have a: "sequence_abs example_sequence = (5, Waiting, 0, 0)"
    by (simp add: example_sequence_def sequence_new_def sequence_abs_def life_of_def terminal_def)
  have "ok e" using sequence_refines_life [OF example_sequence_reachable r] a
    by (auto simp: life_step_simps)
  with sequence_refines_life [OF example_sequence_reachable r] a r show ?thesis by simp
qed

theorem sequence_history_witness:
  "sq_drain_is_cancel (snd (request_cancel example_sequence)) \<and>
   sq_state (snd (begin_draining (snd (request_cancel example_sequence)))) \<noteq> kCompleted"
proof -
  let ?s = "snd (request_cancel example_sequence)"
  have a: "sequence_step example_sequence ?s"
    unfolding sequence_step_def by (metis sequence_apply.simps(6))
  have b: "sequence_step ?s (snd (begin_draining ?s))"
    unfolding sequence_step_def by (metis sequence_apply.simps(7))
  have d: "sq_drain_is_cancel ?s"
    by (simp add: request_cancel_def example_sequence_def sequence_new_def terminal_def)
  from sequence_history [OF reachable_step [OF example_sequence_reachable a], of "snd (begin_draining ?s)"] b d
  show ?thesis by auto
qed

theorem scheduling_query_honest_witness:
  "\<exists>t1. next_real_token_count 3 0 example_sequence = Inr 3 \<and>
     prepare 7 kPrefill 3 example_sequence = (Ok, t1)"
proof -
  have n: "next_real_token_count 3 0 example_sequence = Inr 3"
    by (simp add: next_real_token_count_def ready_phase_def example_sequence_def sequence_new_def
        Let_def min_def)
  moreover have "ready_phase example_sequence = Inr kPrefill"
    by (simp add: ready_phase_def example_sequence_def sequence_new_def)
  ultimately show ?thesis
    using scheduling_query_honest [OF example_sequence_reachable n, of 7] by auto
qed

theorem prefill_completes_witness:
  "\<exists>t. prefill_turns 3 2 7 example_sequence = Some t \<and> sq_state t = kReadyDecode \<and> processed t = 5"
  using prefill_completes [OF example_sequence_admitted, of 2 7] by auto

end
