(* ===== verification/CreditPool.thy ===== *)
theory CreditPool
  imports Core
begin

text \<open>
  \<open>output_burst_credit_pool.h\<close> and \<open>output_burst_credit_pool.cpp\<close>: a fixed pool of credits for output
  bursts. A plan acquires one credit, commits it, transfers it to the writer and releases it, or
  aborts it before the commit. A lease names the credit by index and generation and repeats the
  plan and the envelope it was granted.

  The lemmas show that no plan ever holds two credits and every outstanding credit is inside its
  envelope, that a full cycle gives the credit back, and that a lease is dead once its credit
  has been released or aborted.
\<close>

section \<open>Messages\<close>

definition msg_output_burst_credit_limits_are_invalid :: string where
  "msg_output_burst_credit_limits_are_invalid = ''output burst credit limits are invalid''"

definition msg_output_burst_credit_allocation_failed :: string where
  "msg_output_burst_credit_allocation_failed = ''output burst credit allocation failed''"

definition msg_output_burst_request_exceeds_its_envelope :: string where
  "msg_output_burst_request_exceeds_its_envelope = ''output burst request exceeds its envelope''"

definition msg_plan_already_owns_an_output_burst_credit :: string where
  "msg_plan_already_owns_an_output_burst_credit = ''plan already owns an output burst credit''"

definition msg_output_burst_credits_are_exhausted :: string where
  "msg_output_burst_credits_are_exhausted = ''output burst credits are exhausted''"

definition msg_output_burst_generation_wrapped :: string where
  "msg_output_burst_generation_wrapped = ''output burst generation wrapped''"

definition msg_output_burst_lease_is_stale :: string where
  "msg_output_burst_lease_is_stale = ''output burst lease is stale''"

definition msg_output_burst_lease_identity_drifted :: string where
  "msg_output_burst_lease_identity_drifted = ''output burst lease identity drifted''"

section \<open>Data\<close>

datatype OutputPlanKind = kQwen | kDeepSeek | OutputPlanKind_other u8

datatype OutputBurstState = kFree | kPrepared | kCommitted | kTransferred

record OutputBurstCreditLimits =
  ol_credit_count :: u32
  ol_maximum_records_qwen :: u32
  ol_maximum_records_deepseek :: u32
  ol_maximum_slots_per_credit :: u32
  ol_maximum_bytes_per_credit :: u64

record OutputBurstLease =
  bl_credit_index :: u32
  bl_credit_generation :: u64
  bl_plan_sequence :: u64
  bl_records :: u32
  bl_slots :: u32
  bl_bytes :: u64

record Credit =
  cr_state :: OutputBurstState
  cr_generation :: u64
  cr_plan_sequence :: u64
  cr_records :: u32
  cr_slots :: u32
  cr_bytes :: u64

record OutputBurstCreditPool =
  bp_limits :: OutputBurstCreditLimits
  bp_credits :: "Credit list"

definition default_credit :: Credit where
  "default_credit =
     \<lparr>cr_state = kFree, cr_generation = 0, cr_plan_sequence = 0, cr_records = 0, cr_slots = 0,
      cr_bytes = 0\<rparr>"

section \<open>Operations\<close>

definition burst_pool_new :: "OutputBurstCreditLimits \<Rightarrow> OutputBurstCreditPool" where
  "burst_pool_new limits =
     \<lparr>bp_limits = limits, bp_credits = replicate (unat (ol_credit_count limits)) default_credit\<rparr>"

definition burst_Create :: "bool \<Rightarrow> OutputBurstCreditLimits \<Rightarrow> OutputBurstCreditPool result" where
  "burst_Create allocates limits =
     (if ol_credit_count limits = 0 \<or> ol_maximum_records_qwen limits \<noteq> 1 \<or>
         ol_maximum_records_deepseek limits \<noteq> 5 \<or> ol_maximum_slots_per_credit limits = 0 \<or>
         ol_maximum_bytes_per_credit limits = 0
      then Inl (InvalidArgument msg_output_burst_credit_limits_are_invalid)
      else if allocates then Inr (burst_pool_new limits)
      else Inl (ResourceExhausted msg_output_burst_credit_allocation_failed))"

definition record_limit :: "OutputPlanKind \<Rightarrow> OutputBurstCreditLimits \<Rightarrow> u32" where
  "record_limit kind limits =
     (if kind = kQwen then ol_maximum_records_qwen limits
      else if kind = kDeepSeek then ol_maximum_records_deepseek limits
      else 0)"

definition burst_acquire ::
  "u64 \<Rightarrow> OutputPlanKind \<Rightarrow> u32 \<Rightarrow> u32 \<Rightarrow> u64 \<Rightarrow> OutputBurstCreditPool \<Rightarrow>
   OutputBurstLease result \<times> OutputBurstCreditPool" where
  "burst_acquire plan kind records slots bytes pool =
     (let limits = bp_limits pool
      in if plan = 0 \<or> records > record_limit kind limits \<or> slots = 0 \<or>
            slots > ol_maximum_slots_per_credit limits \<or> bytes = 0 \<or>
            bytes > ol_maximum_bytes_per_credit limits
         then (Inl (InvalidArgument msg_output_burst_request_exceeds_its_envelope), pool)
         else if \<exists>credit\<in>set (bp_credits pool).
              cr_state credit \<noteq> kFree \<and> cr_plan_sequence credit = plan
         then (Inl (FailedPrecondition msg_plan_already_owns_an_output_burst_credit), pool)
         else (case find_index (\<lambda>credit. cr_state credit = kFree) (bp_credits pool) of
             None \<Rightarrow> (Inl (ResourceExhausted msg_output_burst_credits_are_exhausted), pool)
           | Some i \<Rightarrow>
               let credit = bp_credits pool ! i
               in if cr_generation credit = - 1
                  then (Inl (FailedPrecondition msg_output_burst_generation_wrapped), pool)
                  else let generation = cr_generation credit + 1
                       in (Inr \<lparr>bl_credit_index = of_nat i, bl_credit_generation = generation,
                                bl_plan_sequence = plan, bl_records = records, bl_slots = slots,
                                bl_bytes = bytes\<rparr>,
                           pool\<lparr>bp_credits := (bp_credits pool)
                             [i := \<lparr>cr_state = kPrepared, cr_generation = generation,
                                    cr_plan_sequence = plan, cr_records = records,
                                    cr_slots = slots, cr_bytes = bytes\<rparr>]\<rparr>)))"

definition burst_validate ::
  "OutputBurstLease \<Rightarrow> OutputBurstState \<Rightarrow> OutputBurstCreditPool \<Rightarrow> status" where
  "burst_validate lease st pool =
     (if unat (bl_credit_index lease) \<ge> length (bp_credits pool)
      then FailedPrecondition msg_output_burst_lease_is_stale
      else let credit = bp_credits pool ! unat (bl_credit_index lease)
           in if cr_state credit \<noteq> st \<or> cr_generation credit \<noteq> bl_credit_generation lease \<or>
                 cr_plan_sequence credit \<noteq> bl_plan_sequence lease \<or>
                 cr_records credit \<noteq> bl_records lease \<or> cr_slots credit \<noteq> bl_slots lease \<or>
                 cr_bytes credit \<noteq> bl_bytes lease
              then FailedPrecondition msg_output_burst_lease_identity_drifted
              else Ok)"

definition validate_commit :: "OutputBurstLease \<Rightarrow> OutputBurstCreditPool \<Rightarrow> status" where
  "validate_commit lease pool = burst_validate lease kPrepared pool"

definition validate_abort :: "OutputBurstLease \<Rightarrow> OutputBurstCreditPool \<Rightarrow> status" where
  "validate_abort lease pool = burst_validate lease kPrepared pool"

definition validate_transfer :: "OutputBurstLease \<Rightarrow> OutputBurstCreditPool \<Rightarrow> status" where
  "validate_transfer lease pool = burst_validate lease kCommitted pool"

definition set_credit_state ::
  "OutputBurstLease \<Rightarrow> OutputBurstState \<Rightarrow> OutputBurstCreditPool \<Rightarrow> OutputBurstCreditPool" where
  "set_credit_state lease st pool =
     (let i = unat (bl_credit_index lease)
      in pool\<lparr>bp_credits := (bp_credits pool)[i := (bp_credits pool ! i)\<lparr>cr_state := st\<rparr>]\<rparr>)"

definition burst_commit ::
  "OutputBurstLease \<Rightarrow> OutputBurstCreditPool \<Rightarrow> status \<times> OutputBurstCreditPool" where
  "burst_commit lease pool =
     (let status = validate_commit lease pool
      in if ok status then (status, set_credit_state lease kCommitted pool) else (status, pool))"

definition burst_abort ::
  "OutputBurstLease \<Rightarrow> OutputBurstCreditPool \<Rightarrow> status \<times> OutputBurstCreditPool" where
  "burst_abort lease pool =
     (let status = validate_abort lease pool
      in if ok status then (status, set_credit_state lease kFree pool) else (status, pool))"

definition burst_transfer ::
  "OutputBurstLease \<Rightarrow> OutputBurstCreditPool \<Rightarrow> status \<times> OutputBurstCreditPool" where
  "burst_transfer lease pool =
     (let status = validate_transfer lease pool
      in if ok status then (status, set_credit_state lease kTransferred pool) else (status, pool))"

definition burst_release ::
  "OutputBurstLease \<Rightarrow> OutputBurstCreditPool \<Rightarrow> status \<times> OutputBurstCreditPool" where
  "burst_release lease pool =
     (let status = burst_validate lease kTransferred pool;
          i = unat (bl_credit_index lease)
      in if \<not> ok status then (status, pool)
         else let generation = cr_generation (bp_credits pool ! i)
              in (Ok, pool\<lparr>bp_credits := (bp_credits pool)
                     [i := default_credit\<lparr>cr_generation := generation\<rparr>]\<rparr>))"

definition available :: "OutputBurstCreditPool \<Rightarrow> u32" where
  "available pool = of_nat (count_if (\<lambda>credit. cr_state credit = kFree) (bp_credits pool))"

section \<open>Outcomes\<close>

definition holds :: "OutputBurstLease \<Rightarrow> OutputBurstState \<Rightarrow> OutputBurstCreditPool \<Rightarrow> bool" where
  "holds lease st pool \<longleftrightarrow>
     unat (bl_credit_index lease) < length (bp_credits pool) \<and>
     bp_credits pool ! unat (bl_credit_index lease) =
       \<lparr>cr_state = st, cr_generation = bl_credit_generation lease,
        cr_plan_sequence = bl_plan_sequence lease, cr_records = bl_records lease,
        cr_slots = bl_slots lease, cr_bytes = bl_bytes lease\<rparr>"

lemma validate_ok_iff: "ok (burst_validate lease st pool) \<longleftrightarrow> holds lease st pool"
  by (auto simp: burst_validate_def holds_def Let_def)

lemma ok_burst_validate: "holds lease st pool \<Longrightarrow> burst_validate lease st pool = Ok"
  by (auto simp: burst_validate_def holds_def Let_def)

lemma burst_validate_Ok_iff [simp]: "burst_validate lease st pool = Ok \<longleftrightarrow> holds lease st pool"
  using validate_ok_iff [of lease st pool] ok_burst_validate by auto

lemma acquire_cases:
  obtains (refused) e where "burst_acquire plan kind records slots bytes pool = (Inl e, pool)"
  | (granted) i where "i < length (bp_credits pool)" and "cr_state (bp_credits pool ! i) = kFree"
      and "cr_generation (bp_credits pool ! i) \<noteq> - 1"
      and "\<forall>credit\<in>set (bp_credits pool). cr_state credit \<noteq> kFree \<longrightarrow> cr_plan_sequence credit \<noteq> plan"
      and "plan \<noteq> 0" and "records \<le> record_limit kind (bp_limits pool)" and "slots \<noteq> 0"
      and "slots \<le> ol_maximum_slots_per_credit (bp_limits pool)" and "bytes \<noteq> 0"
      and "bytes \<le> ol_maximum_bytes_per_credit (bp_limits pool)"
      and "burst_acquire plan kind records slots bytes pool =
        (Inr \<lparr>bl_credit_index = of_nat i, bl_credit_generation = cr_generation (bp_credits pool ! i) + 1,
              bl_plan_sequence = plan, bl_records = records, bl_slots = slots, bl_bytes = bytes\<rparr>,
         pool\<lparr>bp_credits := (bp_credits pool)
           [i := \<lparr>cr_state = kPrepared, cr_generation = cr_generation (bp_credits pool ! i) + 1,
                  cr_plan_sequence = plan, cr_records = records, cr_slots = slots,
                  cr_bytes = bytes\<rparr>]\<rparr>)"
proof (cases "fst (burst_acquire plan kind records slots bytes pool)")
  case (Inl e)
  have "transactional_result pool (burst_acquire plan kind records slots bytes pool)"
    unfolding burst_acquire_def Let_def by (simp split: option.split)
  from transactional_resultD [OF this Inl] show ?thesis by (rule refused)
next
  case (Inr lease)
  then obtain i where "find_index (\<lambda>credit. cr_state credit = kFree) (bp_credits pool) = Some i"
    unfolding burst_acquire_def Let_def by (simp split: if_splits option.splits)
  with Inr find_index_SomeD [OF this] show ?thesis
    unfolding burst_acquire_def Let_def
    by (intro granted [of i]) (auto simp: burst_acquire_def Let_def not_less split: if_splits)
qed


section \<open>The invariant\<close>

definition in_envelope :: "OutputBurstCreditLimits \<Rightarrow> Credit \<Rightarrow> bool" where
  "in_envelope limits c \<longleftrightarrow>
     cr_plan_sequence c \<noteq> 0 \<and> cr_records c \<le> 5 \<and> cr_slots c \<noteq> 0 \<and>
     cr_slots c \<le> ol_maximum_slots_per_credit limits \<and> cr_bytes c \<noteq> 0 \<and>
     cr_bytes c \<le> ol_maximum_bytes_per_credit limits"

definition pool_ok :: "OutputBurstCreditPool \<Rightarrow> bool" where
  "pool_ok pool \<longleftrightarrow>
     length (bp_credits pool) = unat (ol_credit_count (bp_limits pool)) \<and>
     ol_maximum_records_qwen (bp_limits pool) = 1 \<and>
     ol_maximum_records_deepseek (bp_limits pool) = 5 \<and>
     (\<forall>i<length (bp_credits pool). cr_state (bp_credits pool ! i) \<noteq> kFree \<longrightarrow>
        in_envelope (bp_limits pool) (bp_credits pool ! i)) \<and>
     (\<forall>i<length (bp_credits pool). \<forall>j<length (bp_credits pool).
        cr_state (bp_credits pool ! i) \<noteq> kFree \<longrightarrow> cr_state (bp_credits pool ! j) \<noteq> kFree \<longrightarrow>
        cr_plan_sequence (bp_credits pool ! i) = cr_plan_sequence (bp_credits pool ! j) \<longrightarrow> i = j)"

inductive pool_step :: "OutputBurstCreditPool \<Rightarrow> OutputBurstCreditPool \<Rightarrow> bool" where
  pool_acquire: "burst_acquire plan kind records slots bytes p = (r, q) \<Longrightarrow> pool_step p q"
| pool_commit: "burst_commit lease p = (e, q) \<Longrightarrow> pool_step p q"
| pool_abort: "burst_abort lease p = (e, q) \<Longrightarrow> pool_step p q"
| pool_transfer: "burst_transfer lease p = (e, q) \<Longrightarrow> pool_step p q"
| pool_release: "burst_release lease p = (e, q) \<Longrightarrow> pool_step p q"

definition pool_init :: "OutputBurstCreditPool \<Rightarrow> bool" where
  "pool_init p \<longleftrightarrow> (\<exists>allocates limits. burst_Create allocates limits = Inr p)"

text \<open>Every operation replaces at most one credit; what is asked of the replacement.\<close>

definition credit_replaced ::
  "nat \<Rightarrow> Credit \<Rightarrow> OutputBurstCreditPool \<Rightarrow> OutputBurstCreditPool" where
  "credit_replaced i c pool = pool\<lparr>bp_credits := (bp_credits pool)[i := c]\<rparr>"

lemma credit_replaced_simps [simp]:
  "bp_limits (credit_replaced i c p) = bp_limits p"
  "bp_credits (credit_replaced i c p) = (bp_credits p)[i := c]"
  by (simp_all add: credit_replaced_def)

lemma pool_ok_replaced:
  assumes "pool_ok p" and "i < length (bp_credits p)"
    and "cr_state c \<noteq> kFree \<Longrightarrow> in_envelope (bp_limits p) c"
    and "\<And>j. cr_state c \<noteq> kFree \<Longrightarrow> j < length (bp_credits p) \<Longrightarrow> j \<noteq> i \<Longrightarrow>
      cr_state (bp_credits p ! j) \<noteq> kFree \<Longrightarrow> cr_plan_sequence (bp_credits p ! j) \<noteq> cr_plan_sequence c"
  shows "pool_ok (credit_replaced i c p)"
  unfolding pool_ok_def
proof (intro conjI allI impI)
  fix j
  assume j: "j < length (bp_credits (credit_replaced i c p))"
    and n: "cr_state (bp_credits (credit_replaced i c p) ! j) \<noteq> kFree"
  show "in_envelope (bp_limits (credit_replaced i c p)) (bp_credits (credit_replaced i c p) ! j)"
    using assms(1,3) j n by (cases "j = i") (auto simp: pool_ok_def)
  fix k
  assume k: "k < length (bp_credits (credit_replaced i c p))"
    and m: "cr_state (bp_credits (credit_replaced i c p) ! k) \<noteq> kFree"
    and e: "cr_plan_sequence (bp_credits (credit_replaced i c p) ! j) =
      cr_plan_sequence (bp_credits (credit_replaced i c p) ! k)"
  consider "j = i" "k = i" | "j = i" "k \<noteq> i" | "j \<noteq> i" "k = i" | "j \<noteq> i" "k \<noteq> i" by blast
  then show "j = k"
  proof cases
    case 2
    with assms(4) [of k] j k n m e show ?thesis by auto
  next
    case 3
    with assms(4) [of j] j k n m e show ?thesis by auto
  next
    case 4
    with assms(1) j k n m e show ?thesis by (simp add: pool_ok_def)
  qed simp
qed (use assms(1) in \<open>simp_all add: pool_ok_def\<close>)

lemma pool_ok_move:
  assumes "pool_ok p" and "holds lease st p" and "st \<noteq> kFree"
  shows "pool_ok (set_credit_state lease st' p)"
proof -
  let ?i = "unat (bl_credit_index lease)"
  have i: "?i < length (bp_credits p)" and live: "cr_state (bp_credits p ! ?i) \<noteq> kFree"
    using assms(2,3) by (auto simp: holds_def)
  have "set_credit_state lease st' p = credit_replaced ?i ((bp_credits p ! ?i)\<lparr>cr_state := st'\<rparr>) p"
    by (simp add: set_credit_state_def credit_replaced_def Let_def)
  moreover have "pool_ok (credit_replaced ?i ((bp_credits p ! ?i)\<lparr>cr_state := st'\<rparr>) p)"
  proof (rule pool_ok_replaced [OF assms(1) i])
    show "in_envelope (bp_limits p) ((bp_credits p ! ?i)\<lparr>cr_state := st'\<rparr>)"
      using assms(1) i live by (simp add: pool_ok_def in_envelope_def)
    fix j
    assume "j < length (bp_credits p)" "j \<noteq> ?i" "cr_state (bp_credits p ! j) \<noteq> kFree"
    with assms(1) i live
    show "cr_plan_sequence (bp_credits p ! j) \<noteq> cr_plan_sequence ((bp_credits p ! ?i)\<lparr>cr_state := st'\<rparr>)"
      by (auto simp: pool_ok_def)
  qed
  ultimately show ?thesis by simp
qed

lemma record_limit_le: "pool_ok p \<Longrightarrow> record_limit kind (bp_limits p) \<le> 5"
  by (simp add: record_limit_def pool_ok_def)

lemma pool_ok_acquire:
  assumes "pool_ok p"
  shows "pool_ok (snd (burst_acquire plan kind records slots bytes p))"
proof (cases rule: acquire_cases [of plan kind records slots bytes p])
  case (refused e)
  then show ?thesis using assms by simp
next
  case (granted i)
  let ?c = "\<lparr>cr_state = kPrepared, cr_generation = cr_generation (bp_credits p ! i) + 1,
    cr_plan_sequence = plan, cr_records = records, cr_slots = slots, cr_bytes = bytes\<rparr>"
  have "pool_ok (credit_replaced i ?c p)"
  proof (rule pool_ok_replaced [OF assms granted(1)])
    show "in_envelope (bp_limits p) ?c"
      using granted record_limit_le [OF assms, of kind] by (simp add: in_envelope_def)
  qed (use granted(4) nth_mem in \<open>fastforce\<close>)
  then show ?thesis unfolding granted(11) by (simp add: credit_replaced_def)
qed

lemma burst_move_cases:
  "burst_commit lease p = (if holds lease kPrepared p then (Ok, set_credit_state lease kCommitted p)
     else (burst_validate lease kPrepared p, p))"
  "burst_abort lease p = (if holds lease kPrepared p then (Ok, set_credit_state lease kFree p)
     else (burst_validate lease kPrepared p, p))"
  "burst_transfer lease p = (if holds lease kCommitted p then (Ok, set_credit_state lease kTransferred p)
     else (burst_validate lease kCommitted p, p))"
  "burst_release lease p = (if holds lease kTransferred p
     then (Ok, credit_replaced (unat (bl_credit_index lease))
       (default_credit\<lparr>cr_generation := bl_credit_generation lease\<rparr>) p)
     else (burst_validate lease kTransferred p, p))"
  by (auto simp: burst_commit_def burst_abort_def burst_transfer_def burst_release_def
      validate_commit_def validate_abort_def validate_transfer_def validate_ok_iff ok_burst_validate
      credit_replaced_def Let_def holds_def)

lemma pool_ok_step:
  assumes "pool_ok p" and "pool_step p q"
  shows "pool_ok q"
  using assms(2)
proof cases
  case (pool_acquire plan kind records slots bytes r)
  then show ?thesis using pool_ok_acquire [OF assms(1)] by (metis snd_conv)
next
  case (pool_release lease e)
  have "pool_ok (credit_replaced (unat (bl_credit_index lease))
      (default_credit\<lparr>cr_generation := bl_credit_generation lease\<rparr>) p)"
    if "holds lease kTransferred p"
    using that by (intro pool_ok_replaced [OF assms(1)]) (auto simp: holds_def default_credit_def)
  with pool_release assms(1) show ?thesis by (auto simp: burst_move_cases split: if_splits)
qed (use assms(1) in \<open>auto simp: burst_move_cases intro: pool_ok_move split: if_splits\<close>)

lemma pool_ok_init: "pool_init p \<Longrightarrow> pool_ok p"
  by (auto simp: pool_init_def burst_Create_def burst_pool_new_def pool_ok_def default_credit_def
      split: if_splits)

interpretation burst_pool: inductive_invariant pool_init pool_step pool_ok
  by unfold_locales (auto intro: pool_ok_init pool_ok_step)


text \<open>
  C21. In every reachable pool two outstanding credits never belong to the same plan, each is inside
  the record, slot and byte envelope of the pool, and \<open>available\<close> counts the remaining credits
  exactly: with the outstanding ones it adds up to the configured number.
\<close>

theorem burst_pool_invariant:
  assumes "reachable pool_init pool_step p"
  shows "(\<forall>i<length (bp_credits p). cr_state (bp_credits p ! i) \<noteq> kFree \<longrightarrow>
      in_envelope (bp_limits p) (bp_credits p ! i) \<and>
      (\<forall>j<length (bp_credits p). cr_state (bp_credits p ! j) \<noteq> kFree \<longrightarrow>
         cr_plan_sequence (bp_credits p ! j) = cr_plan_sequence (bp_credits p ! i) \<longrightarrow> j = i)) \<and>
    unat (available p) + count_if (\<lambda>c. cr_state c \<noteq> kFree) (bp_credits p) =
      unat (ol_credit_count (bp_limits p))"
proof -
  have ok: "pool_ok p" by (rule burst_pool.holds_when_reachable [OF assms])
  have split: "count_if (\<lambda>c. cr_state c = kFree) cs + count_if (\<lambda>c. cr_state c \<noteq> kFree) cs = length cs"
    for cs :: "Credit list"
    by (induction cs) auto
  have len: "length (bp_credits p) = unat (ol_credit_count (bp_limits p))"
    using ok by (simp add: pool_ok_def)
  have "count_if (\<lambda>c. cr_state c = kFree) (bp_credits p) < 2 ^ 32"
    using count_if_le_length [of "\<lambda>c. cr_state c = kFree" "bp_credits p"] len
      unat_lt_u32 [of "ol_credit_count (bp_limits p)"] by simp
  then have "unat (available p) = count_if (\<lambda>c. cr_state c = kFree) (bp_credits p)"
    by (simp add: available_def unat_of_nat)
  with split [of "bp_credits p"] len ok show ?thesis by (auto simp: pool_ok_def)
qed

section \<open>A lease through its life\<close>

lemma holds_after_move:
  "holds lease st p \<Longrightarrow> holds lease st' (set_credit_state lease st' p)"
  by (simp add: holds_def set_credit_state_def Let_def)

lemma acquire_holds:
  assumes "pool_ok p" and "burst_acquire plan kind records slots bytes p = (Inr lease, q)"
  shows "holds lease kPrepared q \<and> unat (bl_credit_index lease) < length (bp_credits p) \<and>
    cr_state (bp_credits p ! unat (bl_credit_index lease)) = kFree \<and>
    bl_plan_sequence lease = plan \<and>
    (\<exists>c. q = credit_replaced (unat (bl_credit_index lease)) c p \<and> cr_state c = kPrepared)"
proof (cases rule: acquire_cases [of plan kind records slots bytes p])
  case (granted i)
  have "i < 2 ^ 32"
    using granted(1) assms(1) unat_lt_u32 [of "ol_credit_count (bp_limits p)"]
    by (simp add: pool_ok_def)
  then have "unat (of_nat i :: u32) = i" by (simp add: unat_of_nat)
  with granted assms(2) show ?thesis by (auto simp: holds_def credit_replaced_def)
qed (use assms(2) in simp)

text \<open>Availability depends on the states of the credits alone.\<close>

lemma available_replaced:
  assumes "pool_ok p" and "i < length (bp_credits p)"
  shows "unat (available (credit_replaced i c p)) + (if cr_state (bp_credits p ! i) = kFree then 1 else 0) =
    unat (available p) + (if cr_state c = kFree then 1 else 0)"
proof -
  let ?free = "\<lambda>c. cr_state c = kFree"
  have len: "length (bp_credits p) < 2 ^ 32"
    using assms(1) unat_lt_u32 [of "ol_credit_count (bp_limits p)"] by (simp add: pool_ok_def)
  then have "count_if ?free (bp_credits p) < 2 ^ 32" and "count_if ?free ((bp_credits p)[i := c]) < 2 ^ 32"
    using count_if_le_length [of ?free "bp_credits p"]
      count_if_le_length [of ?free "(bp_credits p)[i := c]"] by simp_all
  then have "unat (available p) = count_if ?free (bp_credits p)"
    and "unat (available (credit_replaced i c p)) = count_if ?free ((bp_credits p)[i := c])"
    by (simp_all add: available_def unat_of_nat)
  with count_if_update [OF assms(2), of ?free c] show ?thesis by simp
qed

lemma set_credit_state_replaced:
  "set_credit_state lease st p = credit_replaced (unat (bl_credit_index lease))
     ((bp_credits p ! unat (bl_credit_index lease))\<lparr>cr_state := st\<rparr>) p"
  by (simp add: set_credit_state_def credit_replaced_def Let_def)

lemma available_move:
  assumes "pool_ok p" and "holds lease st p" and "st \<noteq> kFree"
  shows "unat (available (set_credit_state lease st' p)) =
    unat (available p) + (if st' = kFree then 1 else 0)"
  using available_replaced [OF assms(1), of "unat (bl_credit_index lease)"
      "(bp_credits p ! unat (bl_credit_index lease))\<lparr>cr_state := st'\<rparr>"] assms(2,3)
  unfolding set_credit_state_replaced by (simp add: holds_def)

lemma outstanding_blocks_acquire:
  assumes "holds lease st p" and "st \<noteq> kFree"
  shows "\<not> is_ok (fst (burst_acquire (bl_plan_sequence lease) kind records slots bytes p))"
proof (cases rule: acquire_cases [of "bl_plan_sequence lease" kind records slots bytes p])
  case (granted i)
  have "bp_credits p ! unat (bl_credit_index lease) \<in> set (bp_credits p)"
    using assms(1) unfolding holds_def by (blast intro: nth_mem)
  with granted(4) assms show ?thesis by (auto simp: holds_def)
qed simp

text \<open>
  C22. A granted lease can be carried through its whole life: commit, transfer and release succeed in
  this order and give the credit back, an abort instead of the commit gives it back as well, and
  the plan cannot acquire a second credit right after the grant, after the commit or after the
  transfer.
\<close>

theorem lease_round_trip:
  assumes "reachable pool_init pool_step p"
    and "burst_acquire plan kind records slots bytes p = (Inr lease, q)"
  shows "unat (available q) + 1 = unat (available p) \<and>
    (\<exists>c t r. burst_commit lease q = (Ok, c) \<and> burst_transfer lease c = (Ok, t) \<and>
       burst_release lease t = (Ok, r) \<and> available r = available p \<and>
       \<not> is_ok (fst (burst_acquire plan kind' records' slots' bytes' c)) \<and>
       \<not> is_ok (fst (burst_acquire plan kind' records' slots' bytes' t))) \<and>
    (\<exists>a. burst_abort lease q = (Ok, a) \<and> available a = available p) \<and>
    \<not> is_ok (fst (burst_acquire plan kind' records' slots' bytes' q))"
proof -
  have p: "pool_ok p" by (rule burst_pool.holds_when_reachable [OF assms(1)])
  have a: "holds lease kPrepared q" "unat (bl_credit_index lease) < length (bp_credits p)"
    "cr_state (bp_credits p ! unat (bl_credit_index lease)) = kFree" "bl_plan_sequence lease = plan"
    "\<exists>c. q = credit_replaced (unat (bl_credit_index lease)) c p \<and> cr_state c = kPrepared"
    using acquire_holds [OF p assms(2)] by blast+
  have q: "pool_ok q" using pool_ok_acquire [OF p, of plan kind records slots bytes] assms(2) by simp
  have av: "unat (available q) + 1 = unat (available p)"
    using a(5) available_replaced [OF p a(2)] a(3) by auto
  let ?c = "set_credit_state lease kCommitted q"
  let ?t = "set_credit_state lease kTransferred ?c"
  let ?i = "unat (bl_credit_index lease)"
  let ?r = "credit_replaced ?i (default_credit\<lparr>cr_generation := bl_credit_generation lease\<rparr>) ?t"
  have hc: "holds lease kCommitted ?c" and ht: "holds lease kTransferred ?t"
    using holds_after_move a(1) by blast+
  have c: "pool_ok ?c" and t: "pool_ok ?t"
    using pool_ok_move [OF q a(1)] pool_ok_move [OF _ hc] by auto
  have "unat (available ?c) = unat (available q)" "unat (available ?t) = unat (available ?c)"
    using available_move [OF q a(1)] available_move [OF c hc] by simp_all
  moreover have "unat (available ?r) = unat (available ?t) + 1"
    using available_replaced [OF t, of ?i] ht by (simp add: holds_def default_credit_def)
  ultimately have r: "available ?r = available p" using av by (simp add: word_unat_eq_iff)
  have "available (set_credit_state lease kFree q) = available p"
    using available_move [OF q a(1), of kFree] av by (simp add: word_unat_eq_iff)
  moreover have "\<not> is_ok (fst (burst_acquire plan kind' records' slots' bytes' q))"
    "\<not> is_ok (fst (burst_acquire plan kind' records' slots' bytes' ?c))"
    "\<not> is_ok (fst (burst_acquire plan kind' records' slots' bytes' ?t))"
    using outstanding_blocks_acquire [OF a(1)] outstanding_blocks_acquire [OF hc]
      outstanding_blocks_acquire [OF ht] a(4) by simp_all
  ultimately show ?thesis using av r a(1) hc ht by (simp add: burst_move_cases)
qed

section \<open>Dead leases\<close>

definition credit_life :: "OutputBurstCreditPool \<Rightarrow> nat \<Rightarrow> nat" where
  "credit_life p i =
     (if i < length (bp_credits p)
      then 2 * unat (cr_generation (bp_credits p ! i)) +
           (if cr_state (bp_credits p ! i) = kFree then 1 else 0)
      else 0)"

definition usable :: "OutputBurstCreditPool \<Rightarrow> OutputBurstLease \<Rightarrow> bool" where
  "usable p lease \<longleftrightarrow>
     ok (fst (burst_commit lease p)) \<or> ok (fst (burst_abort lease p)) \<or>
     ok (fst (burst_transfer lease p)) \<or> ok (fst (burst_release lease p))"

lemma usable_holds: "usable p lease \<Longrightarrow> \<exists>st. st \<noteq> kFree \<and> holds lease st p"
  by (auto simp: usable_def burst_move_cases validate_ok_iff split: if_splits)

lemma credit_life_replaced:
  "j < length (bp_credits p) \<Longrightarrow> credit_life (credit_replaced i c p) j =
     (if j = i then 2 * unat (cr_generation c) + (if cr_state c = kFree then 1 else 0)
      else credit_life p j)"
  by (simp add: credit_life_def)

lemma credit_life_move:
  "holds lease st p \<Longrightarrow> st \<noteq> kFree \<Longrightarrow> credit_life p j \<le> credit_life (set_credit_state lease st' p) j"
  by (cases "j < length (bp_credits p)")
    (auto simp: set_credit_state_replaced credit_life_replaced, auto simp: credit_life_def holds_def)

lemma credit_life_step:
  assumes "pool_step p q"
  shows "credit_life p j \<le> credit_life q j"
  using assms
proof cases
  case (pool_acquire plan kind records slots bytes r)
  then show ?thesis
  proof (cases rule: acquire_cases [of plan kind records slots bytes p])
    case (granted i)
    have "unat (cr_generation (bp_credits p ! i) + 1) = unat (cr_generation (bp_credits p ! i)) + 1"
      using unat_Suc_word [OF granted(3)] by simp
    with granted(2,11) pool_acquire show ?thesis
      by (cases "j = i") (simp_all add: credit_life_def)
  qed simp
next
  case (pool_release lease e)
  then show ?thesis
    by (auto simp: burst_move_cases credit_life_def holds_def nth_list_update default_credit_def
        split: if_splits)
qed (auto simp: burst_move_cases intro: credit_life_move split: if_splits)

interpretation leases: generation_guard pool_step "\<lambda>_. True" credit_life usable
  "\<lambda>lease. unat (bl_credit_index lease)" "\<lambda>lease. 2 * unat (bl_credit_generation lease)"
proof (unfold_locales, goal_cases)
  case (3 s h)
  then show ?case using usable_holds [of s h] by (auto simp: credit_life_def holds_def)
qed (auto intro: credit_life_step)

text \<open>
  C23. A lease dies with its credit. After a successful release or abort no later pool, whatever
  plans acquire, commit, transfer, abort or release in between, accepts the lease for any operation.
\<close>

theorem spent_lease_stays_dead:
  assumes "burst_release lease p = (Ok, q) \<or> burst_abort lease p = (Ok, q)" and "pool_step\<^sup>*\<^sup>* q r"
  shows "\<not> usable r lease"
proof -
  have "2 * unat (bl_credit_generation lease) < credit_life q (unat (bl_credit_index lease))"
    using assms(1)
  proof
    assume r: "burst_release lease p = (Ok, q)"
    then have "holds lease kTransferred p" by (simp add: burst_move_cases split: if_splits)
    with r show ?thesis
      by (auto simp: burst_move_cases credit_life_def holds_def default_credit_def)
  next
    assume r: "burst_abort lease p = (Ok, q)"
    then have "holds lease kPrepared p" by (simp add: burst_move_cases split: if_splits)
    with r show ?thesis
      by (auto simp: burst_move_cases credit_life_def holds_def set_credit_state_replaced)
  qed
  with assms(2) show ?thesis using leases.stale_forever by blast
qed


section \<open>Instances\<close>

definition example_burst_limits :: OutputBurstCreditLimits where
  "example_burst_limits =
     \<lparr>ol_credit_count = 2, ol_maximum_records_qwen = 1, ol_maximum_records_deepseek = 5,
      ol_maximum_slots_per_credit = 4, ol_maximum_bytes_per_credit = 64\<rparr>"

definition example_pool :: OutputBurstCreditPool where
  "example_pool = burst_pool_new example_burst_limits"

definition example_lease :: OutputBurstLease where
  "example_lease =
     \<lparr>bl_credit_index = 0, bl_credit_generation = 1, bl_plan_sequence = 9, bl_records = 1,
      bl_slots = 2, bl_bytes = 32\<rparr>"

lemma example_pool_reachable: "reachable pool_init pool_step example_pool"
proof (rule reachable_init)
  have "burst_Create True example_burst_limits = Inr example_pool"
    by (simp add: burst_Create_def example_burst_limits_def example_pool_def)
  then show "pool_init example_pool" unfolding pool_init_def by blast
qed

lemma example_acquire:
  "fst (burst_acquire 9 kQwen 1 2 32 example_pool) = Inr example_lease"
  by code_simp

theorem burst_pool_invariant_witness:
  "unat (available example_pool) = 2"
  using burst_pool_invariant [OF example_pool_reachable]
  by (simp add: example_pool_def burst_pool_new_def example_burst_limits_def default_credit_def)

theorem lease_round_trip_witness:
  "\<exists>q a. burst_acquire 9 kQwen 1 2 32 example_pool = (Inr example_lease, q) \<and>
     burst_abort example_lease q = (Ok, a) \<and> available a = available example_pool"
proof -
  obtain q where "burst_acquire 9 kQwen 1 2 32 example_pool = (Inr example_lease, q)"
    using example_acquire by (metis prod.collapse)
  with lease_round_trip [OF example_pool_reachable this] show ?thesis by blast
qed

theorem spent_lease_stays_dead_witness:
  "\<exists>q a. burst_acquire 9 kQwen 1 2 32 example_pool = (Inr example_lease, q) \<and>
     burst_abort example_lease q = (Ok, a) \<and> \<not> usable a example_lease"
proof -
  obtain q where q: "burst_acquire 9 kQwen 1 2 32 example_pool = (Inr example_lease, q)"
    using example_acquire by (metis prod.collapse)
  have "pool_ok example_pool" by (rule burst_pool.holds_when_reachable [OF example_pool_reachable])
  with q have "holds example_lease kPrepared q" using acquire_holds by blast
  then have "burst_abort example_lease q = (Ok, set_credit_state example_lease kFree q)"
    by (simp add: burst_move_cases)
  with q spent_lease_stays_dead [of example_lease q "set_credit_state example_lease kFree q"]
  show ?thesis by blast
qed

end
