(* ===== verification/Scheduler.thy ===== *)
theory Scheduler
  imports MetadataArena "HOL-Library.Product_Lexorder" "HOL-Library.Sublist"
begin

text \<open>
  \<open>phase_tier_scheduler.h\<close> and \<open>phase_tier_scheduler.cpp\<close>: the choice of the next plan. A snapshot of
  candidates is validated, the tiers are ranked by the starvation and fairness rules, and the first
  tier that can include a candidate gives the plan: candidates of one phase, in round-robin key
  order, as long as the sequence and token bounds allow.

  The fixed scratch vectors of the class are represented by the prefix the code has written, since
  only that prefix is ever read; \<open>std::sort\<close> is the sort by the comparison key, which determines the
  order because keys are distinct.
\<close>

section \<open>Messages\<close>

definition msg_phase_tier_scheduler_profile_is_invalid :: string where
  "msg_phase_tier_scheduler_profile_is_invalid = ''phase-tier scheduler profile is invalid''"

definition msg_scheduler_candidate_is_invalid :: string where
  "msg_scheduler_candidate_is_invalid = ''scheduler candidate is invalid''"

definition msg_scheduler_candidate_identity_is_duplicated :: string where
  "msg_scheduler_candidate_identity_is_duplicated = ''scheduler candidate identity is duplicated''"

definition msg_scheduler_snapshot_exceeds_its_profile :: string where
  "msg_scheduler_snapshot_exceeds_its_profile = ''scheduler snapshot exceeds its profile''"

definition msg_scheduler_decision_index_is_invalid :: string where
  "msg_scheduler_decision_index_is_invalid = ''scheduler decision index is invalid''"

definition msg_scheduled_sequence_state_drifted :: string where
  "msg_scheduled_sequence_state_drifted = ''scheduled sequence state drifted''"

definition msg_scheduler_decision_is_stale_or_idle :: string where
  "msg_scheduler_decision_is_stale_or_idle = ''scheduler decision is stale or idle''"

definition msg_scheduler_selected_token_ledger_drifted :: string where
  "msg_scheduler_selected_token_ledger_drifted = ''scheduler selected-token ledger drifted''"

definition msg_scheduled_token_payload_drifted :: string where
  "msg_scheduled_token_payload_drifted = ''scheduled token payload drifted''"

definition msg_packed_metadata_decision_identity_drifted :: string where
  "msg_packed_metadata_decision_identity_drifted = ''packed metadata decision identity drifted''"

section \<open>Data\<close>

datatype SchedulerTier = kIdle | kProtectedPrefill | kDecodeFamily | kNormalPrefill

datatype SchedulerInfeasibility =
    kNone
  | kPersistentResource
  | kWorkspace
  | kBoundaryCredit
  | kExpertPaging
  | kOutputCredit
  | kPlanTokenBound
  | SchedulerInfeasibility_other u8

record SchedulerCandidate =
  sc_sequence_generation :: u64
  sc_next_phase :: PackedTokenPhase
  sc_last_service_plan_seq :: u64
  sc_ready_enqueue_seq :: u64
  sc_prefill_eligible_since_ns :: i64
  sc_real_token_count :: u32
  sc_infeasibility :: SchedulerInfeasibility

record PhaseTierProfile =
  pf_maximum_candidates :: u32
  pf_maximum_sequences_per_plan :: u32
  pf_maximum_real_tokens_per_plan :: u32
  pf_scheduler_scan_limit :: u32
  pf_max_consecutive_decode_rounds :: u32
  pf_prefill_starvation_threshold_ns :: i64

record SchedulerSnapshot =
  sn_now_ns :: i64
  sn_consecutive_decode_rounds :: u32
  sn_last_successful_plan_was_protected_prefill :: bool
  sn_candidates :: "SchedulerCandidate list"

record SchedulerDecisionView =
  dv_generation :: u64
  dv_tier :: SchedulerTier
  dv_phase :: PackedTokenPhase
  dv_included_candidate_indices :: "nat list"
  dv_candidate_results :: "SchedulerInfeasibility list"
  dv_scanned_count :: u32
  dv_total_real_tokens :: u32

record ScheduledSequenceState =
  sst_sequence_generation :: u64
  sst_committed_start_position :: u64
  sst_state_generation :: u64
  sst_input_digest :: Sha256Digest

record ScheduledPlanIdentity =
  pid_epoch :: u64
  pid_plan_sequence :: u64
  pid_profile_revision :: string
  pid_resource_vector_hash :: Sha256Digest
  pid_execution_bucket_tokens :: u32
  pid_maximum_execution_bucket_tokens :: u32

record ScheduledSequenceTokens =
  sq_tokens_generation :: u64
  sq_token_ids :: "u32 list"
  sq_produces_logits :: bool

record PhaseTierScheduler =
  ts_profile :: PhaseTierProfile
  ts_generation :: u64
  ts_included_indices :: "nat list"
  ts_selected_generations :: "u64 list"
  ts_selected_token_counts :: "u32 list"
  ts_current_candidate_count :: u32
  ts_current_total_tokens :: u32
  ts_current_tier :: SchedulerTier
  ts_current_phase :: PackedTokenPhase

section \<open>Operations\<close>

definition key_less :: "SchedulerCandidate \<Rightarrow> SchedulerCandidate \<Rightarrow> bool" where
  "key_less l r =
     (if sc_last_service_plan_seq l \<noteq> sc_last_service_plan_seq r
      then sc_last_service_plan_seq l < sc_last_service_plan_seq r
      else if sc_ready_enqueue_seq l \<noteq> sc_ready_enqueue_seq r
      then sc_ready_enqueue_seq l < sc_ready_enqueue_seq r
      else sc_sequence_generation l < sc_sequence_generation r)"

definition scheduler_new :: "PhaseTierProfile \<Rightarrow> PhaseTierScheduler" where
  "scheduler_new profile =
     \<lparr>ts_profile = profile, ts_generation = 0, ts_included_indices = [],
      ts_selected_generations = [], ts_selected_token_counts = [],
      ts_current_candidate_count = 0, ts_current_total_tokens = 0,
      ts_current_tier = kIdle, ts_current_phase = kPrefill\<rparr>"

definition scheduler_Create :: "PhaseTierProfile \<Rightarrow> PhaseTierScheduler result" where
  "scheduler_Create profile =
     (if pf_maximum_candidates profile = 0 \<or> pf_maximum_sequences_per_plan profile = 0 \<or>
         pf_maximum_sequences_per_plan profile > pf_maximum_candidates profile \<or>
         pf_maximum_real_tokens_per_plan profile = 0 \<or>
         pf_scheduler_scan_limit profile < pf_maximum_candidates profile \<or>
         pf_max_consecutive_decode_rounds profile = 0 \<or>
         pf_prefill_starvation_threshold_ns profile \<le> 0
      then Inl (InvalidArgument msg_phase_tier_scheduler_profile_is_invalid)
      else Inr (scheduler_new profile))"

definition snapshot_exceeds :: "SchedulerSnapshot \<Rightarrow> PhaseTierScheduler \<Rightarrow> bool" where
  "snapshot_exceeds snapshot s \<longleftrightarrow>
     sn_now_ns snapshot < 0 \<or>
     length (sn_candidates snapshot) > unat (pf_maximum_candidates (ts_profile s)) \<or>
     length (sn_candidates snapshot) > unat (pf_scheduler_scan_limit (ts_profile s)) \<or>
     ts_generation s = - 1"

definition candidate_status :: "SchedulerSnapshot \<Rightarrow> nat \<Rightarrow> status" where
  "candidate_status snapshot candidate_index =
     (let candidate = sn_candidates snapshot ! candidate_index
      in if sc_sequence_generation candidate = 0 \<or> sc_ready_enqueue_seq candidate = 0 \<or>
            sc_real_token_count candidate = 0 \<or> \<not> valid_phase (sc_next_phase candidate) \<or>
            sc_prefill_eligible_since_ns candidate < 0 \<or>
            sc_prefill_eligible_since_ns candidate > sn_now_ns snapshot \<or>
            (case sc_infeasibility candidate of SchedulerInfeasibility_other _ \<Rightarrow> True | _ \<Rightarrow> False)
         then InvalidArgument msg_scheduler_candidate_is_invalid
         else if \<exists>prior\<in>set (take candidate_index (sn_candidates snapshot)).
              sc_sequence_generation prior = sc_sequence_generation candidate \<or>
              sc_ready_enqueue_seq prior = sc_ready_enqueue_seq candidate
         then InvalidArgument msg_scheduler_candidate_identity_is_duplicated
         else Ok)"

definition starved :: "PhaseTierProfile \<Rightarrow> SchedulerSnapshot \<Rightarrow> SchedulerCandidate \<Rightarrow> bool" where
  "starved profile snapshot candidate \<longleftrightarrow>
     sn_now_ns snapshot - sc_prefill_eligible_since_ns candidate \<ge>
       pf_prefill_starvation_threshold_ns profile"

definition append_unique :: "SchedulerTier \<Rightarrow> SchedulerTier list \<Rightarrow> SchedulerTier list" where
  "append_unique tier preferences =
     (if tier = kIdle then preferences
      else if tier \<in> set preferences then preferences
      else preferences @ [tier])"

definition tier_preferences :: "PhaseTierProfile \<Rightarrow> SchedulerSnapshot \<Rightarrow> SchedulerTier list" where
  "tier_preferences profile snapshot =
     (let candidates = sn_candidates snapshot;
          has_prefill = (\<exists>c\<in>set candidates. sc_next_phase c = kPrefill);
          has_decode = (\<exists>c\<in>set candidates. sc_next_phase c \<noteq> kPrefill);
          has_protected =
            (\<exists>c\<in>set candidates. sc_next_phase c = kPrefill \<and> starved profile snapshot c);
          after_protected = sn_last_successful_plan_was_protected_prefill snapshot;
          p0 = [];
          p1 = (if has_protected \<and> (\<not> has_decode \<or> \<not> after_protected)
                then append_unique kProtectedPrefill p0 else p0);
          p2 = (if has_decode \<and>
                   (after_protected \<or> \<not> has_prefill \<or>
                    sn_consecutive_decode_rounds snapshot <
                      pf_max_consecutive_decode_rounds profile)
                then append_unique kDecodeFamily p1 else p1);
          p3 = (if has_prefill then append_unique kNormalPrefill p2 else p2)
      in if has_decode then append_unique kDecodeFamily p3 else p3)"

record scan_state =
  sy_scanned :: "bool list"
  sy_results :: "SchedulerInfeasibility list"
  sy_scanned_count :: u32
  sy_included :: "nat list"
  sy_total_tokens :: u32

definition belongs ::
  "PhaseTierProfile \<Rightarrow> SchedulerSnapshot \<Rightarrow> SchedulerTier \<Rightarrow> SchedulerCandidate \<Rightarrow> bool" where
  "belongs profile snapshot tier candidate =
     (if tier = kProtectedPrefill
      then sc_next_phase candidate = kPrefill \<and> starved profile snapshot candidate
      else if tier = kNormalPrefill then sc_next_phase candidate = kPrefill
      else sc_next_phase candidate \<noteq> kPrefill)"

definition candidate_key :: "SchedulerCandidate \<Rightarrow> u64 \<times> u64 \<times> u64" where
  "candidate_key c =
     (sc_last_service_plan_seq c, sc_ready_enqueue_seq c, sc_sequence_generation c)"

definition ordered_indices ::
  "PhaseTierProfile \<Rightarrow> SchedulerSnapshot \<Rightarrow> SchedulerTier \<Rightarrow> bool list \<Rightarrow> nat list" where
  "ordered_indices profile snapshot tier scanned =
     sort_key (\<lambda>index. candidate_key (sn_candidates snapshot ! index))
       (filter (\<lambda>index. belongs profile snapshot tier (sn_candidates snapshot ! index) \<and>
            \<not> scanned ! index)
          [0..<length (sn_candidates snapshot)])"

definition scan_candidate ::
  "PhaseTierProfile \<Rightarrow> SchedulerSnapshot \<Rightarrow> PackedTokenPhase \<Rightarrow> nat \<Rightarrow> scan_state \<Rightarrow> scan_state" where
  "scan_candidate profile snapshot tier_phase index y =
     (let candidate = sn_candidates snapshot ! index
      in if sc_next_phase candidate \<noteq> tier_phase then y
         else
           let y = y\<lparr>sy_scanned := (sy_scanned y)[index := True],
                     sy_scanned_count := sy_scanned_count y + 1\<rparr>
           in if sc_infeasibility candidate \<noteq> kNone
              then y\<lparr>sy_results := (sy_results y)[index := sc_infeasibility candidate]\<rparr>
              else if length (sy_included y) = unat (pf_maximum_sequences_per_plan profile) \<or>
                      sc_real_token_count candidate >
                        pf_maximum_real_tokens_per_plan profile - sy_total_tokens y
              then y\<lparr>sy_results := (sy_results y)[index := kPlanTokenBound]\<rparr>
              else y\<lparr>sy_included := sy_included y @ [index],
                     sy_total_tokens := sy_total_tokens y + sc_real_token_count candidate\<rparr>)"

definition tier_phase_of :: "SchedulerSnapshot \<Rightarrow> SchedulerTier \<Rightarrow> nat list \<Rightarrow> PackedTokenPhase" where
  "tier_phase_of snapshot tier ordered =
     (if tier = kDecodeFamily \<and> ordered \<noteq> []
      then sc_next_phase (sn_candidates snapshot ! hd ordered) else kPrefill)"

definition scan_tier ::
  "PhaseTierProfile \<Rightarrow> SchedulerSnapshot \<Rightarrow> SchedulerTier \<Rightarrow> scan_state \<Rightarrow>
   scan_state \<times> PackedTokenPhase" where
  "scan_tier profile snapshot tier y =
     (let ordered = ordered_indices profile snapshot tier (sy_scanned y);
          tier_phase = tier_phase_of snapshot tier ordered
      in (fold (scan_candidate profile snapshot tier_phase) ordered y, tier_phase))"

fun try_tiers ::
  "PhaseTierProfile \<Rightarrow> SchedulerSnapshot \<Rightarrow> SchedulerTier list \<Rightarrow> scan_state \<Rightarrow>
   scan_state \<times> SchedulerTier \<times> PackedTokenPhase" where
  "try_tiers profile snapshot [] y = (y, kIdle, kPrefill)"
| "try_tiers profile snapshot (tier # tiers) y =
     (let (y', tier_phase) = scan_tier profile snapshot tier y
      in if sy_included y' \<noteq> [] then (y', tier, tier_phase)
         else try_tiers profile snapshot tiers y')"

definition scan_start :: "SchedulerSnapshot \<Rightarrow> scan_state" where
  "scan_start snapshot =
     \<lparr>sy_scanned = replicate (length (sn_candidates snapshot)) False,
      sy_results = replicate (length (sn_candidates snapshot)) kNone,
      sy_scanned_count = 0, sy_included = [], sy_total_tokens = 0\<rparr>"

definition select ::
  "SchedulerSnapshot \<Rightarrow> PhaseTierScheduler \<Rightarrow> SchedulerDecisionView result \<times> PhaseTierScheduler" where
  "select snapshot s =
     (if snapshot_exceeds snapshot s
      then (Inl (InvalidArgument msg_scheduler_snapshot_exceeds_its_profile), s)
      else
        let candidates = sn_candidates snapshot;
            checked = first_error (map (candidate_status snapshot) [0..<length candidates])
        in if \<not> ok checked then (Inl checked, s)
           else
             let preferences = tier_preferences (ts_profile s) snapshot;
                 (y, selected_tier, selected_phase) =
                   try_tiers (ts_profile s) snapshot preferences (scan_start snapshot);
                 generation = ts_generation s + 1
             in (Inr \<lparr>dv_generation = generation, dv_tier = selected_tier,
                      dv_phase = selected_phase,
                      dv_included_candidate_indices = sy_included y,
                      dv_candidate_results = sy_results y,
                      dv_scanned_count = sy_scanned_count y,
                      dv_total_real_tokens = sy_total_tokens y\<rparr>,
                 s\<lparr>ts_generation := generation,
                   ts_included_indices := sy_included y,
                   ts_selected_generations :=
                     map (\<lambda>i. sc_sequence_generation (candidates ! i)) (sy_included y),
                   ts_selected_token_counts :=
                     map (\<lambda>i. sc_real_token_count (candidates ! i)) (sy_included y),
                   ts_current_candidate_count := of_nat (length candidates),
                   ts_current_total_tokens := sy_total_tokens y,
                   ts_current_tier := selected_tier,
                   ts_current_phase := selected_phase\<rparr>))"

definition decision_stale :: "u64 \<Rightarrow> nat \<Rightarrow> PhaseTierScheduler \<Rightarrow> bool" where
  "decision_stale decision_generation supplied s \<longleftrightarrow>
     decision_generation = 0 \<or> decision_generation \<noteq> ts_generation s \<or>
     ts_current_tier s = kIdle \<or> ts_included_indices s = [] \<or>
     supplied \<noteq> unat (ts_current_candidate_count s)"

definition assemble_input ::
  "PhaseTierScheduler \<Rightarrow> ScheduledSequenceState list \<Rightarrow> nat \<Rightarrow> PackedSequenceInput result" where
  "assemble_input s candidate_states ordinal =
     (let candidate_index = ts_included_indices s ! ordinal
      in if candidate_index \<ge> length candidate_states
         then Inl (InvalidArgument msg_scheduler_decision_index_is_invalid)
         else
           let state = candidate_states ! candidate_index
           in if sst_sequence_generation state \<noteq> ts_selected_generations s ! ordinal \<or>
                 sst_state_generation state = 0
              then Inl (InvalidArgument msg_scheduled_sequence_state_drifted)
              else Inr \<lparr>si_sequence_generation = sst_sequence_generation state,
                        si_committed_start_position = sst_committed_start_position state,
                        si_real_token_count = ts_selected_token_counts s ! ordinal,
                        si_state_generation = sst_state_generation state,
                        si_input_digest = sst_input_digest state\<rparr>)"

primrec collect_results :: "'a result list \<Rightarrow> 'a list result" where
  "collect_results [] = Inr []"
| "collect_results (r # rs) =
     (case r of
        Inl e \<Rightarrow> Inl e
      | Inr v \<Rightarrow> (case collect_results rs of Inl e \<Rightarrow> Inl e | Inr vs \<Rightarrow> Inr (v # vs)))"

definition assemble_current_plan ::
  "u64 \<Rightarrow> ScheduledPlanIdentity \<Rightarrow> ScheduledSequenceState list \<Rightarrow> PhaseTierScheduler \<Rightarrow>
   PackedTokenPlan result" where
  "assemble_current_plan decision_generation identity candidate_states s =
     (if decision_stale decision_generation (length candidate_states) s
      then Inl (InvalidArgument msg_scheduler_decision_is_stale_or_idle)
      else (case collect_results (map (assemble_input s candidate_states)
                   [0..<length (ts_included_indices s)]) of
          Inl e \<Rightarrow> Inl e
        | Inr plan_inputs \<Rightarrow>
            let checked_total = fold (\<lambda>n total. total + (ucast n :: u64))
                  (ts_selected_token_counts s) 0
            in if checked_total \<noteq> ucast (ts_current_total_tokens s)
               then Inl (Internal msg_scheduler_selected_token_ledger_drifted)
               else plan_Create (pid_epoch identity) (pid_plan_sequence identity)
                      (ts_current_phase s) (pid_profile_revision identity)
                      (pid_resource_vector_hash identity) plan_inputs
                      (pid_execution_bucket_tokens identity)
                      \<lparr>pl_maximum_sequences =
                         pf_maximum_sequences_per_plan (ts_profile s),
                       pl_maximum_real_tokens =
                         pf_maximum_real_tokens_per_plan (ts_profile s),
                       pl_maximum_execution_bucket_tokens =
                         pid_maximum_execution_bucket_tokens identity\<rparr>))"

definition metadata_input ::
  "PhaseTierScheduler \<Rightarrow> PackedTokenPlan \<Rightarrow> ScheduledSequenceTokens list \<Rightarrow> nat \<Rightarrow>
   PackedSequenceTokens result" where
  "metadata_input s plan candidate_tokens ordinal =
     (let candidate_index = ts_included_indices s ! ordinal;
          tokens = candidate_tokens ! candidate_index
      in if candidate_index \<ge> length candidate_tokens \<or>
            sq_tokens_generation tokens \<noteq> ts_selected_generations s ! ordinal \<or>
            length (sq_token_ids tokens) \<noteq> unat (ts_selected_token_counts s ! ordinal) \<or>
            pp_sequence_generations plan ! ordinal \<noteq> ts_selected_generations s ! ordinal \<or>
            pp_real_token_counts plan ! ordinal \<noteq> ts_selected_token_counts s ! ordinal
         then Inl (InvalidArgument msg_scheduled_token_payload_drifted)
         else Inr \<lparr>pt_sequence_generation = sq_tokens_generation tokens,
                   pt_token_ids = sq_token_ids tokens,
                   pt_produces_logits = sq_produces_logits tokens\<rparr>)"

definition materialize_current_metadata ::
  "u64 \<Rightarrow> PackedTokenPlan \<Rightarrow> ScheduledSequenceTokens list \<Rightarrow> PhaseTierScheduler \<Rightarrow>
   PackedTokenMetadataArena \<Rightarrow> PackedTokenMetadataView result \<times> PackedTokenMetadataArena" where
  "materialize_current_metadata decision_generation plan candidate_tokens s arena =
     (if decision_stale decision_generation (length candidate_tokens) s \<or>
         pp_phase plan \<noteq> ts_current_phase s \<or>
         sequence_count plan \<noteq> length (ts_included_indices s) \<or>
         pp_total_real_tokens plan \<noteq> ts_current_total_tokens s
      then (Inl (InvalidArgument msg_packed_metadata_decision_identity_drifted), arena)
      else (case collect_results (map (metadata_input s plan candidate_tokens)
                   [0..<length (ts_included_indices s)]) of
          Inl e \<Rightarrow> (Inl e, arena)
        | Inr metadata_inputs \<Rightarrow> materialize plan metadata_inputs arena))"


section \<open>One scan\<close>

lemma key_less_iff: "key_less l r \<longleftrightarrow> candidate_key l < candidate_key r"
  by (auto simp: key_less_def candidate_key_def less_prod_def' order_le_less)

abbreviation candidate_at :: "SchedulerSnapshot \<Rightarrow> nat \<Rightarrow> SchedulerCandidate" where
  "candidate_at snapshot i \<equiv> sn_candidates snapshot ! i"

text \<open>A candidate that could be the only one of a plan.\<close>

definition fits :: "PhaseTierProfile \<Rightarrow> SchedulerCandidate \<Rightarrow> bool" where
  "fits profile c \<longleftrightarrow>
     sc_infeasibility c = kNone \<and> sc_real_token_count c \<le> pf_maximum_real_tokens_per_plan profile"

definition token_total :: "SchedulerSnapshot \<Rightarrow> nat list \<Rightarrow> nat" where
  "token_total snapshot xs = (\<Sum>i\<leftarrow>xs. unat (sc_real_token_count (candidate_at snapshot i)))"

definition scan_ok :: "PhaseTierProfile \<Rightarrow> SchedulerSnapshot \<Rightarrow> scan_state \<Rightarrow> bool" where
  "scan_ok profile snapshot y \<longleftrightarrow>
     length (sy_scanned y) = length (sn_candidates snapshot) \<and>
     length (sy_results y) = length (sn_candidates snapshot) \<and>
     length (sy_included y) \<le> unat (pf_maximum_sequences_per_plan profile) \<and>
     unat (sy_total_tokens y) = token_total snapshot (sy_included y) \<and>
     unat (sy_total_tokens y) \<le> unat (pf_maximum_real_tokens_per_plan profile) \<and>
     (\<forall>i<length (sn_candidates snapshot). \<not> sy_scanned y ! i \<longrightarrow> sy_results y ! i = kNone) \<and>
     (\<forall>i\<in>set (sy_included y). i < length (sn_candidates snapshot) \<and> sy_scanned y ! i \<and>
        sy_results y ! i = kNone \<and> sc_infeasibility (candidate_at snapshot i) = kNone)"

lemma token_total_simps [simp]:
  "token_total snapshot [] = 0"
  "token_total snapshot (xs @ ys) = token_total snapshot xs + token_total snapshot ys"
  "token_total snapshot (x # ys) =
     unat (sc_real_token_count (candidate_at snapshot x)) + token_total snapshot ys"
  by (simp_all add: token_total_def)

lemma scan_candidate_cases:
  obtains (other_phase) "scan_candidate profile snapshot phase i y = y"
      and "sc_next_phase (candidate_at snapshot i) \<noteq> phase"
  | (refused) r where "scan_candidate profile snapshot phase i y =
        y\<lparr>sy_scanned := (sy_scanned y)[i := True], sy_scanned_count := sy_scanned_count y + 1,
          sy_results := (sy_results y)[i := r]\<rparr>"
      and "sc_next_phase (candidate_at snapshot i) = phase"
      and "sc_infeasibility (candidate_at snapshot i) \<noteq> kNone \<or>
        length (sy_included y) = unat (pf_maximum_sequences_per_plan profile) \<or>
        sc_real_token_count (candidate_at snapshot i) >
          pf_maximum_real_tokens_per_plan profile - sy_total_tokens y"
  | (taken) "scan_candidate profile snapshot phase i y =
        y\<lparr>sy_scanned := (sy_scanned y)[i := True], sy_scanned_count := sy_scanned_count y + 1,
          sy_included := sy_included y @ [i],
          sy_total_tokens := sy_total_tokens y + sc_real_token_count (candidate_at snapshot i)\<rparr>"
      and "sc_next_phase (candidate_at snapshot i) = phase"
      and "sc_infeasibility (candidate_at snapshot i) = kNone"
      and "length (sy_included y) \<noteq> unat (pf_maximum_sequences_per_plan profile)"
      and "sc_real_token_count (candidate_at snapshot i) \<le>
        pf_maximum_real_tokens_per_plan profile - sy_total_tokens y"
proof (cases "sc_next_phase (candidate_at snapshot i) = phase")
  case False
  then show ?thesis by (intro other_phase) (simp_all add: scan_candidate_def Let_def)
next
  case True
  let ?bad = "length (sy_included y) = unat (pf_maximum_sequences_per_plan profile) \<or>
    sc_real_token_count (candidate_at snapshot i) >
      pf_maximum_real_tokens_per_plan profile - sy_total_tokens y"
  consider (a) "sc_infeasibility (candidate_at snapshot i) \<noteq> kNone"
    | (b) "sc_infeasibility (candidate_at snapshot i) = kNone" ?bad
    | (c) "sc_infeasibility (candidate_at snapshot i) = kNone" "\<not> ?bad" by blast
  then show ?thesis
  proof cases
    case a
    with True show ?thesis
      by (intro refused [of "sc_infeasibility (candidate_at snapshot i)"])
        (simp_all add: scan_candidate_def Let_def)
  next
    case b
    with True show ?thesis
      by (intro refused [of kPlanTokenBound]) (simp_all add: scan_candidate_def Let_def)
  next
    case c
    with True show ?thesis
      by (intro taken) (simp_all add: scan_candidate_def Let_def linorder_not_less [symmetric])
  qed
qed

lemma scan_candidate_scanned:
  "j \<noteq> i \<Longrightarrow> sy_scanned (scan_candidate profile snapshot phase i y) ! j = sy_scanned y ! j"
  by (cases rule: scan_candidate_cases [of profile snapshot phase i y]) simp_all

lemma scan_ok_candidate:
  assumes "scan_ok profile snapshot y" and "i < length (sn_candidates snapshot)"
    and "\<not> sy_scanned y ! i"
  shows "scan_ok profile snapshot (scan_candidate profile snapshot phase i y)"
proof (cases rule: scan_candidate_cases [of profile snapshot phase i y])
  case other_phase
  with assms show ?thesis by simp
next
  case (refused r)
  have "i \<notin> set (sy_included y)" using assms by (auto simp: scan_ok_def)
  then show ?thesis unfolding refused(1) using assms
    by (auto simp: scan_ok_def nth_list_update)
next
  case taken
  let ?n = "sc_real_token_count (candidate_at snapshot i)"
  let ?m = "pf_maximum_real_tokens_per_plan profile"
  have le: "unat (sy_total_tokens y) \<le> unat ?m" using assms(1) by (simp add: scan_ok_def)
  then have "unat (?m - sy_total_tokens y) = unat ?m - unat (sy_total_tokens y)"
    by (simp add: unat_sub word_le_nat_alt)
  with taken(5) le have sum: "unat (sy_total_tokens y) + unat ?n \<le> unat ?m"
    by (simp add: word_le_nat_alt)
  then have "unat (sy_total_tokens y + ?n) = unat (sy_total_tokens y) + unat ?n"
    using unat_lt_u32 [of ?m] by (simp add: unat_word_ariths)
  then show ?thesis unfolding taken(1) using assms taken(3,4) sum
    by (auto simp: scan_ok_def nth_list_update)
qed

lemma scan_fold:
  assumes "scan_ok profile snapshot y" and "\<forall>i\<in>set xs. i < length (sn_candidates snapshot)"
    and "distinct xs" and "\<forall>i\<in>set xs. \<not> sy_scanned y ! i"
  shows "scan_ok profile snapshot (fold (scan_candidate profile snapshot phase) xs y) \<and>
    (\<exists>zs. sy_included (fold (scan_candidate profile snapshot phase) xs y) = sy_included y @ zs \<and>
       subseq zs xs \<and> (\<forall>i\<in>set zs. sc_next_phase (candidate_at snapshot i) = phase))"
  using assms
proof (induction xs arbitrary: y)
  case Nil
  then show ?case by simp
next
  case (Cons x xs)
  let ?y = "scan_candidate profile snapshot phase x y"
  have ok: "scan_ok profile snapshot ?y"
    using Cons.prems by (intro scan_ok_candidate) auto
  have inc: "sy_included ?y = sy_included y \<or>
      sy_included ?y = sy_included y @ [x] \<and> sc_next_phase (candidate_at snapshot x) = phase"
    by (cases rule: scan_candidate_cases [of profile snapshot phase x y]) simp_all
  have "\<forall>i\<in>set xs. \<not> sy_scanned ?y ! i"
    using Cons.prems(3,4) scan_candidate_scanned by (metis distinct.simps(2) list.set_intros(2))
  with Cons.IH [OF ok] Cons.prems obtain zs where
    "scan_ok profile snapshot (fold (scan_candidate profile snapshot phase) xs ?y)"
    and zs: "sy_included (fold (scan_candidate profile snapshot phase) xs ?y) = sy_included ?y @ zs"
      "subseq zs xs" "\<forall>i\<in>set zs. sc_next_phase (candidate_at snapshot i) = phase" by auto
  moreover from inc have "\<exists>ws. sy_included ?y @ zs = sy_included y @ ws \<and> subseq ws (x # xs) \<and>
      (\<forall>i\<in>set ws. sc_next_phase (candidate_at snapshot i) = phase)"
  proof
    assume "sy_included ?y = sy_included y"
    with zs(2,3) show ?thesis by (intro exI [of _ zs]) auto
  next
    assume "sy_included ?y = sy_included y @ [x] \<and> sc_next_phase (candidate_at snapshot x) = phase"
    with zs(2,3) show ?thesis by (intro exI [of _ "x # zs"]) auto
  qed
  ultimately show ?case by simp
qed


lemma scan_total_zero:
  "sy_total_tokens y = 0 \<Longrightarrow> sy_included y = [] \<Longrightarrow> pf_maximum_sequences_per_plan profile \<noteq> 0 \<Longrightarrow>
     sy_included (scan_candidate profile snapshot phase i y) =
       (if sc_next_phase (candidate_at snapshot i) = phase \<and> fits profile (candidate_at snapshot i)
        then [i] else []) \<and>
     (sy_included (scan_candidate profile snapshot phase i y) = [] \<longrightarrow>
        sy_total_tokens (scan_candidate profile snapshot phase i y) = 0)"
  by (cases rule: scan_candidate_cases [of profile snapshot phase i y])
    (auto simp: fits_def not_less unat_eq_0)

text \<open>The scan opens with the first candidate that fits.\<close>

abbreviation fitting :: "PhaseTierProfile \<Rightarrow> SchedulerSnapshot \<Rightarrow> PackedTokenPhase \<Rightarrow> nat \<Rightarrow> bool" where
  "fitting profile snapshot phase i \<equiv>
     sc_next_phase (candidate_at snapshot i) = phase \<and> fits profile (candidate_at snapshot i)"

lemma scan_grows:
  "\<exists>zs. sy_included (fold (scan_candidate profile snapshot phase) xs y) = sy_included y @ zs"
proof (induction xs arbitrary: y)
  case (Cons x xs)
  have "\<exists>zs. sy_included (scan_candidate profile snapshot phase x y) = sy_included y @ zs"
    by (cases rule: scan_candidate_cases [of profile snapshot phase x y]) simp_all
  with Cons [of "scan_candidate profile snapshot phase x y"] show ?case by auto
qed simp

lemma scan_first:
  assumes "sy_total_tokens y = 0" and "sy_included y = []"
    and "pf_maximum_sequences_per_plan profile \<noteq> 0"
  shows "filter (fitting profile snapshot phase) xs = [] \<Longrightarrow>
      sy_included (fold (scan_candidate profile snapshot phase) xs y) = [] \<and>
      sy_total_tokens (fold (scan_candidate profile snapshot phase) xs y) = 0"
    and "filter (fitting profile snapshot phase) xs = i # ws \<Longrightarrow>
      \<exists>zs. sy_included (fold (scan_candidate profile snapshot phase) xs y) = i # zs"
  using assms
proof (induction xs arbitrary: y)
  case (Cons x xs)
  {
    case 1
    let ?y = "scan_candidate profile snapshot phase x y"
    from 1(1) have "\<not> fitting profile snapshot phase x" and f: "filter (fitting profile snapshot phase) xs = []"
      by (auto split: if_splits)
    with scan_total_zero [OF 1(2-4), of snapshot phase x]
    have "sy_total_tokens ?y = 0" and "sy_included ?y = []" by auto
    from Cons.IH(1) [OF f this 1(4)] show ?case by simp
  next
    case 2
    let ?y = "scan_candidate profile snapshot phase x y"
    note z = scan_total_zero [OF 2(2-4), of snapshot phase x]
    show ?case
    proof (cases "fitting profile snapshot phase x")
      case True
      with z 2(1) scan_grows [of profile snapshot phase xs ?y] show ?thesis by auto
    next
      case False
      with z have "sy_included ?y = []" and "sy_total_tokens ?y = 0" by auto
      moreover have "filter (fitting profile snapshot phase) xs = i # ws" using 2(1) False by auto
      ultimately show ?thesis using Cons.IH(2) [OF _ _ _ 2(4), of ?y] by simp
    qed
  }
qed simp_all

lemma scan_scanned:
  "sy_scanned (fold (scan_candidate profile snapshot phase) xs y) ! j \<Longrightarrow>
     sy_scanned y ! j \<or> j \<in> set xs \<and> sc_next_phase (candidate_at snapshot j) = phase"
proof (induction xs arbitrary: y)
  case (Cons x xs)
  have "sy_scanned (scan_candidate profile snapshot phase x y) ! j \<Longrightarrow>
      sy_scanned y ! j \<or> j = x \<and> sc_next_phase (candidate_at snapshot j) = phase"
    by (cases rule: scan_candidate_cases [of profile snapshot phase x y]; cases "j = x") simp_all
  with Cons.IH [of "scan_candidate profile snapshot phase x y"] Cons.prems show ?case by auto
qed simp

section \<open>The tiers\<close>

definition snapshot_ok :: "PhaseTierProfile \<Rightarrow> SchedulerSnapshot \<Rightarrow> bool" where
  "snapshot_ok profile snapshot \<longleftrightarrow>
     pf_maximum_sequences_per_plan profile \<noteq> 0 \<and>
     (\<forall>i<length (sn_candidates snapshot). \<forall>j<length (sn_candidates snapshot).
        sc_sequence_generation (candidate_at snapshot i) =
          sc_sequence_generation (candidate_at snapshot j) \<longrightarrow> i = j)"

definition fresh_scan :: "PhaseTierProfile \<Rightarrow> SchedulerSnapshot \<Rightarrow> scan_state \<Rightarrow> bool" where
  "fresh_scan profile snapshot y \<longleftrightarrow>
     scan_ok profile snapshot y \<and> sy_included y = [] \<and> sy_total_tokens y = 0 \<and>
     (\<forall>i<length (sn_candidates snapshot). sy_scanned y ! i \<longrightarrow> \<not> fits profile (candidate_at snapshot i))"

lemma ordered_indices_props:
  assumes "snapshot_ok profile snapshot"
  shows "set (ordered_indices profile snapshot tier scanned) =
      {i. i < length (sn_candidates snapshot) \<and> belongs profile snapshot tier (candidate_at snapshot i) \<and>
        \<not> scanned ! i}"
    and "distinct (ordered_indices profile snapshot tier scanned)"
    and "sorted_wrt (\<lambda>i j. key_less (candidate_at snapshot i) (candidate_at snapshot j))
      (ordered_indices profile snapshot tier scanned)"
proof -
  let ?key = "\<lambda>i. candidate_key (candidate_at snapshot i)"
  let ?xs = "ordered_indices profile snapshot tier scanned"
  show set: "set ?xs = {i. i < length (sn_candidates snapshot) \<and>
      belongs profile snapshot tier (candidate_at snapshot i) \<and> \<not> scanned ! i}"
    by (auto simp: ordered_indices_def)
  show d: "distinct ?xs" by (simp add: ordered_indices_def)
  have "sorted (map ?key ?xs)" by (simp add: ordered_indices_def)
  moreover have "inj_on ?key (set ?xs)"
    using assms unfolding set by (auto simp: inj_on_def snapshot_ok_def candidate_key_def)
  with d have "distinct (map ?key ?xs)" by (simp add: distinct_map)
  ultimately have "sorted_wrt (<) (map ?key ?xs)" by (simp add: strict_sorted_iff)
  then show "sorted_wrt (\<lambda>i j. key_less (candidate_at snapshot i) (candidate_at snapshot j)) ?xs"
    by (simp add: sorted_wrt_map key_less_iff)
qed

lemma subseq_sorted_wrt: "subseq zs xs \<Longrightarrow> sorted_wrt P xs \<Longrightarrow> sorted_wrt P zs"
proof (induction rule: list_emb.induct)
  case (list_emb_Cons2 x y xs ys)
  then show ?case using list_emb_set [of _ xs ys] by fastforce
qed simp_all

lemma sorted_wrt_neq: "sorted_wrt (\<noteq>) xs \<longleftrightarrow> distinct xs"
  by (induction xs) auto

lemma subseq_distinct: "subseq zs xs \<Longrightarrow> distinct xs \<Longrightarrow> distinct zs"
  using subseq_sorted_wrt [of zs xs "(\<noteq>)"] by (simp add: sorted_wrt_neq)

lemma subseq_set: "subseq zs xs \<Longrightarrow> i \<in> set zs \<Longrightarrow> i \<in> set xs"
  by (auto dest: list_emb_set)

text \<open>The phase a tier serves: prefill, or for the decode family the phase of its least key.\<close>

definition least_decode :: "SchedulerSnapshot \<Rightarrow> nat \<Rightarrow> bool" where
  "least_decode snapshot h \<longleftrightarrow>
     h < length (sn_candidates snapshot) \<and> sc_next_phase (candidate_at snapshot h) \<noteq> kPrefill \<and>
     (\<forall>i<length (sn_candidates snapshot). sc_next_phase (candidate_at snapshot i) \<noteq> kPrefill \<longrightarrow>
        i = h \<or> key_less (candidate_at snapshot h) (candidate_at snapshot i))"

definition serves :: "SchedulerSnapshot \<Rightarrow> SchedulerTier \<Rightarrow> PackedTokenPhase \<Rightarrow> bool" where
  "serves snapshot tier phase \<longleftrightarrow>
     (if tier = kDecodeFamily
      then \<exists>h. least_decode snapshot h \<and> phase = sc_next_phase (candidate_at snapshot h)
      else phase = kPrefill)"

definition barren :: "PhaseTierProfile \<Rightarrow> SchedulerSnapshot \<Rightarrow> SchedulerTier \<Rightarrow> bool" where
  "barren profile snapshot tier \<longleftrightarrow>
     (\<exists>phase. serves snapshot tier phase \<and>
        (\<forall>i<length (sn_candidates snapshot).
           belongs profile snapshot tier (candidate_at snapshot i) \<longrightarrow>
           \<not> fitting profile snapshot phase i))"

definition chosen ::
  "PhaseTierProfile \<Rightarrow> SchedulerSnapshot \<Rightarrow> SchedulerTier \<Rightarrow> PackedTokenPhase \<Rightarrow> nat list \<Rightarrow> bool" where
  "chosen profile snapshot tier phase included \<longleftrightarrow>
     included \<noteq> [] \<and> distinct included \<and> serves snapshot tier phase \<and>
     sorted_wrt (\<lambda>i j. key_less (candidate_at snapshot i) (candidate_at snapshot j)) included \<and>
     (\<forall>i\<in>set included. belongs profile snapshot tier (candidate_at snapshot i) \<and>
        sc_next_phase (candidate_at snapshot i) = phase) \<and>
     (\<forall>i<length (sn_candidates snapshot).
        belongs profile snapshot tier (candidate_at snapshot i) \<longrightarrow> fitting profile snapshot phase i \<longrightarrow>
        i = hd included \<or> key_less (candidate_at snapshot (hd included)) (candidate_at snapshot i))"

text \<open>What is assumed of a tier that is tried: a decode tier has a candidate and none was scanned yet.\<close>

definition tier_ready :: "SchedulerSnapshot \<Rightarrow> scan_state \<Rightarrow> SchedulerTier \<Rightarrow> bool" where
  "tier_ready snapshot y tier \<longleftrightarrow>
     (tier = kDecodeFamily \<longrightarrow>
        (\<exists>i<length (sn_candidates snapshot). sc_next_phase (candidate_at snapshot i) \<noteq> kPrefill) \<and>
        (\<forall>i<length (sn_candidates snapshot). sc_next_phase (candidate_at snapshot i) \<noteq> kPrefill \<longrightarrow>
           \<not> sy_scanned y ! i))"

lemma tier_phase_serves:
  assumes "snapshot_ok profile snapshot" and "tier_ready snapshot y tier"
  shows "serves snapshot tier
    (tier_phase_of snapshot tier (ordered_indices profile snapshot tier (sy_scanned y)))"
proof (cases "tier = kDecodeFamily")
  case True
  let ?xs = "ordered_indices profile snapshot tier (sy_scanned y)"
  note o = ordered_indices_props [OF assms(1), of tier "sy_scanned y"]
  have set: "set ?xs = {i. i < length (sn_candidates snapshot) \<and>
      sc_next_phase (candidate_at snapshot i) \<noteq> kPrefill}"
    using assms(2) True unfolding o(1) by (auto simp: tier_ready_def belongs_def)
  then obtain h hs where xs: "?xs = h # hs"
    using assms(2) True by (cases ?xs) (auto simp: tier_ready_def)
  then have "h < length (sn_candidates snapshot) \<and> sc_next_phase (candidate_at snapshot h) \<noteq> kPrefill"
    using set by auto
  moreover have "i = h \<or> key_less (candidate_at snapshot h) (candidate_at snapshot i)"
    if "i < length (sn_candidates snapshot)" and "sc_next_phase (candidate_at snapshot i) \<noteq> kPrefill" for i
    using that set o(3) unfolding xs by auto
  ultimately have "least_decode snapshot h" by (simp add: least_decode_def)
  with True xs show ?thesis by (auto simp: serves_def tier_phase_of_def)
qed (simp add: serves_def tier_phase_of_def)


lemma scan_tier_spec:
  assumes "snapshot_ok profile snapshot" and "fresh_scan profile snapshot y"
    and "tier_ready snapshot y tier" and "scan_tier profile snapshot tier y = (y', phase)"
  shows "scan_ok profile snapshot y'" and "serves snapshot tier phase"
    and "sy_included y' = [] \<Longrightarrow> fresh_scan profile snapshot y' \<and> barren profile snapshot tier"
    and "sy_included y' \<noteq> [] \<Longrightarrow> chosen profile snapshot tier phase (sy_included y')"
    and "sy_scanned y' ! j \<Longrightarrow> \<not> sy_scanned y ! j \<Longrightarrow>
      belongs profile snapshot tier (candidate_at snapshot j)"
proof -
  let ?xs = "ordered_indices profile snapshot tier (sy_scanned y)"
  note o = ordered_indices_props [OF assms(1), of tier "sy_scanned y"]
  have ph: "phase = tier_phase_of snapshot tier ?xs"
    and y': "y' = fold (scan_candidate profile snapshot phase) ?xs y"
    using assms(4) by (auto simp: scan_tier_def Let_def)
  have empty: "sy_included y = []" "sy_total_tokens y = 0" and ok: "scan_ok profile snapshot y"
    and old: "\<And>i. i < length (sn_candidates snapshot) \<Longrightarrow> sy_scanned y ! i \<Longrightarrow>
      \<not> fits profile (candidate_at snapshot i)"
    using assms(2) by (auto simp: fresh_scan_def)
  have max: "pf_maximum_sequences_per_plan profile \<noteq> 0" using assms(1) by (simp add: snapshot_ok_def)
  have "scan_ok profile snapshot y' \<and> (\<exists>zs. sy_included y' = sy_included y @ zs \<and> subseq zs ?xs \<and>
      (\<forall>i\<in>set zs. sc_next_phase (candidate_at snapshot i) = phase))"
    unfolding y' using o(1,2) by (intro scan_fold [OF ok]) auto
  then have ok': "scan_ok profile snapshot y'" and sub: "subseq (sy_included y') ?xs"
    and all: "\<forall>i\<in>set (sy_included y'). sc_next_phase (candidate_at snapshot i) = phase"
    using empty(1) by auto
  show "scan_ok profile snapshot y'" by (rule ok')
  show srv: "serves snapshot tier phase" unfolding ph by (rule tier_phase_serves [OF assms(1,3)])
  have fit: "i \<in> set (filter (fitting profile snapshot phase) ?xs)"
    if "i < length (sn_candidates snapshot)" "belongs profile snapshot tier (candidate_at snapshot i)"
      "fitting profile snapshot phase i" for i
    using that old [of i] o(1) by auto
  show "belongs profile snapshot tier (candidate_at snapshot j)"
    if "sy_scanned y' ! j" "\<not> sy_scanned y ! j"
    using that scan_scanned [of profile snapshot phase ?xs y j] o(1) unfolding y' by auto
  show "fresh_scan profile snapshot y' \<and> barren profile snapshot tier" if e: "sy_included y' = []"
  proof
    have f: "filter (fitting profile snapshot phase) ?xs = []"
      using e scan_first(2) [OF empty(2,1) max, of snapshot phase ?xs] unfolding y'
      by (cases "filter (fitting profile snapshot phase) ?xs") auto
    have "\<not> fits profile (candidate_at snapshot i)"
      if "i < length (sn_candidates snapshot)" "sy_scanned y' ! i" for i
      using that old [of i] scan_scanned [of profile snapshot phase ?xs y i] f unfolding y'
      by (auto simp: filter_empty_conv)
    moreover have "sy_total_tokens y' = 0"
      using scan_first(1) [OF empty(2,1) max f] unfolding y' by simp
    ultimately show "fresh_scan profile snapshot y'" using ok' e by (simp add: fresh_scan_def)
    show "barren profile snapshot tier"
      using fit f srv unfolding barren_def by (metis empty_iff empty_set)
  qed
  show "chosen profile snapshot tier phase (sy_included y')" if ne: "sy_included y' \<noteq> []"
  proof -
    obtain h hs where h: "filter (fitting profile snapshot phase) ?xs = h # hs"
      using ne scan_first(1) [OF empty(2,1) max, of snapshot phase ?xs] unfolding y'
      by (cases "filter (fitting profile snapshot phase) ?xs") auto
    then have hd: "hd (sy_included y') = h"
      using scan_first(2) [OF empty(2,1) max h] unfolding y' by auto
    have "sorted_wrt (\<lambda>i j. key_less (candidate_at snapshot i) (candidate_at snapshot j)) (h # hs)"
      using sorted_wrt_filter [OF o(3)] h by metis
    then have "i = h \<or> key_less (candidate_at snapshot h) (candidate_at snapshot i)"
      if "i \<in> set (filter (fitting profile snapshot phase) ?xs)" for i
      using that unfolding h by auto
    with fit hd have "\<forall>i<length (sn_candidates snapshot).
        belongs profile snapshot tier (candidate_at snapshot i) \<longrightarrow> fitting profile snapshot phase i \<longrightarrow>
        i = hd (sy_included y') \<or> key_less (candidate_at snapshot (hd (sy_included y'))) (candidate_at snapshot i)"
      by blast
    moreover have "belongs profile snapshot tier (candidate_at snapshot i)" if "i \<in> set (sy_included y')" for i
      using subseq_set [OF sub that] o(1) by simp
    ultimately show ?thesis
      using ne srv all subseq_distinct [OF sub o(2)] subseq_sorted_wrt [OF sub o(3)]
      by (simp add: chosen_def)
  qed
qed

lemma try_tiers_spec:
  assumes "snapshot_ok profile snapshot" and "fresh_scan profile snapshot y"
    and "distinct tiers" and "kIdle \<notin> set tiers" and "\<forall>t\<in>set tiers. tier_ready snapshot y t"
    and "try_tiers profile snapshot tiers y = (y', tier, phase)"
  shows "scan_ok profile snapshot y' \<and>
    (tier = kIdle \<and> phase = kPrefill \<and> sy_included y' = [] \<and> (\<forall>t\<in>set tiers. barren profile snapshot t) \<or>
     chosen profile snapshot tier phase (sy_included y') \<and>
       (\<exists>before after. tiers = before @ tier # after \<and> (\<forall>t\<in>set before. barren profile snapshot t)))"
  using assms(2-)
proof (induction tiers arbitrary: y)
  case Nil
  then show ?case by (simp add: fresh_scan_def)
next
  case (Cons t ts)
  obtain z ph where z: "scan_tier profile snapshot t y = (z, ph)" by fastforce
  have rdy: "tier_ready snapshot y t" using Cons.prems by simp
  note spec = scan_tier_spec [OF assms(1) Cons.prems(1) rdy z]
  show ?case
  proof (cases "sy_included z = []")
    case False
    with Cons.prems(5) z have "y' = z" "tier = t" "phase = ph" by simp_all
    with spec(1) spec(4) [OF False] show ?thesis by (metis append_Nil empty_iff empty_set)
  next
    case True
    have rest: "try_tiers profile snapshot ts z = (y', tier, phase)" using Cons.prems(5) z True by simp
    have "tier_ready snapshot z u" if "u \<in> set ts" for u
    proof (cases "u = kDecodeFamily")
      case True
      with that Cons.prems(2,3) have "t \<noteq> kDecodeFamily" "t \<noteq> kIdle" by auto
      moreover have "tier_ready snapshot y u" using Cons.prems(4) that by simp
      ultimately show ?thesis
        using spec(5) by (cases t) (fastforce simp: tier_ready_def belongs_def)+
    qed (simp add: tier_ready_def)
    with Cons.IH [of z] spec(3) [OF True] Cons.prems rest
    have "scan_ok profile snapshot y' \<and>
      (tier = kIdle \<and> phase = kPrefill \<and> sy_included y' = [] \<and> (\<forall>t\<in>set ts. barren profile snapshot t) \<or>
       chosen profile snapshot tier phase (sy_included y') \<and>
         (\<exists>before after. ts = before @ tier # after \<and> (\<forall>t\<in>set before. barren profile snapshot t)))"
      by auto
    with spec(3) [OF True] show ?thesis
      by (metis append_Cons set_ConsD)
  qed
qed


section \<open>The decision\<close>

abbreviation has_prefill :: "SchedulerSnapshot \<Rightarrow> bool" where
  "has_prefill snapshot \<equiv> \<exists>c\<in>set (sn_candidates snapshot). sc_next_phase c = kPrefill"

abbreviation has_decode :: "SchedulerSnapshot \<Rightarrow> bool" where
  "has_decode snapshot \<equiv> \<exists>c\<in>set (sn_candidates snapshot). sc_next_phase c \<noteq> kPrefill"

abbreviation has_protected :: "PhaseTierProfile \<Rightarrow> SchedulerSnapshot \<Rightarrow> bool" where
  "has_protected profile snapshot \<equiv>
     \<exists>c\<in>set (sn_candidates snapshot). sc_next_phase c = kPrefill \<and> starved profile snapshot c"

definition protection_due :: "PhaseTierProfile \<Rightarrow> SchedulerSnapshot \<Rightarrow> bool" where
  "protection_due profile snapshot \<longleftrightarrow> has_protected profile snapshot \<and>
     (\<not> has_decode snapshot \<or> \<not> sn_last_successful_plan_was_protected_prefill snapshot)"

definition decode_due :: "PhaseTierProfile \<Rightarrow> SchedulerSnapshot \<Rightarrow> bool" where
  "decode_due profile snapshot \<longleftrightarrow> has_decode snapshot \<and>
     (sn_last_successful_plan_was_protected_prefill snapshot \<or> \<not> has_prefill snapshot \<or>
      sn_consecutive_decode_rounds snapshot < pf_max_consecutive_decode_rounds profile)"

text \<open>The ranking in closed form.\<close>

lemma tier_preferences_eq:
  "tier_preferences profile snapshot =
     (if protection_due profile snapshot then [kProtectedPrefill] else []) @
     (if decode_due profile snapshot
      then kDecodeFamily # (if has_prefill snapshot then [kNormalPrefill] else [])
      else (if has_prefill snapshot then [kNormalPrefill] else []) @
           (if has_decode snapshot then [kDecodeFamily] else []))"
proof -
  define hp where "hp \<longleftrightarrow> has_prefill snapshot"
  define hd where "hd \<longleftrightarrow> has_decode snapshot"
  define pd where "pd \<longleftrightarrow> protection_due profile snapshot"
  define dd where "dd \<longleftrightarrow> decode_due profile snapshot"
  have "dd \<Longrightarrow> hd" by (simp add: dd_def hd_def decode_due_def)
  moreover have "tier_preferences profile snapshot =
      (let p1 = (if pd then append_unique kProtectedPrefill [] else []);
           p2 = (if dd then append_unique kDecodeFamily p1 else p1);
           p3 = (if hp then append_unique kNormalPrefill p2 else p2)
       in if hd then append_unique kDecodeFamily p3 else p3)"
    unfolding tier_preferences_def Let_def pd_def dd_def hp_def hd_def protection_due_def
      decode_due_def by simp
  ultimately show ?thesis
    unfolding pd_def [symmetric] dd_def [symmetric] hp_def [symmetric] hd_def [symmetric]
    by (cases pd; cases dd; cases hp; cases hd) (simp_all add: append_unique_def Let_def)
qed

lemma preferences_ready:
  "distinct (tier_preferences profile snapshot)" "kIdle \<notin> set (tier_preferences profile snapshot)"
  "t \<in> set (tier_preferences profile snapshot) \<Longrightarrow> tier_ready snapshot (scan_start snapshot) t"
proof -
  show "distinct (tier_preferences profile snapshot)" "kIdle \<notin> set (tier_preferences profile snapshot)"
    by (simp_all add: tier_preferences_eq)
  assume "t \<in> set (tier_preferences profile snapshot)"
  then have "t = kDecodeFamily \<longrightarrow> has_decode snapshot"
    by (auto simp: tier_preferences_eq decode_due_def split: if_splits)
  then show "tier_ready snapshot (scan_start snapshot) t"
    by (auto simp: tier_ready_def scan_start_def in_set_conv_nth)
qed

lemma fresh_scan_start: "fresh_scan profile snapshot (scan_start snapshot)"
  by (simp add: fresh_scan_def scan_ok_def scan_start_def)

definition profile_ok :: "PhaseTierProfile \<Rightarrow> bool" where
  "profile_ok profile \<longleftrightarrow>
     pf_maximum_candidates profile \<noteq> 0 \<and> pf_maximum_sequences_per_plan profile \<noteq> 0 \<and>
     pf_maximum_sequences_per_plan profile \<le> pf_maximum_candidates profile \<and>
     pf_maximum_real_tokens_per_plan profile \<noteq> 0 \<and>
     pf_maximum_candidates profile \<le> pf_scheduler_scan_limit profile \<and>
     pf_max_consecutive_decode_rounds profile \<noteq> 0 \<and>
     0 < pf_prefill_starvation_threshold_ns profile"

definition candidate_ok :: "SchedulerSnapshot \<Rightarrow> SchedulerCandidate \<Rightarrow> bool" where
  "candidate_ok snapshot c \<longleftrightarrow>
     sc_sequence_generation c \<noteq> 0 \<and> sc_ready_enqueue_seq c \<noteq> 0 \<and> sc_real_token_count c \<noteq> 0 \<and>
     valid_phase (sc_next_phase c) \<and> 0 \<le> sc_prefill_eligible_since_ns c \<and>
     sc_prefill_eligible_since_ns c \<le> sn_now_ns snapshot"

lemma candidate_status_okD:
  assumes "ok (candidate_status snapshot i)" and "i < length (sn_candidates snapshot)"
  shows "candidate_ok snapshot (candidate_at snapshot i)"
    and "j < i \<Longrightarrow> sc_sequence_generation (candidate_at snapshot j) \<noteq>
      sc_sequence_generation (candidate_at snapshot i)"
proof -
  show "candidate_ok snapshot (candidate_at snapshot i)"
    using assms(1) by (auto simp: candidate_status_def candidate_ok_def Let_def split: if_splits)
  assume "j < i"
  with assms(2) have "candidate_at snapshot j \<in> set (take i (sn_candidates snapshot))"
    by (auto simp: in_set_conv_nth intro!: exI [of _ j])
  with assms(1) show "sc_sequence_generation (candidate_at snapshot j) \<noteq>
      sc_sequence_generation (candidate_at snapshot i)"
    by (auto simp: candidate_status_def Let_def split: if_splits)
qed

definition decided ::
  "SchedulerSnapshot \<Rightarrow> scan_state \<Rightarrow> SchedulerTier \<Rightarrow> PackedTokenPhase \<Rightarrow> PhaseTierScheduler \<Rightarrow>
   PhaseTierScheduler" where
  "decided snapshot y tier phase s =
     s\<lparr>ts_generation := ts_generation s + 1, ts_included_indices := sy_included y,
       ts_selected_generations :=
         map (\<lambda>i. sc_sequence_generation (candidate_at snapshot i)) (sy_included y),
       ts_selected_token_counts :=
         map (\<lambda>i. sc_real_token_count (candidate_at snapshot i)) (sy_included y),
       ts_current_candidate_count := of_nat (length (sn_candidates snapshot)),
       ts_current_total_tokens := sy_total_tokens y, ts_current_tier := tier,
       ts_current_phase := phase\<rparr>"

lemma select_accepted:
  assumes "profile_ok (ts_profile s)" and "select snapshot s = (Inr v, t)"
  obtains y where "\<not> snapshot_exceeds snapshot s" and "snapshot_ok (ts_profile s) snapshot"
    and "\<forall>c\<in>set (sn_candidates snapshot). candidate_ok snapshot c"
    and "try_tiers (ts_profile s) snapshot (tier_preferences (ts_profile s) snapshot)
      (scan_start snapshot) = (y, dv_tier v, dv_phase v)"
    and "dv_included_candidate_indices v = sy_included y" and "dv_candidate_results v = sy_results y"
    and "dv_total_real_tokens v = sy_total_tokens y" and "dv_generation v = ts_generation s + 1"
    and "t = decided snapshot y (dv_tier v) (dv_phase v) s"
proof -
  have ex: "\<not> snapshot_exceeds snapshot s"
    and chk: "ok (first_error (map (candidate_status snapshot) [0..<length (sn_candidates snapshot)]))"
    using assms(2) by (auto simp: select_def Let_def split: if_splits)
  have st: "ok (candidate_status snapshot i)" if "i < length (sn_candidates snapshot)" for i
    using chk that by simp
  have "snapshot_ok (ts_profile s) snapshot"
    unfolding snapshot_ok_def
  proof (intro conjI allI impI)
    show "pf_maximum_sequences_per_plan (ts_profile s) \<noteq> 0" using assms(1) by (simp add: profile_ok_def)
    fix i j
    assume i: "i < length (sn_candidates snapshot)" and j: "j < length (sn_candidates snapshot)"
      and e: "sc_sequence_generation (candidate_at snapshot i) = sc_sequence_generation (candidate_at snapshot j)"
    show "i = j"
    proof (rule ccontr)
      assume "i \<noteq> j"
      then consider "i < j" | "j < i" by linarith
      then show False
        using candidate_status_okD(2) [OF st [OF i] i, of j] candidate_status_okD(2) [OF st [OF j] j, of i] e
        by cases simp_all
    qed
  qed
  moreover have "\<forall>c\<in>set (sn_candidates snapshot). candidate_ok snapshot c"
    using candidate_status_okD(1) [OF st] by (auto simp: in_set_conv_nth)
  moreover obtain y tier phase where "try_tiers (ts_profile s) snapshot
      (tier_preferences (ts_profile s) snapshot) (scan_start snapshot) = (y, tier, phase)"
    by (metis prod_cases3)
  ultimately show ?thesis
    using assms(2) ex chk by (intro that [of y]) (auto simp: select_def Let_def decided_def)
qed


definition decision_ok :: "PhaseTierScheduler \<Rightarrow> bool" where
  "decision_ok s \<longleftrightarrow>
     profile_ok (ts_profile s) \<and>
     length (ts_selected_generations s) = length (ts_included_indices s) \<and>
     length (ts_selected_token_counts s) = length (ts_included_indices s) \<and>
     distinct (ts_selected_generations s) \<and>
     (\<forall>g\<in>set (ts_selected_generations s). g \<noteq> 0) \<and> (\<forall>n\<in>set (ts_selected_token_counts s). n \<noteq> 0) \<and>
     (\<Sum>n\<leftarrow>ts_selected_token_counts s. unat n) = unat (ts_current_total_tokens s) \<and>
     ts_current_total_tokens s \<le> pf_maximum_real_tokens_per_plan (ts_profile s) \<and>
     length (ts_included_indices s) \<le> unat (pf_maximum_sequences_per_plan (ts_profile s)) \<and>
     (\<forall>i\<in>set (ts_included_indices s). i < unat (ts_current_candidate_count s)) \<and>
     valid_phase (ts_current_phase s) \<and>
     (ts_current_tier s = kIdle \<longleftrightarrow> ts_included_indices s = [])"

definition scheduler_init :: "PhaseTierScheduler \<Rightarrow> bool" where
  "scheduler_init s \<longleftrightarrow> (\<exists>profile. scheduler_Create profile = Inr s)"

definition scheduler_step :: "PhaseTierScheduler \<Rightarrow> PhaseTierScheduler \<Rightarrow> bool" where
  "scheduler_step s t \<longleftrightarrow> (\<exists>snapshot. snd (select snapshot s) = t)"

lemma serves_valid:
  "serves snapshot tier phase \<Longrightarrow> \<forall>c\<in>set (sn_candidates snapshot). candidate_ok snapshot c \<Longrightarrow>
     valid_phase phase"
  by (auto simp: serves_def least_decode_def candidate_ok_def split: if_splits)
    (simp_all add: valid_phase_def)

lemma select_outcome:
  assumes "profile_ok (ts_profile s)" and "select snapshot s = (Inr v, t)"
  defines "included \<equiv> dv_included_candidate_indices v"
  shows "\<forall>i\<in>set included. i < length (sn_candidates snapshot) \<and> dv_candidate_results v ! i = kNone \<and>
      sc_infeasibility (candidate_at snapshot i) = kNone"
    and "length included \<le> unat (pf_maximum_sequences_per_plan (ts_profile s))"
    and "token_total snapshot included = unat (dv_total_real_tokens v)"
    and "dv_total_real_tokens v \<le> pf_maximum_real_tokens_per_plan (ts_profile s)"
    and "dv_tier v = kIdle \<and> included = [] \<and> dv_phase v = kPrefill \<and>
        (\<forall>tier\<in>set (tier_preferences (ts_profile s) snapshot). barren (ts_profile s) snapshot tier) \<or>
      dv_tier v \<noteq> kIdle \<and> chosen (ts_profile s) snapshot (dv_tier v) (dv_phase v) included \<and>
        (\<exists>before after. tier_preferences (ts_profile s) snapshot = before @ dv_tier v # after \<and>
           (\<forall>tier\<in>set before. barren (ts_profile s) snapshot tier))"
proof -
  obtain y where ok: "snapshot_ok (ts_profile s) snapshot"
    and tr: "try_tiers (ts_profile s) snapshot (tier_preferences (ts_profile s) snapshot)
      (scan_start snapshot) = (y, dv_tier v, dv_phase v)"
    and v: "dv_included_candidate_indices v = sy_included y" "dv_candidate_results v = sy_results y"
      "dv_total_real_tokens v = sy_total_tokens y"
    by (rule select_accepted [OF assms(1,2)]) blast
  have spec: "scan_ok (ts_profile s) snapshot y \<and>
    (dv_tier v = kIdle \<and> dv_phase v = kPrefill \<and> sy_included y = [] \<and>
       (\<forall>t\<in>set (tier_preferences (ts_profile s) snapshot). barren (ts_profile s) snapshot t) \<or>
     chosen (ts_profile s) snapshot (dv_tier v) (dv_phase v) (sy_included y) \<and>
       (\<exists>before after. tier_preferences (ts_profile s) snapshot = before @ dv_tier v # after \<and>
          (\<forall>t\<in>set before. barren (ts_profile s) snapshot t)))"
    by (rule try_tiers_spec [OF ok fresh_scan_start preferences_ready(1,2) _ tr])
      (blast intro: preferences_ready(3))
  then show "\<forall>i\<in>set included. i < length (sn_candidates snapshot) \<and> dv_candidate_results v ! i = kNone \<and>
      sc_infeasibility (candidate_at snapshot i) = kNone"
    and "length included \<le> unat (pf_maximum_sequences_per_plan (ts_profile s))"
    and "token_total snapshot included = unat (dv_total_real_tokens v)"
    and "dv_total_real_tokens v \<le> pf_maximum_real_tokens_per_plan (ts_profile s)"
    by (auto simp: scan_ok_def included_def v word_le_nat_alt)
  from spec preferences_ready(2) [of "ts_profile s" snapshot]
  show "dv_tier v = kIdle \<and> included = [] \<and> dv_phase v = kPrefill \<and>
        (\<forall>tier\<in>set (tier_preferences (ts_profile s) snapshot). barren (ts_profile s) snapshot tier) \<or>
      dv_tier v \<noteq> kIdle \<and> chosen (ts_profile s) snapshot (dv_tier v) (dv_phase v) included \<and>
        (\<exists>before after. tier_preferences (ts_profile s) snapshot = before @ dv_tier v # after \<and>
           (\<forall>tier\<in>set before. barren (ts_profile s) snapshot tier))"
    unfolding included_def v by (metis in_set_conv_decomp)
qed

lemma decision_ok_select:
  assumes "decision_ok s"
  shows "decision_ok (snd (select snapshot s))"
proof (cases "fst (select snapshot s)")
  case (Inl e)
  then have "snd (select snapshot s) = s"
    by (auto simp: select_def Let_def split: if_splits prod.splits)
  with assms show ?thesis by simp
next
  case (Inr v)
  obtain t where sel: "select snapshot s = (Inr v, t)" using Inr by (metis prod.collapse)
  have pr: "profile_ok (ts_profile s)" using assms by (simp add: decision_ok_def)
  note out = select_outcome [OF pr sel]
  obtain y where nex: "\<not> snapshot_exceeds snapshot s" and ok: "snapshot_ok (ts_profile s) snapshot"
    and cand: "\<forall>c\<in>set (sn_candidates snapshot). candidate_ok snapshot c"
    and v: "dv_included_candidate_indices v = sy_included y" "dv_total_real_tokens v = sy_total_tokens y"
    and t: "t = decided snapshot y (dv_tier v) (dv_phase v) s"
    by (rule select_accepted [OF pr sel]) blast
  have len: "length (sn_candidates snapshot) < 2 ^ 32"
    using nex unat_lt_u32 [of "pf_maximum_candidates (ts_profile s)"] by (simp add: snapshot_exceeds_def)
  have in_range: "\<forall>i\<in>set (sy_included y). i < length (sn_candidates snapshot)"
    using out(1) v(1) by simp
  have d: "distinct (sy_included y)" and "valid_phase (dv_phase v)"
    and "dv_tier v = kIdle \<longleftrightarrow> sy_included y = []"
    using out(5) v(1) serves_valid [OF _ cand] by (auto simp: chosen_def valid_phase_def)
  moreover have "inj_on (\<lambda>i. sc_sequence_generation (candidate_at snapshot i)) (set (sy_included y))"
    using ok in_range by (auto simp: inj_on_def snapshot_ok_def)
  with d have "distinct (map (\<lambda>i. sc_sequence_generation (candidate_at snapshot i)) (sy_included y))"
    by (simp add: distinct_map)
  moreover have "unat (of_nat (length (sn_candidates snapshot)) :: u32) = length (sn_candidates snapshot)"
    using len by (simp add: unat_of_nat)
  moreover have "candidate_ok snapshot (candidate_at snapshot i)" if "i \<in> set (sy_included y)" for i
    using cand in_range that by simp
  ultimately show ?thesis
    using pr out(2-4) v in_range unfolding sel t
    by (simp add: decision_ok_def decided_def token_total_def comp_def candidate_ok_def)
qed

interpretation scheduler: inductive_invariant scheduler_init scheduler_step decision_ok
proof (unfold_locales, goal_cases)
  case (1 s)
  then show ?case
    by (auto simp: scheduler_init_def scheduler_Create_def scheduler_new_def decision_ok_def
        profile_ok_def valid_phase_def not_less split: if_splits)
next
  case (2 s t)
  then show ?case using decision_ok_select by (auto simp: scheduler_step_def)
qed


text \<open>
  C24. A decision is sound. The included candidates are distinct members of the snapshot, feasible, of
  the one phase the decision names, and in strict key order (least recently served first, then
  arrival); their number and their tokens, counted without wrap-around, respect the profile; and
  the decision is idle exactly when nothing is included.
\<close>

theorem select_sound:
  assumes "reachable scheduler_init scheduler_step s" and "select snapshot s = (Inr v, t)"
  shows "distinct (dv_included_candidate_indices v) \<and>
    (\<forall>i\<in>set (dv_included_candidate_indices v). i < length (sn_candidates snapshot) \<and>
       sc_infeasibility (sn_candidates snapshot ! i) = kNone \<and>
       sc_next_phase (sn_candidates snapshot ! i) = dv_phase v \<and> dv_candidate_results v ! i = kNone) \<and>
    sorted_wrt (\<lambda>i j. key_less (sn_candidates snapshot ! i) (sn_candidates snapshot ! j))
      (dv_included_candidate_indices v) \<and>
    length (dv_included_candidate_indices v) \<le> unat (pf_maximum_sequences_per_plan (ts_profile s)) \<and>
    (\<Sum>i\<leftarrow>dv_included_candidate_indices v. unat (sc_real_token_count (sn_candidates snapshot ! i))) =
      unat (dv_total_real_tokens v) \<and>
    dv_total_real_tokens v \<le> pf_maximum_real_tokens_per_plan (ts_profile s) \<and>
    (dv_tier v = kIdle \<longleftrightarrow> dv_included_candidate_indices v = [])"
proof -
  have pr: "profile_ok (ts_profile s)"
    using scheduler.holds_when_reachable [OF assms(1)] by (simp add: decision_ok_def)
  note out = select_outcome [OF pr assms(2)]
  from out(5) show ?thesis
    using out(1-4) by (auto simp: chosen_def token_total_def)
qed

text \<open>
  C25. The scheduler does not idle on work it could do. An idle decision means that no prefill
  candidate is feasible within the token bound and that none of the decode-family candidates of the
  phase of the least key is. A decision for a tier leads with the least key among the candidates of
  that tier and phase that could run.
\<close>

theorem select_progress:
  assumes "reachable scheduler_init scheduler_step s" and "select snapshot s = (Inr v, t)"
    and "i < length (sn_candidates snapshot)" and "fits (ts_profile s) (sn_candidates snapshot ! i)"
  shows "(dv_tier v = kIdle \<longrightarrow> sc_next_phase (sn_candidates snapshot ! i) \<noteq> kPrefill \<and>
      (\<exists>h. least_decode snapshot h \<and>
         sc_next_phase (sn_candidates snapshot ! h) \<noteq> sc_next_phase (sn_candidates snapshot ! i))) \<and>
    (dv_tier v \<noteq> kIdle \<and> belongs (ts_profile s) snapshot (dv_tier v) (sn_candidates snapshot ! i) \<and>
      sc_next_phase (sn_candidates snapshot ! i) = dv_phase v \<longrightarrow>
      hd (dv_included_candidate_indices v) = i \<or>
      key_less (sn_candidates snapshot ! hd (dv_included_candidate_indices v)) (sn_candidates snapshot ! i))"
proof -
  have pr: "profile_ok (ts_profile s)"
    using scheduler.holds_when_reachable [OF assms(1)] by (simp add: decision_ok_def)
  note out = select_outcome(5) [OF pr assms(2)]
  let ?c = "sn_candidates snapshot ! i"
  have mem: "?c \<in> set (sn_candidates snapshot)" using assms(3) by simp
  have "sc_next_phase ?c \<noteq> kPrefill \<and> (\<exists>h. least_decode snapshot h \<and>
      sc_next_phase (sn_candidates snapshot ! h) \<noteq> sc_next_phase ?c)" if idle: "dv_tier v = kIdle"
  proof
    have b: "\<forall>tier\<in>set (tier_preferences (ts_profile s) snapshot). barren (ts_profile s) snapshot tier"
      using out idle by blast
    show np: "sc_next_phase ?c \<noteq> kPrefill"
    proof
      assume p: "sc_next_phase ?c = kPrefill"
      then have "kNormalPrefill \<in> set (tier_preferences (ts_profile s) snapshot)"
        using mem by (auto simp: tier_preferences_eq)
      with b p assms(3,4) show False by (auto simp: barren_def serves_def belongs_def)
    qed
    then have "kDecodeFamily \<in> set (tier_preferences (ts_profile s) snapshot)"
      using mem by (auto simp: tier_preferences_eq)
    with b np assms(3,4) show "\<exists>h. least_decode snapshot h \<and>
        sc_next_phase (sn_candidates snapshot ! h) \<noteq> sc_next_phase ?c"
      by (fastforce simp: barren_def serves_def belongs_def)
  qed
  moreover have "hd (dv_included_candidate_indices v) = i \<or>
      key_less (sn_candidates snapshot ! hd (dv_included_candidate_indices v)) ?c"
    if "dv_tier v \<noteq> kIdle" "belongs (ts_profile s) snapshot (dv_tier v) ?c" "sc_next_phase ?c = dv_phase v"
    using out that assms(3,4) by (auto simp: chosen_def)
  ultimately show ?thesis by blast
qed

text \<open>
  C26. Starvation protection and its counterweight. If a starved prefill candidate could run and the
  last plan was not a protected prefill (or no decode work is waiting), the decision is a protected
  prefill. If the last plan was a protected prefill and the decode family's least key could run, the
  decision is a decode plan. And once the run of decode rounds has reached its cap, a prefill
  candidate that could run is not passed over for decode work unless a protected prefill has just run.
\<close>

theorem select_fairness:
  assumes "reachable scheduler_init scheduler_step s" and "select snapshot s = (Inr v, t)"
    and "i < length (sn_candidates snapshot)" and "fits (ts_profile s) (sn_candidates snapshot ! i)"
  shows "(sc_next_phase (sn_candidates snapshot ! i) = kPrefill \<and>
      starved (ts_profile s) snapshot (sn_candidates snapshot ! i) \<and>
      (\<not> has_decode snapshot \<or> \<not> sn_last_successful_plan_was_protected_prefill snapshot) \<longrightarrow>
        dv_tier v = kProtectedPrefill) \<and>
    (least_decode snapshot i \<and> sn_last_successful_plan_was_protected_prefill snapshot \<longrightarrow>
        dv_tier v = kDecodeFamily) \<and>
    (sc_next_phase (sn_candidates snapshot ! i) = kPrefill \<and>
      pf_max_consecutive_decode_rounds (ts_profile s) \<le> sn_consecutive_decode_rounds snapshot \<and>
      \<not> sn_last_successful_plan_was_protected_prefill snapshot \<longrightarrow> dv_phase v = kPrefill)"
proof -
  have pr: "profile_ok (ts_profile s)"
    using scheduler.holds_when_reachable [OF assms(1)] by (simp add: decision_ok_def)
  let ?c = "sn_candidates snapshot ! i" and ?prefs = "tier_preferences (ts_profile s) snapshot"
  have mem: "?c \<in> set (sn_candidates snapshot)" using assms(3) by simp
  note out = select_outcome(5) [OF pr assms(2)]
  have first: "dv_tier v = u" if "?prefs = u # us" "\<not> barren (ts_profile s) snapshot u" for u us
    using out that by (auto simp: append_eq_Cons_conv Cons_eq_append_conv)
  have np: "\<not> barren (ts_profile s) snapshot kNormalPrefill" if "sc_next_phase ?c = kPrefill"
    using that assms(3,4) by (auto simp: barren_def serves_def belongs_def)
  have "dv_tier v = kProtectedPrefill"
    if p: "sc_next_phase ?c = kPrefill" "starved (ts_profile s) snapshot ?c"
      "\<not> has_decode snapshot \<or> \<not> sn_last_successful_plan_was_protected_prefill snapshot"
  proof (rule first)
    have "protection_due (ts_profile s) snapshot" using p mem by (auto simp: protection_due_def)
    then show "?prefs = kProtectedPrefill # tl ?prefs" by (simp add: tier_preferences_eq)
    show "\<not> barren (ts_profile s) snapshot kProtectedPrefill"
      using p(1,2) assms(3,4) by (auto simp: barren_def serves_def belongs_def)
  qed
  moreover have "dv_tier v = kDecodeFamily"
    if p: "least_decode snapshot i" "sn_last_successful_plan_was_protected_prefill snapshot"
  proof (rule first)
    have hd: "has_decode snapshot" using p(1) mem by (auto simp: least_decode_def)
    then have "decode_due (ts_profile s) snapshot" "\<not> protection_due (ts_profile s) snapshot"
      using p(2) by (auto simp: decode_due_def protection_due_def)
    then show "?prefs = kDecodeFamily # tl ?prefs" by (simp add: tier_preferences_eq)
    have uniq: "h = i" if "least_decode snapshot h" for h
      using that p(1) unfolding least_decode_def key_less_iff by (metis less_asym)
    show "\<not> barren (ts_profile s) snapshot kDecodeFamily"
    proof
      assume "barren (ts_profile s) snapshot kDecodeFamily"
      then obtain h where h: "least_decode snapshot h"
        and nf: "\<And>k. k < length (sn_candidates snapshot) \<Longrightarrow>
          belongs (ts_profile s) snapshot kDecodeFamily (sn_candidates snapshot ! k) \<Longrightarrow>
          \<not> fitting (ts_profile s) snapshot (sc_next_phase (sn_candidates snapshot ! h)) k"
        by (auto simp: barren_def serves_def)
      from nf [OF assms(3)] uniq [OF h] p(1) assms(4) show False
        by (simp add: belongs_def least_decode_def)
    qed
  qed
  moreover have "dv_phase v = kPrefill"
    if p: "sc_next_phase ?c = kPrefill"
      "pf_max_consecutive_decode_rounds (ts_profile s) \<le> sn_consecutive_decode_rounds snapshot"
      "\<not> sn_last_successful_plan_was_protected_prefill snapshot"
  proof -
    have "\<not> decode_due (ts_profile s) snapshot" and hp: "has_prefill snapshot"
      using p mem by (auto simp: decode_due_def)
    then have prefs: "?prefs = (if protection_due (ts_profile s) snapshot then [kProtectedPrefill] else []) @
        kNormalPrefill # (if has_decode snapshot then [kDecodeFamily] else [])"
      by (simp add: tier_preferences_eq)
    have "dv_tier v \<noteq> kDecodeFamily"
      using out np [OF p(1)] prefs
      by (auto simp: append_eq_Cons_conv Cons_eq_append_conv split: if_splits)
    with out show ?thesis by (auto simp: chosen_def serves_def)
  qed
  ultimately show ?thesis by blast
qed


section \<open>From a decision to a plan\<close>

lemma collect_results_map:
  "(\<And>x. x \<in> set xs \<Longrightarrow> f x = Inr (g x)) \<Longrightarrow> collect_results (map f xs) = Inr (map g xs)"
  by (induction xs) simp_all

lemma fold_token_sum:
  fixes ns :: "u32 list" and start :: u64
  assumes "unat start + (\<Sum>n\<leftarrow>ns. unat n) < 2 ^ 64"
  shows "unat (fold (\<lambda>n total. total + ucast n) ns start) = unat start + (\<Sum>n\<leftarrow>ns. unat n)"
  using assms
proof (induction ns arbitrary: start)
  case (Cons n ns)
  have "unat (start + ucast n) = unat start + unat n"
    using Cons.prems by (simp add: unat_word_ariths)
  with Cons.IH [of "start + ucast n"] Cons.prems show ?case by simp
qed simp

lemma ledger_never_drifts:
  assumes "decision_ok s"
  shows "fold (\<lambda>n total. total + (ucast n :: u64)) (ts_selected_token_counts s) 0 =
    ucast (ts_current_total_tokens s)"
proof -
  have sum: "(\<Sum>n\<leftarrow>ts_selected_token_counts s. unat n) = unat (ts_current_total_tokens s)"
    using assms by (simp add: decision_ok_def)
  then have "(\<Sum>n\<leftarrow>ts_selected_token_counts s. unat n) < 2 ^ 64"
    using unat_lt_u32 [of "ts_current_total_tokens s"] by simp
  with fold_token_sum [of 0 "ts_selected_token_counts s"] sum show ?thesis
    by (simp add: word_unat_eq_iff)
qed

definition identity_ok :: "ScheduledPlanIdentity \<Rightarrow> u32 \<Rightarrow> bool" where
  "identity_ok identity tokens \<longleftrightarrow>
     pid_epoch identity \<noteq> 0 \<and> pid_plan_sequence identity \<noteq> 0 \<and> pid_profile_revision identity \<noteq> [] \<and>
     length (pid_profile_revision identity) \<le> 128 \<and> nonzero (pid_resource_vector_hash identity) \<and>
     tokens \<le> pid_execution_bucket_tokens identity \<and>
     pid_execution_bucket_tokens identity \<le> pid_maximum_execution_bucket_tokens identity"

text \<open>The inputs of the plan, and what the assembly asks of the candidates' states.\<close>

definition decision_inputs ::
  "SchedulerSnapshot \<Rightarrow> ScheduledSequenceState list \<Rightarrow> nat list \<Rightarrow> PackedSequenceInput list" where
  "decision_inputs snapshot states included =
     map (\<lambda>i. \<lparr>si_sequence_generation = sst_sequence_generation (states ! i),
               si_committed_start_position = sst_committed_start_position (states ! i),
               si_real_token_count = sc_real_token_count (sn_candidates snapshot ! i),
               si_state_generation = sst_state_generation (states ! i),
               si_input_digest = sst_input_digest (states ! i)\<rparr>) included"

definition state_current ::
  "SchedulerSnapshot \<Rightarrow> PackedTokenPhase \<Rightarrow> ScheduledSequenceState list \<Rightarrow> nat \<Rightarrow> bool" where
  "state_current snapshot phase states i \<longleftrightarrow>
     sst_sequence_generation (states ! i) = sc_sequence_generation (sn_candidates snapshot ! i) \<and>
     sst_state_generation (states ! i) \<noteq> 0 \<and> nonzero (sst_input_digest (states ! i)) \<and>
     (phase = kDecode \<longrightarrow> sc_real_token_count (sn_candidates snapshot ! i) = 1) \<and>
     (phase = kVerify \<longrightarrow> sc_real_token_count (sn_candidates snapshot ! i) \<le> 5)"

lemma assemble_inputs:
  assumes "\<forall>i\<in>set (sy_included y). i < length states \<and> state_current snapshot phase states i"
  shows "collect_results (map (assemble_input (decided snapshot y tier phase s) states)
      [0..<length (sy_included y)]) = Inr (decision_inputs snapshot states (sy_included y))"
proof -
  let ?inputs = "decision_inputs snapshot states (sy_included y)"
  have "assemble_input (decided snapshot y tier phase s) states k = Inr (?inputs ! k)"
    if "k < length (sy_included y)" for k
  proof -
    have "sy_included y ! k < length states" "state_current snapshot phase states (sy_included y ! k)"
      using assms nth_mem [OF that] by blast+
    with that show ?thesis
      by (simp add: assemble_input_def decision_inputs_def decided_def state_current_def Let_def)
  qed
  then have "collect_results (map (assemble_input (decided snapshot y tier phase s) states)
      [0..<length (sy_included y)]) = Inr (map ((!) ?inputs) [0..<length (sy_included y)])"
    by (intro collect_results_map) simp
  moreover have "map ((!) ?inputs) [0..<length (sy_included y)] = ?inputs"
    using map_nth [of ?inputs] by (simp add: decision_inputs_def)
  ultimately show ?thesis by simp
qed

lemma decision_inputs_acceptable:
  assumes "\<forall>i\<in>set included. state_current snapshot phase states i \<and>
    candidate_ok snapshot (sn_candidates snapshot ! i)"
  shows "\<forall>x\<in>set (decision_inputs snapshot states included). sequence_acceptable phase x"
    and "map si_sequence_generation (decision_inputs snapshot states included) =
      map (\<lambda>i. sc_sequence_generation (sn_candidates snapshot ! i)) included"
    and "token_sum (decision_inputs snapshot states included) = token_total snapshot included"
  using assms
  by (auto simp: decision_inputs_def sequence_acceptable_def state_current_def candidate_ok_def
      token_sum_def token_total_def comp_def)

lemma plan_of_decision:
  assumes "profile_ok profile" and "identity_ok identity tokens" and "inputs \<noteq> []"
    and "length inputs \<le> unat (pf_maximum_sequences_per_plan profile)"
    and "token_sum inputs = unat tokens" and "tokens \<le> pf_maximum_real_tokens_per_plan profile"
    and "\<forall>x\<in>set inputs. sequence_acceptable phase x" and "distinct (map si_sequence_generation inputs)"
    and "valid_phase phase" and "tokens \<noteq> 0"
  shows "plan_Create (pid_epoch identity) (pid_plan_sequence identity) phase
      (pid_profile_revision identity) (pid_resource_vector_hash identity) inputs
      (pid_execution_bucket_tokens identity)
      \<lparr>pl_maximum_sequences = pf_maximum_sequences_per_plan profile,
       pl_maximum_real_tokens = pf_maximum_real_tokens_per_plan profile,
       pl_maximum_execution_bucket_tokens = pid_maximum_execution_bucket_tokens identity\<rparr> =
    Inr (built_plan (pid_epoch identity) (pid_plan_sequence identity) phase
      (pid_profile_revision identity) (pid_resource_vector_hash identity) inputs
      (pid_execution_bucket_tokens identity))"
proof -
  have "0 < unat tokens" using assms(10) by (simp add: unat_gt_0_word)
  then have "pid_execution_bucket_tokens identity \<noteq> 0" "pid_maximum_execution_bucket_tokens identity \<noteq> 0"
    using assms(2) by (auto simp: identity_ok_def word_le_nat_alt)
  then show ?thesis
    using assms by (simp add: plan_Create_Inr_iff plan_identity_invalid_def identity_ok_def
        profile_ok_def word_le_nat_alt word_less_nat_alt not_less)
qed

text \<open>
  C27. A decision becomes the plan it describes. Given the current states of the candidates, token
  counts that obey the per-phase bounds and a well-formed identity, assembling the decision just
  taken succeeds, and the plan lists exactly the included candidates in decision order with their
  positions and token counts; any other decision generation is refused.
\<close>

theorem assemble_decision:
  assumes "reachable scheduler_init scheduler_step s" and "select snapshot s = (Inr v, t)"
    and "dv_tier v \<noteq> kIdle" and "length states = length (sn_candidates snapshot)"
    and "\<forall>i\<in>set (dv_included_candidate_indices v). state_current snapshot (dv_phase v) states i"
    and "identity_ok identity (dv_total_real_tokens v)"
  shows "(\<exists>plan. assemble_current_plan (dv_generation v) identity states t = Inr plan \<and>
      pp_phase plan = dv_phase v \<and>
      pp_sequence_generations plan =
        map (\<lambda>i. sc_sequence_generation (sn_candidates snapshot ! i)) (dv_included_candidate_indices v) \<and>
      pp_committed_start_positions plan =
        map (\<lambda>i. sst_committed_start_position (states ! i)) (dv_included_candidate_indices v) \<and>
      pp_real_token_counts plan =
        map (\<lambda>i. sc_real_token_count (sn_candidates snapshot ! i)) (dv_included_candidate_indices v) \<and>
      pp_total_real_tokens plan = dv_total_real_tokens v) \<and>
    (\<forall>g. g \<noteq> dv_generation v \<longrightarrow> \<not> is_ok (assemble_current_plan g identity states t))"
proof -
  have s: "decision_ok s" by (rule scheduler.holds_when_reachable [OF assms(1)])
  then have pr: "profile_ok (ts_profile s)" by (simp add: decision_ok_def)
  have t_ok: "decision_ok t" using decision_ok_select [OF s, of snapshot] assms(2) by simp
  note out = select_outcome [OF pr assms(2)]
  obtain y where nex: "\<not> snapshot_exceeds snapshot s"
    and cand: "\<forall>c\<in>set (sn_candidates snapshot). candidate_ok snapshot c"
    and v: "dv_included_candidate_indices v = sy_included y" "dv_total_real_tokens v = sy_total_tokens y"
      "dv_generation v = ts_generation s + 1"
    and t: "t = decided snapshot y (dv_tier v) (dv_phase v) s"
    by (rule select_accepted [OF pr assms(2)]) blast
  let ?inputs = "decision_inputs snapshot states (sy_included y)"
  have cur: "\<forall>i\<in>set (sy_included y). state_current snapshot (dv_phase v) states i \<and>
      candidate_ok snapshot (sn_candidates snapshot ! i)"
    using assms(5) out(1) cand v(1) by simp
  note acc = decision_inputs_acceptable [OF cur]
  have ne: "sy_included y \<noteq> []" using out(5) assms(3) v(1) by (auto simp: chosen_def)
  have col: "collect_results (map (assemble_input t states) [0..<length (sy_included y)]) = Inr ?inputs"
    unfolding t using cur out(1) v(1) assms(4) by (intro assemble_inputs) simp
  have fresh: "\<not> decision_stale (dv_generation v) (length states) t"
    using nex ne assms(3,4) unat_lt_u32 [of "pf_maximum_candidates (ts_profile s)"] unfolding t v(3)
    by (simp add: decision_stale_def decided_def unat_of_nat snapshot_exceeds_def word_plus_1_eq_0_iff)
  obtain i rest where "sy_included y = i # rest" using ne by (cases "sy_included y") auto
  then have pos: "dv_total_real_tokens v \<noteq> 0"
    using out(3) cur v(1) by (auto simp: candidate_ok_def unat_gt_0_word [symmetric])
  have "distinct (map si_sequence_generation ?inputs)" "valid_phase (dv_phase v)"
    using t_ok acc(2) unfolding t by (simp_all add: decision_ok_def decided_def)
  then have create: "plan_Create (pid_epoch identity) (pid_plan_sequence identity) (dv_phase v)
      (pid_profile_revision identity) (pid_resource_vector_hash identity) ?inputs
      (pid_execution_bucket_tokens identity)
      \<lparr>pl_maximum_sequences = pf_maximum_sequences_per_plan (ts_profile s),
       pl_maximum_real_tokens = pf_maximum_real_tokens_per_plan (ts_profile s),
       pl_maximum_execution_bucket_tokens = pid_maximum_execution_bucket_tokens identity\<rparr> =
      Inr (built_plan (pid_epoch identity) (pid_plan_sequence identity) (dv_phase v)
        (pid_profile_revision identity) (pid_resource_vector_hash identity) ?inputs
        (pid_execution_bucket_tokens identity))"
    using pr assms(6) out(2,3,4) v(1) acc ne pos
    by (intro plan_of_decision [of _ _ "dv_total_real_tokens v"]) (simp_all add: decision_inputs_def)
  have fields: "ts_included_indices t = sy_included y" "ts_current_phase t = dv_phase v"
    "ts_profile t = ts_profile s"
    by (simp_all add: t decided_def)
  have "assemble_current_plan (dv_generation v) identity states t =
      Inr (built_plan (pid_epoch identity) (pid_plan_sequence identity) (dv_phase v)
        (pid_profile_revision identity) (pid_resource_vector_hash identity) ?inputs
        (pid_execution_bucket_tokens identity))"
    using fresh col create ledger_never_drifts [OF t_ok]
    by (simp add: assemble_current_plan_def fields Let_def)
  moreover have "\<not> is_ok (assemble_current_plan g identity states t)" if "g \<noteq> dv_generation v" for g
    using that v(3) by (simp add: assemble_current_plan_def decision_stale_def t decided_def)
  ultimately show ?thesis
    using acc(2,3) out(3) v(1) by (simp add: built_plan_def decision_inputs_def)
qed


section \<open>Instances\<close>

definition example_profile :: PhaseTierProfile where
  "example_profile =
     \<lparr>pf_maximum_candidates = 4, pf_maximum_sequences_per_plan = 2,
      pf_maximum_real_tokens_per_plan = 8, pf_scheduler_scan_limit = 4,
      pf_max_consecutive_decode_rounds = 2, pf_prefill_starvation_threshold_ns = 100\<rparr>"

definition example_candidate :: "u64 \<Rightarrow> PackedTokenPhase \<Rightarrow> i64 \<Rightarrow> u32 \<Rightarrow> SchedulerCandidate" where
  "example_candidate g phase since n =
     \<lparr>sc_sequence_generation = g, sc_next_phase = phase, sc_last_service_plan_seq = 0,
      sc_ready_enqueue_seq = g, sc_prefill_eligible_since_ns = since, sc_real_token_count = n,
      sc_infeasibility = kNone\<rparr>"

definition example_snapshot :: SchedulerSnapshot where
  "example_snapshot =
     \<lparr>sn_now_ns = 200, sn_consecutive_decode_rounds = 0,
      sn_last_successful_plan_was_protected_prefill = False,
      sn_candidates =
        [example_candidate 3 kPrefill 50 4, example_candidate 2 kDecode 0 1,
         example_candidate 1 kPrefill 150 3]\<rparr>"

definition example_decision :: SchedulerDecisionView where
  "example_decision =
     \<lparr>dv_generation = 1, dv_tier = kProtectedPrefill, dv_phase = kPrefill,
      dv_included_candidate_indices = [0], dv_candidate_results = [kNone, kNone, kNone],
      dv_scanned_count = 1, dv_total_real_tokens = 4\<rparr>"

lemma example_scheduler_reachable:
  "reachable scheduler_init scheduler_step (scheduler_new example_profile)"
proof (rule reachable_init)
  have "scheduler_Create example_profile = Inr (scheduler_new example_profile)"
    by (simp add: scheduler_Create_def example_profile_def)
  then show "scheduler_init (scheduler_new example_profile)" unfolding scheduler_init_def by blast
qed

lemma example_select:
  "\<exists>t. select example_snapshot (scheduler_new example_profile) = (Inr example_decision, t)"
proof -
  have "fst (select example_snapshot (scheduler_new example_profile)) = Inr example_decision"
    by code_simp
  then show ?thesis by (metis prod.collapse)
qed

theorem select_sound_witness:
  "\<exists>t. select example_snapshot (scheduler_new example_profile) = (Inr example_decision, t) \<and>
     (\<Sum>i\<leftarrow>[0]. unat (sc_real_token_count (sn_candidates example_snapshot ! i))) = 4"
proof -
  obtain t where t: "select example_snapshot (scheduler_new example_profile) = (Inr example_decision, t)"
    using example_select by blast
  with select_sound [OF example_scheduler_reachable t] show ?thesis
    by (simp add: example_decision_def)
qed

lemma example_fits:
  "0 < length (sn_candidates example_snapshot)"
  "fits (ts_profile (scheduler_new example_profile)) (sn_candidates example_snapshot ! 0)"
  by (simp_all add: example_snapshot_def example_candidate_def example_profile_def scheduler_new_def
      fits_def)

theorem select_progress_witness:
  "\<exists>t. select example_snapshot (scheduler_new example_profile) = (Inr example_decision, t) \<and>
     \<not> key_less (sn_candidates example_snapshot ! 0) (sn_candidates example_snapshot ! 0) \<and>
     (hd (dv_included_candidate_indices example_decision) = 0 \<or>
      key_less (sn_candidates example_snapshot ! hd (dv_included_candidate_indices example_decision))
        (sn_candidates example_snapshot ! 0))"
proof -
  obtain t where t: "select example_snapshot (scheduler_new example_profile) = (Inr example_decision, t)"
    using example_select by blast
  with select_progress [OF example_scheduler_reachable t example_fits] show ?thesis
    by (auto simp: example_decision_def belongs_def starved_def example_snapshot_def
        example_candidate_def example_profile_def scheduler_new_def key_less_def)
qed

theorem select_fairness_witness:
  "\<exists>t. select example_snapshot (scheduler_new example_profile) = (Inr example_decision, t) \<and>
     dv_tier example_decision = kProtectedPrefill"
proof -
  obtain t where t: "select example_snapshot (scheduler_new example_profile) = (Inr example_decision, t)"
    using example_select by blast
  with select_fairness [OF example_scheduler_reachable t example_fits] show ?thesis
    by (simp add: starved_def example_snapshot_def example_candidate_def example_profile_def
        scheduler_new_def)
qed

definition example_states :: "ScheduledSequenceState list" where
  "example_states = map (\<lambda>g. \<lparr>sst_sequence_generation = g, sst_committed_start_position = 0,
     sst_state_generation = 1, sst_input_digest = ones_digest\<rparr>) [3, 2, 1]"

definition example_identity :: ScheduledPlanIdentity where
  "example_identity =
     \<lparr>pid_epoch = 1, pid_plan_sequence = 1, pid_profile_revision = ''r1'',
      pid_resource_vector_hash = ones_digest, pid_execution_bucket_tokens = 4,
      pid_maximum_execution_bucket_tokens = 8\<rparr>"

theorem assemble_decision_witness:
  "\<exists>t plan. select example_snapshot (scheduler_new example_profile) = (Inr example_decision, t) \<and>
     assemble_current_plan 1 example_identity example_states t = Inr plan \<and>
     pp_sequence_generations plan = [3] \<and> pp_real_token_counts plan = [4]"
proof -
  obtain t where t: "select example_snapshot (scheduler_new example_profile) = (Inr example_decision, t)"
    using example_select by blast
  have "\<forall>i\<in>set (dv_included_candidate_indices example_decision).
      state_current example_snapshot (dv_phase example_decision) example_states i"
    by (simp add: example_decision_def state_current_def example_states_def example_snapshot_def
        example_candidate_def)
  moreover have "identity_ok example_identity (dv_total_real_tokens example_decision)"
    by (simp add: identity_ok_def example_identity_def example_decision_def)
  moreover have "dv_tier example_decision \<noteq> kIdle"
    and "length example_states = length (sn_candidates example_snapshot)"
    by (simp_all add: example_decision_def example_states_def example_snapshot_def)
  ultimately show ?thesis
    using assemble_decision [OF example_scheduler_reachable t, of example_states example_identity] t
    by (auto simp: example_decision_def example_snapshot_def example_candidate_def)
qed

end
