(* ===== verification/Runtime.thy ===== *)
theory Runtime
  imports Ingress Sequence Scheduler CreditPool
begin

text \<open>
  \<open>controller_runtime.h\<close> and \<open>controller_runtime.cpp\<close>: the single-writer controller. It owns the ingress,
  the slots of the admitted sequences, the scheduler, the metadata arena and the output credits, and
  drives one plan at a time: prepare, commit, launch, complete.

  The fields fixed at creation are \<open>RuntimeConfig\<close>; the scratch vectors are local to the operations
  that fill them, and of \<open>selected_slot_indices_\<close> and \<open>selected_sampling_\<close> the first
  \<open>current_selected_count_\<close> entries are kept. The calling thread is an argument of the operations that
  reach the mailbox. The optional admission participant is a record of its three calls together with
  its state. The two atomics are read and written within one operation, so they are plain fields.
\<close>

section \<open>Messages\<close>

definition msg_controller_sampled_completion_identity_exhausted :: string where
  "msg_controller_sampled_completion_identity_exhausted = ''controller sampled completion identity exhausted''"

definition msg_controller_sampled_token_count_is_short :: string where
  "msg_controller_sampled_token_count_is_short = ''controller sampled token count is short''"

definition msg_controller_accepted_token_identity_exhausted :: string where
  "msg_controller_accepted_token_identity_exhausted = ''controller accepted token identity exhausted''"

definition msg_controller_has_no_canonical_sampled_completion_plan :: string where
  "msg_controller_has_no_canonical_sampled_completion_plan = ''controller has no canonical sampled completion plan''"

definition msg_controller_sampled_token_count_is_long :: string where
  "msg_controller_sampled_token_count_is_long = ''controller sampled token count is long''"

definition msg_controller_terminal_event_credit_is_unavailable :: string where
  "msg_controller_terminal_event_credit_is_unavailable = ''controller terminal event credit is unavailable''"

definition msg_controller_drain_target_is_not_active :: string where
  "msg_controller_drain_target_is_not_active = ''controller drain target is not active''"

definition msg_controller_request_release_failed_after_drain :: string where
  "msg_controller_request_release_failed_after_drain = ''controller request release failed after drain''"

definition msg_reserved_controller_terminal_event_publish_failed :: string where
  "msg_reserved_controller_terminal_event_publish_failed = ''reserved controller terminal event publish failed''"

definition msg_controller_accepted_token_result_drifted :: string where
  "msg_controller_accepted_token_result_drifted = ''controller accepted-token result drifted''"

definition msg_controller_backend_token_is_invalid :: string where
  "msg_controller_backend_token_is_invalid = ''controller backend token is invalid''"

definition msg_controller_generation_limit_requires_terminal_completion :: string where
  "msg_controller_generation_limit_requires_terminal_completion = ''controller generation limit requires terminal completion''"

definition msg_controller_decode_boundary_requires_a_pending_token :: string where
  "msg_controller_decode_boundary_requires_a_pending_token = ''controller decode boundary requires a pending token''"

definition msg_controller_output_event_count_overflowed :: string where
  "msg_controller_output_event_count_overflowed = ''controller output event count overflowed''"

definition msg_reserved_controller_drain_event_publish_failed :: string where
  "msg_reserved_controller_drain_event_publish_failed = ''reserved controller drain event publish failed''"

definition msg_validated_controller_completion_failed_to_apply :: string where
  "msg_validated_controller_completion_failed_to_apply = ''validated controller completion failed to apply''"

definition msg_reserved_controller_token_event_publish_failed :: string where
  "msg_reserved_controller_token_event_publish_failed = ''reserved controller token event publish failed''"

definition msg_controller_transferred_output_credit_has_no_owner_slot :: string where
  "msg_controller_transferred_output_credit_has_no_owner_slot = ''controller transferred output credit has no owner slot''"

definition msg_controller_completion_batch_is_invalid :: string where
  "msg_controller_completion_batch_is_invalid = ''controller completion batch is invalid''"

definition msg_controller_output_event_credit_is_unavailable :: string where
  "msg_controller_output_event_credit_is_unavailable = ''controller output event credit is unavailable''"

definition msg_controller_ready_enqueue_sequence_wrapped :: string where
  "msg_controller_ready_enqueue_sequence_wrapped = ''controller ready enqueue sequence wrapped''"

definition msg_controller_decode_round_counter_wrapped :: string where
  "msg_controller_decode_round_counter_wrapped = ''controller decode round counter wrapped''"

definition msg_controller_output_ACK_plan_is_zero :: string where
  "msg_controller_output_ACK_plan_is_zero = ''controller output ACK plan is zero''"

definition msg_controller_output_ACK_is_stale_or_forged :: string where
  "msg_controller_output_ACK_is_stale_or_forged = ''controller output ACK is stale or forged''"

definition msg_controller_output_ACK_release_failed :: string where
  "msg_controller_output_ACK_release_failed = ''controller output ACK release failed''"

definition msg_controller_prompt_chunk_mapping_drifted :: string where
  "msg_controller_prompt_chunk_mapping_drifted = ''controller prompt chunk mapping drifted''"

definition msg_decode_ready_sequence_has_no_valid_pending_token :: string where
  "msg_decode_ready_sequence_has_no_valid_pending_token = ''decode-ready sequence has no valid pending token''"

definition msg_verify_ready_sequence_has_no_bound_draft_payload :: string where
  "msg_verify_ready_sequence_has_no_bound_draft_payload = ''verify-ready sequence has no bound draft payload''"

definition msg_controller_plan_prepare_rollback_failed :: string where
  "msg_controller_plan_prepare_rollback_failed = ''controller plan prepare rollback failed''"

definition msg_controller_output_credit_rollback_failed :: string where
  "msg_controller_output_credit_rollback_failed = ''controller output credit rollback failed''"

definition msg_controller_cannot_prepare_another_plan :: string where
  "msg_controller_cannot_prepare_another_plan = ''controller cannot prepare another plan''"

definition msg_controller_plan_identity_is_invalid :: string where
  "msg_controller_plan_identity_is_invalid = ''controller plan identity is invalid''"

definition msg_controller_plan_commit_identity_drifted :: string where
  "msg_controller_plan_commit_identity_drifted = ''controller plan commit identity drifted''"

definition msg_controller_plan_commit_became_partial :: string where
  "msg_controller_plan_commit_became_partial = ''controller plan commit became partial''"

definition msg_controller_in_flight_identity_drifted :: string where
  "msg_controller_in_flight_identity_drifted = ''controller in-flight identity drifted''"

definition msg_controller_in_flight_publication_became_partial :: string where
  "msg_controller_in_flight_publication_became_partial = ''controller in-flight publication became partial''"

definition msg_controller_plan_abort_identity_drifted :: string where
  "msg_controller_plan_abort_identity_drifted = ''controller plan abort identity drifted''"

definition msg_controller_plan_abort_became_partial :: string where
  "msg_controller_plan_abort_became_partial = ''controller plan abort became partial''"

definition msg_controller_output_credit_abort_failed :: string where
  "msg_controller_output_credit_abort_failed = ''controller output credit abort failed''"

definition msg_controller_runtime_limits_are_inconsistent :: string where
  "msg_controller_runtime_limits_are_inconsistent = ''controller runtime limits are inconsistent''"

definition msg_controller_runtime_is_not_ready :: string where
  "msg_controller_runtime_is_not_ready = ''controller runtime is not ready''"

definition msg_controller_cancel_command_digest_drifted :: string where
  "msg_controller_cancel_command_digest_drifted = ''controller cancel command digest drifted''"

definition msg_controller_cancel_target_is_not_active :: string where
  "msg_controller_cancel_target_is_not_active = ''controller cancel target is not active''"

definition msg_controller_admission_reserve_cleanup_failed :: string where
  "msg_controller_admission_reserve_cleanup_failed = ''controller admission reserve cleanup failed''"

definition msg_controller_admission_publish_cleanup_failed :: string where
  "msg_controller_admission_publish_cleanup_failed = ''controller admission publish cleanup failed''"

definition msg_controller_admitted_event_rollback_failed :: string where
  "msg_controller_admitted_event_rollback_failed = ''controller admitted-event rollback failed''"

definition msg_controller_persistent_sequence_ledger_overflowed :: string where
  "msg_controller_persistent_sequence_ledger_overflowed = ''controller persistent sequence ledger overflowed''"

definition msg_controller_admission_cleanup_failed :: string where
  "msg_controller_admission_cleanup_failed = ''controller admission cleanup failed''"

definition msg_controller_time_or_enqueue_sequence_is_invalid :: string where
  "msg_controller_time_or_enqueue_sequence_is_invalid = ''controller time or enqueue sequence is invalid''"

definition msg_unsupported_controller_command_reached_runtime :: string where
  "msg_unsupported_controller_command_reached_runtime = ''unsupported controller command reached runtime''"

section \<open>Data\<close>

datatype ControllerRuntimeState = kReady | kFailed | kClosed

datatype ControllerRuntimeStep =
    kIdle
  | kOutputBackpressured
  | kAdmitted
  | kCancelRequested
  | kAdmissionRejected

record ControllerRuntimeLimits =
  lm_epoch :: u64
  lm_maximum_sequences :: u32
  lm_ingress :: ControllerIngressLimits
  lm_scheduler :: PhaseTierProfile
  lm_metadata :: PackedTokenMetadataLimits
  lm_maximum_prefill_chunk_tokens :: u32
  lm_pad_to_maximum_execution_bucket :: bool
  lm_profile_revision :: string
  lm_resource_vector_hash :: Sha256Digest
  lm_eos_token_id :: u32
  lm_output_burst_credit_count :: u32
  lm_output_maximum_slots_per_credit :: u32
  lm_output_maximum_bytes_per_credit :: u64
  lm_output_plan_kind :: OutputPlanKind

record ControllerPreparedPlanView =
  ppv_plan :: PackedTokenPlan
  ppv_metadata :: PackedTokenMetadataView
  ppv_selected_slot_indices :: "nat list"
  ppv_selected_sampling :: "ControllerRequestSampling list"
  ppv_plan_digest :: Sha256Digest

record ControllerBackendSequenceResult =
  br_completion :: ControllerPlanCompletion
  br_accepted_token_ids :: "u32 list"

record 'p ControllerAdmissionParticipant =
  ap_reserve :: "ControllerAdmissionView \<Rightarrow> 'p \<Rightarrow> status \<times> 'p"
  ap_publish :: "u64 \<Rightarrow> 'p \<Rightarrow> status \<times> 'p"
  ap_rollback :: "u64 \<Rightarrow> 'p \<Rightarrow> status \<times> 'p"

type_synonym 'p party = "('p ControllerAdmissionParticipant \<times> 'p) option"

record RuntimeSlot =
  sl_sequence :: "ControllerSequence option"
  sl_request :: ControllerRequestView
  sl_pending_token :: "u32 option"
  sl_last_service_plan_sequence :: u64
  sl_ready_enqueue_sequence :: u64
  sl_prefill_eligible_since_ns :: i64

record RuntimeConfig =
  cf_epoch :: u64
  cf_output_maximum_slots_per_credit :: u32
  cf_output_maximum_bytes_per_credit :: u64
  cf_output_plan_kind :: OutputPlanKind
  cf_maximum_prefill_chunk_tokens :: u32
  cf_maximum_execution_bucket_tokens :: u32
  cf_pad_to_maximum_execution_bucket :: bool
  cf_profile_revision :: string
  cf_resource_vector_hash :: Sha256Digest
  cf_eos_token_id :: u32

record ControllerRuntime =
  rt_config :: RuntimeConfig
  rt_ingress :: ControllerIngress
  rt_slots :: "RuntimeSlot list"
  rt_scheduler :: PhaseTierScheduler
  rt_metadata :: PackedTokenMetadataArena
  rt_output_credits :: OutputBurstCreditPool
  rt_pending_output_bursts :: "OutputBurstLease option list"
  rt_selected_slot_indices :: "nat list"
  rt_selected_sampling :: "ControllerRequestSampling list"
  rt_current_plan :: "PackedTokenPlan option"
  rt_current_output_burst :: "OutputBurstLease option"
  rt_current_plan_digest :: Sha256Digest
  rt_current_tier :: SchedulerTier
  rt_next_ready_enqueue_sequence :: u64
  rt_next_plan_sequence :: u64
  rt_last_controller_now_ns :: i64
  rt_consecutive_decode_rounds :: u32
  rt_last_successful_plan_was_protected_prefill :: bool
  rt_state :: ControllerRuntimeState
  rt_active_sequence_count :: u32

abbreviation rt_epoch :: "ControllerRuntime \<Rightarrow> u64" where
  "rt_epoch rt \<equiv> cf_epoch (rt_config rt)"

definition default_request_view :: ControllerRequestView where
  "default_request_view =
     \<lparr>rv_slot_index = 0, rv_slot_generation = 0, rv_request_generation = 0, rv_prompt_offset = 0,
      rv_prompt_length = 0, rv_maximum_new_tokens = 0, rv_sampling = default_sampling,
      rv_payload_digest = zero_digest\<rparr>"

definition default_runtime_slot :: RuntimeSlot where
  "default_runtime_slot =
     \<lparr>sl_sequence = None, sl_request = default_request_view, sl_pending_token = None,
      sl_last_service_plan_sequence = 0, sl_ready_enqueue_sequence = 0,
      sl_prefill_eligible_since_ns = 0\<rparr>"

section \<open>Creation\<close>

definition runtime_new ::
  "ControllerRuntimeLimits \<Rightarrow> ControllerIngress \<Rightarrow> PhaseTierScheduler \<Rightarrow> PackedTokenMetadataArena \<Rightarrow>
   OutputBurstCreditPool \<Rightarrow> ControllerRuntime" where
  "runtime_new limits ingress scheduler metadata output_credits =
     \<lparr>rt_config =
        \<lparr>cf_epoch = lm_epoch limits,
         cf_output_maximum_slots_per_credit = lm_output_maximum_slots_per_credit limits,
         cf_output_maximum_bytes_per_credit = lm_output_maximum_bytes_per_credit limits,
         cf_output_plan_kind = lm_output_plan_kind limits,
         cf_maximum_prefill_chunk_tokens = lm_maximum_prefill_chunk_tokens limits,
         cf_maximum_execution_bucket_tokens =
           mt_maximum_execution_bucket_tokens (lm_metadata limits),
         cf_pad_to_maximum_execution_bucket = lm_pad_to_maximum_execution_bucket limits,
         cf_profile_revision = lm_profile_revision limits,
         cf_resource_vector_hash = lm_resource_vector_hash limits,
         cf_eos_token_id = lm_eos_token_id limits\<rparr>,
      rt_ingress = ingress,
      rt_slots = replicate (unat (lm_maximum_sequences limits)) default_runtime_slot,
      rt_scheduler = scheduler,
      rt_metadata = metadata,
      rt_output_credits = output_credits,
      rt_pending_output_bursts = replicate (unat (lm_output_burst_credit_count limits)) None,
      rt_selected_slot_indices = [],
      rt_selected_sampling = [],
      rt_current_plan = None,
      rt_current_output_burst = None,
      rt_current_plan_digest = zero_digest,
      rt_current_tier = SchedulerTier.kIdle,
      rt_next_ready_enqueue_sequence = 1,
      rt_next_plan_sequence = 1,
      rt_last_controller_now_ns = 0,
      rt_consecutive_decode_rounds = 0,
      rt_last_successful_plan_was_protected_prefill = False,
      rt_state = kReady,
      rt_active_sequence_count = 0\<rparr>"

definition runtime_limits_inconsistent :: "ControllerRuntimeLimits \<Rightarrow> bool" where
  "runtime_limits_inconsistent limits \<longleftrightarrow>
     lm_epoch limits = 0 \<or> lm_maximum_sequences limits = 0 \<or>
     lm_maximum_sequences limits \<noteq> rl_maximum_requests (il_requests (lm_ingress limits)) \<or>
     pf_maximum_candidates (lm_scheduler limits) \<noteq> lm_maximum_sequences limits \<or>
     mt_maximum_sequences (lm_metadata limits) <
       pf_maximum_sequences_per_plan (lm_scheduler limits) \<or>
     mt_maximum_execution_bucket_tokens (lm_metadata limits) <
       pf_maximum_real_tokens_per_plan (lm_scheduler limits) \<or>
     lm_maximum_prefill_chunk_tokens limits = 0 \<or>
     lm_maximum_prefill_chunk_tokens limits >
       pf_maximum_real_tokens_per_plan (lm_scheduler limits) \<or>
     lm_profile_revision limits = [] \<or> length (lm_profile_revision limits) > 128 \<or>
     \<not> nonzero (lm_resource_vector_hash limits)"

definition runtime_Create :: "bool \<Rightarrow> ControllerRuntimeLimits \<Rightarrow> ControllerRuntime result" where
  "runtime_Create allocates limits =
     (if runtime_limits_inconsistent limits
      then Inl (InvalidArgument msg_controller_runtime_limits_are_inconsistent)
      else (case ingress_Create allocates (lm_ingress limits) of
          Inl e \<Rightarrow> Inl e
        | Inr ingress \<Rightarrow> (case scheduler_Create (lm_scheduler limits) of
            Inl e \<Rightarrow> Inl e
          | Inr scheduler \<Rightarrow> (case metadata_Create (lm_metadata limits) of
              Inl e \<Rightarrow> Inl e
            | Inr metadata \<Rightarrow>
                (case burst_Create allocates
                   \<lparr>ol_credit_count = lm_output_burst_credit_count limits,
                    ol_maximum_records_qwen = 1,
                    ol_maximum_records_deepseek = 5,
                    ol_maximum_slots_per_credit = lm_output_maximum_slots_per_credit limits,
                    ol_maximum_bytes_per_credit = lm_output_maximum_bytes_per_credit limits\<rparr> of
                   Inl e \<Rightarrow> Inl e
                 | Inr output_credits \<Rightarrow>
                     Inr (runtime_new limits ingress scheduler metadata output_credits))))))"

section \<open>Submission and digests\<close>

definition runtime_submit_admit ::
  "u64 \<Rightarrow> u32 list \<Rightarrow> u32 \<Rightarrow> ControllerRequestSampling \<Rightarrow> ControllerRuntime \<Rightarrow>
   ControllerCommand result \<times> ControllerRuntime" where
  "runtime_submit_admit request_generation prompt_token_ids maximum_new_tokens sampling rt =
     (if rt_state rt \<noteq> kReady
      then (Inl (FailedPrecondition msg_controller_runtime_is_not_ready), rt)
      else (case submit_admit (rt_epoch rt) request_generation prompt_token_ids
                   maximum_new_tokens sampling (rt_ingress rt) of
              (r, ingress) \<Rightarrow> (r, rt\<lparr>rt_ingress := ingress\<rparr>)))"

definition runtime_submit_cancel ::
  "u64 \<Rightarrow> ControllerRuntime \<Rightarrow> ControllerCommand result \<times> ControllerRuntime" where
  "runtime_submit_cancel request_generation rt =
     (if rt_state rt \<noteq> kReady
      then (Inl (FailedPrecondition msg_controller_runtime_is_not_ready), rt)
      else (case submit_cancel (rt_epoch rt) request_generation (rt_ingress rt) of
              (r, ingress) \<Rightarrow> (r, rt\<lparr>rt_ingress := ingress\<rparr>)))"

definition kAdmittedDomain :: string where
  "kAdmittedDomain = ''pih-controller-admitted-state-v1''"

definition admitted_state_digest ::
  "ControllerAdmissionView \<Rightarrow> ControllerRuntime \<Rightarrow> Sha256Digest result" where
  "admitted_state_digest admission rt =
     digest_chunks
       [string_bytes kAdmittedDomain, le_bytes_u64 (rt_epoch rt),
        le_bytes_u64 (rv_request_generation (av_request admission)),
        le_bytes_u64 (rv_slot_generation (av_request admission)),
        dg_bytes (rv_payload_digest (av_request admission))]"

definition completion_domain :: string where
  "completion_domain = ''pih-controller-completion-state-v1''"

definition completion_state_digest ::
  "ControllerPlanCompletion \<Rightarrow> ControllerRuntime \<Rightarrow> Sha256Digest result" where
  "completion_state_digest completion rt =
     digest_chunks
       ([string_bytes completion_domain, dg_bytes (rt_current_plan_digest rt)] @
        map le_bytes_u64
          [cp_plan_sequence completion, cp_sequence_generation completion,
           cp_committed_model_processed_length completion,
           cp_accepted_completion_count completion, cp_state_generation completion,
           ucast (phase_byte (cp_next_decode_phase completion)),
           (if cp_terminal completion then 1 else 0)])"

section \<open>Steps\<close>

definition fail_runtime :: "ControllerRuntime \<Rightarrow> ControllerRuntime" where
  "fail_runtime rt = rt\<lparr>rt_state := ControllerRuntimeState.kFailed\<rparr>"

definition plain_draft ::
  "ControllerOutputEventKind \<Rightarrow> u64 \<Rightarrow> u64 \<Rightarrow> Sha256Digest \<Rightarrow> ControllerOutputEventDraft" where
  "plain_draft kind epoch request_generation digest =
     \<lparr>ed_kind = kind, ed_epoch = epoch, ed_request_generation = request_generation,
      ed_token_ordinal = 0, ed_token_id = 0, ed_state_digest = digest, ed_plan_sequence = 0,
      ed_plan_event_index = 0, ed_plan_event_count = 0,
      ed_finish_reason = ControllerFinishReason.kNone\<rparr>"

definition set_sequence :: "nat \<Rightarrow> ControllerSequence option \<Rightarrow> ControllerRuntime \<Rightarrow> ControllerRuntime" where
  "set_sequence i sequence rt =
     rt\<lparr>rt_slots := (rt_slots rt)[i := (rt_slots rt ! i)\<lparr>sl_sequence := sequence\<rparr>]\<rparr>"

definition holds_generation :: "u64 \<Rightarrow> RuntimeSlot \<Rightarrow> bool" where
  "holds_generation g slot \<longleftrightarrow>
     (case sl_sequence slot of None \<Rightarrow> False | Some sequence \<Rightarrow> sq_sequence_generation sequence = g)"

definition runtime_publish ::
  "thread_id \<Rightarrow> ControllerOutputEventDraft \<Rightarrow> ControllerRuntime \<Rightarrow> status \<times> ControllerRuntime" where
  "runtime_publish current draft rt =
     (case ingress_publish_event current draft (rt_ingress rt) of
        (Inl e, ingress) \<Rightarrow> (e, rt\<lparr>rt_ingress := ingress\<rparr>)
      | (Inr _, ingress) \<Rightarrow> (Ok, rt\<lparr>rt_ingress := ingress\<rparr>))"

definition runtime_release ::
  "ControllerRequestView \<Rightarrow> ControllerRuntime \<Rightarrow> status \<times> ControllerRuntime" where
  "runtime_release request rt =
     (case release_request request (rt_ingress rt) of
        (st, ingress) \<Rightarrow> (st, rt\<lparr>rt_ingress := ingress\<rparr>))"

definition step_cancel ::
  "thread_id \<Rightarrow> ControllerCommand \<Rightarrow> ControllerRuntime \<Rightarrow>
   ControllerRuntimeStep result \<times> ControllerRuntime" where
  "step_cancel current command rt =
     (case controller_cancel_payload_digest (rt_epoch rt) (cc_request_generation command) of
        Inl _ \<Rightarrow> (Inl (Internal msg_controller_cancel_command_digest_drifted), fail_runtime rt)
      | Inr digest \<Rightarrow>
          if digest \<noteq> cc_payload_digest command
          then (Inl (Internal msg_controller_cancel_command_digest_drifted), fail_runtime rt)
          else (case find_index (holds_generation (cc_request_generation command)) (rt_slots rt) of
              None \<Rightarrow> (Inl (FailedPrecondition msg_controller_cancel_target_is_not_active), rt)
            | Some i \<Rightarrow>
                (case request_cancel (the (sl_sequence (rt_slots rt ! i))) of
                   (cancelled, sequence) \<Rightarrow>
                     let rt = set_sequence i (Some sequence) rt
                     in if \<not> ok cancelled then (Inl cancelled, rt)
                        else if has_active_plan sequence then (Inr kCancelRequested, rt)
                        else (case begin_draining sequence of
                            (draining, sequence) \<Rightarrow>
                              let rt = set_sequence i (Some sequence) rt
                              in if \<not> ok draining then (Inl draining, rt)
                                 else (case runtime_publish current
                                          (plain_draft ControllerOutputEventKind.kDraining
                                             (rt_epoch rt) (sq_sequence_generation sequence)
                                             digest) rt of
                                     (event, rt) \<Rightarrow>
                                       if \<not> ok event then (Inl event, fail_runtime rt)
                                       else (Inr kCancelRequested, rt))))))"

definition call_participant ::
  "('p ControllerAdmissionParticipant \<Rightarrow> 'p \<Rightarrow> status \<times> 'p) \<Rightarrow> 'p party \<Rightarrow> status \<times> 'p party" where
  "call_participant call party =
     (case party of
        None \<Rightarrow> (Ok, None)
      | Some (ops, p) \<Rightarrow> (case call ops p of (st, p') \<Rightarrow> (st, Some (ops, p'))))"

text \<open>The participant turned the admission away.\<close>

definition reserve_failed ::
  "thread_id \<Rightarrow> ControllerAdmissionView \<Rightarrow> status \<Rightarrow> ControllerRuntime \<Rightarrow>
   ControllerRuntimeStep result \<times> ControllerRuntime" where
  "reserve_failed current admission reserved rt =
     (case runtime_release (av_request admission) rt of
        (released, rt) \<Rightarrow>
          let exhausted = (st_code reserved = kResourceExhausted);
              rt = (if \<not> ok released \<or> \<not> exhausted then fail_runtime rt else rt)
          in if \<not> ok released
             then (Inl (Internal msg_controller_admission_reserve_cleanup_failed), rt)
             else if exhausted
             then (case runtime_publish current
                      (plain_draft ControllerOutputEventKind.kFailed (rt_epoch rt)
                         (rv_request_generation (av_request admission))
                         (cc_payload_digest (av_command admission))) rt of
                     (rejected, rt) \<Rightarrow>
                       if \<not> ok rejected then (Inl rejected, fail_runtime rt)
                       else (Inr kAdmissionRejected, rt))
             else (Inl reserved, rt))"

text \<open>The slot is filled; publish the admission, undoing it when that fails.\<close>

definition announce_admission ::
  "thread_id \<Rightarrow> ControllerAdmissionView \<Rightarrow> Sha256Digest \<Rightarrow> nat \<Rightarrow> 'p party \<Rightarrow> ControllerRuntime \<Rightarrow>
   ControllerRuntimeStep result \<times> ControllerRuntime \<times> 'p party" where
  "announce_admission current admission state_digest i party rt =
     (case call_participant (\<lambda>ops. ap_publish ops (rv_request_generation (av_request admission)))
             party of
        (published, party) \<Rightarrow>
          if \<not> ok published
          then (case runtime_release (sl_request (rt_slots rt ! i)) rt of
              (release, rt) \<Rightarrow>
                let rt = fail_runtime (set_sequence i None rt)
                in (Inl (if \<not> ok release
                         then Internal msg_controller_admission_publish_cleanup_failed
                         else published), rt, party))
          else (case runtime_publish current
                   (plain_draft ControllerOutputEventKind.kAdmitted (rt_epoch rt)
                      (rv_request_generation (av_request admission)) state_digest) rt of
              (event, rt) \<Rightarrow>
                if \<not> ok event
                then (case runtime_release (sl_request (rt_slots rt ! i)) rt of
                    (release, rt) \<Rightarrow>
                      let rt = fail_runtime (set_sequence i None rt)
                      in (Inl (if \<not> ok release
                               then Internal msg_controller_admitted_event_rollback_failed
                               else event), rt, party))
                else (Inr kAdmitted,
                      rt\<lparr>rt_active_sequence_count := rt_active_sequence_count rt + 1\<rparr>, party)))"

definition step_admit ::
  "thread_id \<Rightarrow> i64 \<Rightarrow> ControllerAdmissionView \<Rightarrow> 'p party \<Rightarrow> ControllerRuntime \<Rightarrow>
   ControllerRuntimeStep result \<times> ControllerRuntime \<times> 'p party" where
  "step_admit current now_ns admission party rt =
     (case find_index (\<lambda>slot. sl_sequence slot = None) (rt_slots rt) of
        None \<Rightarrow>
          (Inl (Internal msg_controller_persistent_sequence_ledger_overflowed), fail_runtime rt, party)
      | Some i \<Rightarrow>
          (case call_participant (\<lambda>ops. ap_reserve ops admission) party of
             (reserved, party) \<Rightarrow>
               if \<not> ok reserved
               then (case reserve_failed current admission reserved rt of
                       (r, rt) \<Rightarrow> (r, rt, party))
               else (case (Admit (rv_request_generation (av_request admission))
                             (of_nat (rv_prompt_length (av_request admission))) 1,
                           admitted_state_digest admission rt) of
                   (Inr sequence, Inr state_digest) \<Rightarrow>
                     let slot = (rt_slots rt ! i)
                           \<lparr>sl_request := av_request admission, sl_sequence := Some sequence,
                            sl_ready_enqueue_sequence := rt_next_ready_enqueue_sequence rt,
                            sl_prefill_eligible_since_ns := now_ns\<rparr>;
                         rt = rt\<lparr>rt_slots := (rt_slots rt)[i := slot],
                                 rt_next_ready_enqueue_sequence :=
                                   rt_next_ready_enqueue_sequence rt + 1\<rparr>
                     in announce_admission current admission state_digest i party rt
                 | (sequence, state_digest) \<Rightarrow>
                     (case call_participant
                             (\<lambda>ops. ap_rollback ops (rv_request_generation (av_request admission)))
                             party of
                        (rollback, party) \<Rightarrow>
                          (case runtime_release (av_request admission) rt of
                             (release, rt) \<Rightarrow>
                               (Inl (if \<not> ok rollback \<or> \<not> ok release
                                     then Internal msg_controller_admission_cleanup_failed
                                     else (case sequence of
                                         Inl e \<Rightarrow> e
                                       | Inr _ \<Rightarrow> (case state_digest of Inl e \<Rightarrow> e | Inr _ \<Rightarrow> Ok))),
                                fail_runtime rt, party))))))"

definition step_impl ::
  "thread_id \<Rightarrow> i64 \<Rightarrow> 'p party \<Rightarrow> ControllerRuntime \<Rightarrow>
   ControllerRuntimeStep result \<times> ControllerRuntime \<times> 'p party" where
  "step_impl current now_ns party rt =
     (if rt_state rt \<noteq> kReady
      then (Inl (FailedPrecondition msg_controller_runtime_is_not_ready), rt, party)
      else if now_ns < rt_last_controller_now_ns rt \<or> rt_next_ready_enqueue_sequence rt = 0
      then (Inl (InvalidArgument msg_controller_time_or_enqueue_sequence_is_invalid), rt, party)
      else
        let rt = rt\<lparr>rt_last_controller_now_ns := now_ns\<rparr>
        in if queued_command_count (rt_ingress rt) = 0 then (Inr kIdle, rt, party)
           else if available_event_credit (rt_ingress rt) = 0
           then (Inr kOutputBackpressured, rt, party)
           else (case ingress_try_take_command current (rt_ingress rt) of
               (Inl e, ingress) \<Rightarrow> (Inl e, fail_runtime (rt\<lparr>rt_ingress := ingress\<rparr>), party)
             | (Inr None, ingress) \<Rightarrow> (Inr kIdle, rt\<lparr>rt_ingress := ingress\<rparr>, party)
             | (Inr (Some item), ingress) \<Rightarrow>
                 let rt = rt\<lparr>rt_ingress := ingress\<rparr>
                 in if cc_kind (cv_command item) = kCancel
                    then (case step_cancel current (cv_command item) rt of
                            (r, rt) \<Rightarrow> (r, rt, party))
                    else (case cv_request item of
                        Some request \<Rightarrow>
                          if cc_kind (cv_command item) \<noteq> kAdmit
                          then (Inl (Internal msg_unsupported_controller_command_reached_runtime),
                                fail_runtime rt, party)
                          else step_admit current now_ns
                                 \<lparr>av_command = cv_command item, av_request = request\<rparr> party rt
                      | None \<Rightarrow>
                          (Inl (Internal msg_unsupported_controller_command_reached_runtime),
                           fail_runtime rt, party))))"


definition step :: "thread_id \<Rightarrow> i64 \<Rightarrow> ControllerRuntime \<Rightarrow>
   ControllerRuntimeStep result \<times> ControllerRuntime" where
  "step current now_ns rt =
     (case step_impl current now_ns (None :: unit party) rt of (r, rt, _) \<Rightarrow> (r, rt))"

definition step_with ::
  "thread_id \<Rightarrow> i64 \<Rightarrow> 'p ControllerAdmissionParticipant \<Rightarrow> 'p \<Rightarrow> ControllerRuntime \<Rightarrow>
   ControllerRuntimeStep result \<times> ControllerRuntime \<times> 'p party" where
  "step_with current now_ns ops p rt = step_impl current now_ns (Some (ops, p)) rt"

section \<open>Preparing a plan\<close>

record plan_candidate =
  pc_candidate :: SchedulerCandidate
  pc_state :: ScheduledSequenceState
  pc_tokens :: ScheduledSequenceTokens
  pc_slot_index :: nat

text \<open>The tokens a slot would feed into its next plan.\<close>

definition slot_tokens ::
  "ControllerRuntime \<Rightarrow> RuntimeSlot \<Rightarrow> PackedTokenPhase \<Rightarrow> u64 \<Rightarrow> u32 \<Rightarrow> u32 list result" where
  "slot_tokens rt slot phase start real_count =
     (if phase = kPrefill
      then (let size = rv_prompt_length (sl_request slot)
            in if unat start > size \<or> unat real_count > size - unat start
               then Inl (Internal msg_controller_prompt_chunk_mapping_drifted)
               else Inr (take (unat real_count)
                      (drop (unat start) (view_tokens (ig_requests (rt_ingress rt)) (sl_request slot)))))
      else (case sl_pending_token slot of
          None \<Rightarrow> Inl (FailedPrecondition msg_decode_ready_sequence_has_no_valid_pending_token)
        | Some token \<Rightarrow>
            if phase \<noteq> kDecode \<or> real_count \<noteq> 1
            then Inl (FailedPrecondition msg_decode_ready_sequence_has_no_valid_pending_token)
            else Inr [token]))"

definition slot_candidate :: "ControllerRuntime \<Rightarrow> nat \<Rightarrow> plan_candidate option result" where
  "slot_candidate rt slot_index =
     (let slot = rt_slots rt ! slot_index;
          chunk = cf_maximum_prefill_chunk_tokens (rt_config rt)
      in (case sl_sequence slot of
            None \<Rightarrow> Inr None
          | Some sequence \<Rightarrow>
              (case ready_phase sequence of
                 Inl _ \<Rightarrow> Inr None
               | Inr phase \<Rightarrow>
                   if phase = kVerify
                   then Inl (FailedPrecondition msg_verify_ready_sequence_has_no_bound_draft_payload)
                   else (case next_real_token_count chunk 0 sequence of
                       Inl e \<Rightarrow> Inl e
                     | Inr real_count \<Rightarrow>
                         (case next_plan_produces_logits chunk 0 sequence of
                            Inl e \<Rightarrow> Inl e
                          | Inr produces_logits \<Rightarrow>
                              let start = sq_model_processed_length sequence
                              in (case slot_tokens rt slot phase start real_count of
                                    Inl e \<Rightarrow> Inl e
                                  | Inr token_span \<Rightarrow>
                                      (case packed_token_input_digest token_span of
                                         Inl e \<Rightarrow> Inl e
                                       | Inr input_digest \<Rightarrow>
                                           Inr (Some
                                             \<lparr>pc_candidate =
                                                \<lparr>sc_sequence_generation = sq_sequence_generation sequence,
                                                 sc_next_phase = phase,
                                                 sc_last_service_plan_seq =
                                                   sl_last_service_plan_sequence slot,
                                                 sc_ready_enqueue_seq = sl_ready_enqueue_sequence slot,
                                                 sc_prefill_eligible_since_ns =
                                                   sl_prefill_eligible_since_ns slot,
                                                 sc_real_token_count = real_count,
                                                 sc_infeasibility = SchedulerInfeasibility.kNone\<rparr>,
                                              pc_state =
                                                \<lparr>sst_sequence_generation = sq_sequence_generation sequence,
                                                 sst_committed_start_position = start,
                                                 sst_state_generation = sq_state_generation sequence,
                                                 sst_input_digest = input_digest\<rparr>,
                                              pc_tokens =
                                                \<lparr>sq_tokens_generation = sq_sequence_generation sequence,
                                                 sq_token_ids = token_span,
                                                 sq_produces_logits = produces_logits\<rparr>,
                                              pc_slot_index = slot_index\<rparr>))))))))"

definition gather_candidates :: "ControllerRuntime \<Rightarrow> plan_candidate list result" where
  "gather_candidates rt =
     (case collect_results (map (slot_candidate rt) [0..<length (rt_slots rt)]) of
        Inl e \<Rightarrow> Inl e
      | Inr found \<Rightarrow> Inr (map the (filter (\<lambda>c. c \<noteq> None) found)))"

primrec apply_selected ::
  "(ControllerSequence \<Rightarrow> status \<times> ControllerSequence) \<Rightarrow> nat list \<Rightarrow> ControllerRuntime \<Rightarrow>
   bool \<times> ControllerRuntime" where
  "apply_selected operation [] rt = (True, rt)"
| "apply_selected operation (i # indices) rt =
     (case operation (the (sl_sequence (rt_slots rt ! i))) of
        (st, sequence) \<Rightarrow>
          let rt = set_sequence i (Some sequence) rt
          in if \<not> ok st then (False, rt) else apply_selected operation indices rt)"

text \<open>One candidate refused the plan: take the prepared ones back and return the credit.\<close>

definition rollback_prepared ::
  "u64 \<Rightarrow> OutputBurstLease \<Rightarrow> nat list \<Rightarrow> status \<Rightarrow> ControllerRuntime \<Rightarrow> status \<times> ControllerRuntime" where
  "rollback_prepared plan_sequence burst slots status rt =
     (case apply_selected (abort_prepared plan_sequence) slots rt of
        (False, rt) \<Rightarrow> (Internal msg_controller_plan_prepare_rollback_failed, fail_runtime rt)
      | (True, rt) \<Rightarrow>
          (case burst_abort burst (rt_output_credits rt) of
             (credit_rollback, credits) \<Rightarrow>
               let rt = rt\<lparr>rt_output_credits := credits\<rparr>
               in if \<not> ok credit_rollback
                  then (Internal msg_controller_output_credit_rollback_failed, fail_runtime rt)
                  else (status, rt)))"

fun prepare_selected ::
  "u64 \<Rightarrow> PackedTokenPhase \<Rightarrow> OutputBurstLease \<Rightarrow> plan_candidate list \<Rightarrow> nat list \<Rightarrow>
   ControllerRequestSampling list \<Rightarrow> ControllerRuntime \<Rightarrow>
   (nat list \<times> ControllerRequestSampling list) result \<times> ControllerRuntime" where
  "prepare_selected plan_sequence phase burst [] slots sampling rt = (Inr (slots, sampling), rt)"
| "prepare_selected plan_sequence phase burst (c # cs) slots sampling rt =
     (let i = pc_slot_index c
      in (case prepare plan_sequence phase (sc_real_token_count (pc_candidate c))
                 (the (sl_sequence (rt_slots rt ! i))) of
            (st, sequence) \<Rightarrow>
              let rt = set_sequence i (Some sequence) rt
              in if \<not> ok st
                 then (case rollback_prepared plan_sequence burst slots st rt of
                         (e, rt) \<Rightarrow> (Inl e, rt))
                 else prepare_selected plan_sequence phase burst cs (slots @ [i])
                        (sampling @ [(rv_sampling (sl_request (rt_slots rt ! i)))
                           \<lparr>sp_sample_ordinal := sq_accepted_completion_count sequence\<rparr>]) rt))"

definition plan_identity :: "SchedulerDecisionView \<Rightarrow> ControllerRuntime \<Rightarrow> ScheduledPlanIdentity" where
  "plan_identity decision rt =
     \<lparr>pid_epoch = rt_epoch rt,
      pid_plan_sequence = rt_next_plan_sequence rt,
      pid_profile_revision = cf_profile_revision (rt_config rt),
      pid_resource_vector_hash = cf_resource_vector_hash (rt_config rt),
      pid_execution_bucket_tokens =
        (if cf_pad_to_maximum_execution_bucket (rt_config rt)
         then cf_maximum_execution_bucket_tokens (rt_config rt)
         else dv_total_real_tokens decision),
      pid_maximum_execution_bucket_tokens = cf_maximum_execution_bucket_tokens (rt_config rt)\<rparr>"

text \<open>The plan and its metadata exist; reserve the output burst and prepare the sequences.\<close>

definition install_plan ::
  "plan_candidate list \<Rightarrow> SchedulerDecisionView \<Rightarrow> PackedTokenPlan \<Rightarrow> Sha256Digest \<Rightarrow>
   PackedTokenMetadataView \<Rightarrow> ControllerRuntime \<Rightarrow>
   ControllerPreparedPlanView option result \<times> ControllerRuntime" where
  "install_plan candidates decision plan plan_digest metadata rt =
     (let included = map ((!) candidates) (dv_included_candidate_indices decision);
          maximum_records =
            (if \<exists>c\<in>set included. sq_produces_logits (pc_tokens c) then 1 else 0 :: u32);
          config = rt_config rt
      in (case burst_acquire (rt_next_plan_sequence rt) (cf_output_plan_kind config)
                 maximum_records (cf_output_maximum_slots_per_credit config)
                 (cf_output_maximum_bytes_per_credit config) (rt_output_credits rt) of
            (Inl e, credits) \<Rightarrow> (Inl e, rt\<lparr>rt_output_credits := credits\<rparr>)
          | (Inr output_burst, credits) \<Rightarrow>
              (case prepare_selected (rt_next_plan_sequence rt) (pp_phase plan) output_burst
                      included [] [] (rt\<lparr>rt_output_credits := credits\<rparr>) of
                 (Inl e, rt) \<Rightarrow> (Inl e, rt)
               | (Inr (slots, sampling), rt) \<Rightarrow>
                   (Inr (Some \<lparr>ppv_plan = plan, ppv_metadata = metadata,
                               ppv_selected_slot_indices = slots,
                               ppv_selected_sampling = sampling, ppv_plan_digest = plan_digest\<rparr>),
                    rt\<lparr>rt_selected_slot_indices := slots,
                       rt_selected_sampling := sampling,
                       rt_current_output_burst := Some output_burst,
                       rt_current_plan := Some plan,
                       rt_current_plan_digest := plan_digest,
                       rt_current_tier := dv_tier decision,
                       rt_next_plan_sequence := rt_next_plan_sequence rt + 1\<rparr>))))"

definition plan_candidates ::
  "i64 \<Rightarrow> plan_candidate list \<Rightarrow> ControllerRuntime \<Rightarrow>
   ControllerPreparedPlanView option result \<times> ControllerRuntime" where
  "plan_candidates now_ns candidates rt =
     (case select
             \<lparr>sn_now_ns = now_ns,
              sn_consecutive_decode_rounds = rt_consecutive_decode_rounds rt,
              sn_last_successful_plan_was_protected_prefill =
                rt_last_successful_plan_was_protected_prefill rt,
              sn_candidates = map pc_candidate candidates\<rparr> (rt_scheduler rt) of
        (Inl e, scheduler) \<Rightarrow> (Inl e, rt\<lparr>rt_scheduler := scheduler\<rparr>)
      | (Inr decision, scheduler) \<Rightarrow>
          let rt = rt\<lparr>rt_scheduler := scheduler\<rparr>
          in if dv_tier decision = SchedulerTier.kIdle then (Inr None, rt)
             else (case assemble_current_plan (dv_generation decision) (plan_identity decision rt)
                          (map pc_state candidates) scheduler of
                 Inl e \<Rightarrow> (Inl e, rt)
               | Inr plan \<Rightarrow>
                   (case semantic_digest plan of
                      Inl e \<Rightarrow> (Inl e, rt)
                    | Inr plan_digest \<Rightarrow>
                        (case materialize_current_metadata (dv_generation decision) plan
                                (map pc_tokens candidates) scheduler (rt_metadata rt) of
                           (Inl e, metadata) \<Rightarrow> (Inl e, rt\<lparr>rt_metadata := metadata\<rparr>)
                         | (Inr view, metadata) \<Rightarrow>
                             install_plan candidates decision plan plan_digest view
                               (rt\<lparr>rt_metadata := metadata\<rparr>)))))"

definition prepare_next_plan ::
  "i64 \<Rightarrow> ControllerRuntime \<Rightarrow> ControllerPreparedPlanView option result \<times> ControllerRuntime" where
  "prepare_next_plan now_ns rt =
     (if rt_state rt \<noteq> kReady \<or> rt_current_plan rt \<noteq> None
      then (Inl (FailedPrecondition msg_controller_cannot_prepare_another_plan), rt)
      else if now_ns < rt_last_controller_now_ns rt \<or> rt_next_plan_sequence rt = 0
      then (Inl (InvalidArgument msg_controller_plan_identity_is_invalid), rt)
      else
        let rt = rt\<lparr>rt_last_controller_now_ns := now_ns\<rparr>
        in (case gather_candidates rt of
              Inl e \<Rightarrow> (Inl e, rt)
            | Inr candidates \<Rightarrow>
                if candidates = [] then (Inr None, rt)
                else plan_candidates now_ns candidates rt))"

section \<open>Driving the current plan\<close>

definition plan_identity_drifted :: "u64 \<Rightarrow> Sha256Digest \<Rightarrow> ControllerRuntime \<Rightarrow> bool" where
  "plan_identity_drifted plan_sequence plan_digest rt \<longleftrightarrow>
     (case rt_current_plan rt of
        None \<Rightarrow> True
      | Some plan \<Rightarrow>
          pp_plan_sequence plan \<noteq> plan_sequence \<or> rt_current_plan_digest rt \<noteq> plan_digest)"

definition commit_current_plan ::
  "u64 \<Rightarrow> Sha256Digest \<Rightarrow> ControllerRuntime \<Rightarrow> status \<times> ControllerRuntime" where
  "commit_current_plan plan_sequence plan_digest rt =
     (case rt_current_output_burst rt of
        None \<Rightarrow> (FailedPrecondition msg_controller_plan_commit_identity_drifted, rt)
      | Some burst \<Rightarrow>
          if plan_identity_drifted plan_sequence plan_digest rt
          then (FailedPrecondition msg_controller_plan_commit_identity_drifted, rt)
          else (case burst_commit burst (rt_output_credits rt) of
              (credit, credits) \<Rightarrow>
                let rt = rt\<lparr>rt_output_credits := credits\<rparr>
                in if \<not> ok credit then (credit, rt)
                   else (case apply_selected (commit plan_sequence)
                                (rt_selected_slot_indices rt) rt of
                       (False, rt) \<Rightarrow>
                         (Internal msg_controller_plan_commit_became_partial, fail_runtime rt)
                     | (True, rt) \<Rightarrow> (Ok, rt))))"

definition mark_current_plan_in_flight ::
  "u64 \<Rightarrow> Sha256Digest \<Rightarrow> ControllerRuntime \<Rightarrow> status \<times> ControllerRuntime" where
  "mark_current_plan_in_flight plan_sequence plan_digest rt =
     (if plan_identity_drifted plan_sequence plan_digest rt
      then (FailedPrecondition msg_controller_in_flight_identity_drifted, rt)
      else (case apply_selected (mark_in_flight plan_sequence) (rt_selected_slot_indices rt) rt of
          (False, rt) \<Rightarrow>
            (Internal msg_controller_in_flight_publication_became_partial, fail_runtime rt)
        | (True, rt) \<Rightarrow> (Ok, rt)))"

definition clear_current_plan :: "ControllerRuntime \<Rightarrow> ControllerRuntime" where
  "clear_current_plan rt =
     rt\<lparr>rt_current_plan := None, rt_current_plan_digest := zero_digest,
        rt_current_tier := SchedulerTier.kIdle, rt_selected_slot_indices := [],
        rt_selected_sampling := [], rt_current_output_burst := None\<rparr>"

definition abort_current_plan ::
  "u64 \<Rightarrow> Sha256Digest \<Rightarrow> ControllerRuntime \<Rightarrow> status \<times> ControllerRuntime" where
  "abort_current_plan plan_sequence plan_digest rt =
     (case rt_current_output_burst rt of
        None \<Rightarrow> (FailedPrecondition msg_controller_plan_abort_identity_drifted, rt)
      | Some burst \<Rightarrow>
          if plan_identity_drifted plan_sequence plan_digest rt
          then (FailedPrecondition msg_controller_plan_abort_identity_drifted, rt)
          else (case apply_selected (abort_prepared plan_sequence)
                       (rt_selected_slot_indices rt) rt of
              (False, rt) \<Rightarrow> (Internal msg_controller_plan_abort_became_partial, fail_runtime rt)
            | (True, rt) \<Rightarrow>
                (case burst_abort burst (rt_output_credits rt) of
                   (credit, credits) \<Rightarrow>
                     let rt = rt\<lparr>rt_output_credits := credits\<rparr>
                     in if \<not> ok credit
                        then (Internal msg_controller_output_credit_abort_failed, fail_runtime rt)
                        else (Ok, clear_current_plan rt))))"


section \<open>Completing the current plan\<close>

definition kBackendTokenLimit :: u32 where
  "kBackendTokenLimit = 151936"

definition will_drain :: "ControllerPlanCompletion \<Rightarrow> ControllerSequence \<Rightarrow> bool" where
  "will_drain completion sequence \<longleftrightarrow>
     cp_terminal completion \<or> sq_state sequence = ControllerSequenceState.kCancelRequested"

text \<open>The checks of one result, before anything is changed.\<close>

definition check_result ::
  "ControllerRuntime \<Rightarrow> nat \<Rightarrow> ControllerBackendSequenceResult \<Rightarrow> u64 \<Rightarrow> status" where
  "check_result rt i result required_events =
     (let slot = rt_slots rt ! i;
          sequence = the (sl_sequence slot);
          completion = br_completion result;
          tokens = br_accepted_token_ids result;
          validation = validate_completion completion sequence;
          limit = (ucast (rv_maximum_new_tokens (sl_request slot)) :: u64);
          drains = will_drain completion sequence
      in if \<not> ok validation then validation
         else if unat (cp_accepted_completion_count completion -
                   sq_accepted_completion_count sequence) \<noteq> length tokens
         then InvalidArgument msg_controller_accepted_token_result_drifted
         else if \<exists>token\<in>set tokens. token \<ge> kBackendTokenLimit
         then InvalidArgument msg_controller_backend_token_is_invalid
         else if cp_accepted_completion_count completion > limit \<or>
                 cp_accepted_completion_count completion = limit \<and> \<not> cp_terminal completion
         then InvalidArgument msg_controller_generation_limit_requires_terminal_completion
         else if \<not> drains \<and>
                 cp_committed_model_processed_length completion \<ge> sq_prompt_token_count sequence \<and>
                 tokens = []
         then InvalidArgument msg_controller_decode_boundary_requires_a_pending_token
         else if length tokens > unat (UINT64_MAX - required_events)
         then ResourceExhausted msg_controller_output_event_count_overflowed
         else if drains \<and> required_events + of_nat (length tokens) = UINT64_MAX
         then ResourceExhausted msg_controller_output_event_count_overflowed
         else Ok)"

fun check_results ::
  "ControllerRuntime \<Rightarrow> (nat \<times> ControllerBackendSequenceResult) list \<Rightarrow> u64 \<Rightarrow> u64 \<Rightarrow>
   Sha256Digest list \<Rightarrow> (u64 \<times> u64 \<times> Sha256Digest list) result" where
  "check_results rt [] required_events required_requeues digests =
     Inr (required_events, required_requeues, digests)"
| "check_results rt ((i, result) # rest) required_events required_requeues digests =
     (let checked = check_result rt i result required_events;
          drains = will_drain (br_completion result) (the (sl_sequence (rt_slots rt ! i)))
      in if \<not> ok checked then Inl checked
         else (case completion_state_digest (br_completion result) rt of
             Inl e \<Rightarrow> Inl e
           | Inr digest \<Rightarrow>
               check_results rt rest
                 (required_events + of_nat (length (br_accepted_token_ids result)) +
                  (if drains then 1 else 0))
                 (required_requeues + (if drains then 0 else 1)) (digests @ [digest])))"

text \<open>The events of one plan share its number, their count and a running index.\<close>

definition plan_draft ::
  "ControllerOutputEventKind \<Rightarrow> u64 \<Rightarrow> u64 \<Rightarrow> u32 \<Rightarrow> Sha256Digest \<Rightarrow> u64 \<Rightarrow> u32 \<Rightarrow> u64 \<Rightarrow>
   ControllerFinishReason \<Rightarrow> ControllerRuntime \<Rightarrow> ControllerOutputEventDraft" where
  "plan_draft kind request_generation ordinal token digest plan_sequence index required_events
     reason rt =
     \<lparr>ed_kind = kind, ed_epoch = rt_epoch rt, ed_request_generation = request_generation,
      ed_token_ordinal = ordinal, ed_token_id = token, ed_state_digest = digest,
      ed_plan_sequence = plan_sequence, ed_plan_event_index = index,
      ed_plan_event_count = ucast required_events, ed_finish_reason = reason\<rparr>"

fun publish_tokens ::
  "thread_id \<Rightarrow> u64 \<Rightarrow> u64 \<Rightarrow> Sha256Digest \<Rightarrow> u64 \<Rightarrow> u64 \<Rightarrow> u32 list \<Rightarrow> u32 \<Rightarrow> ControllerRuntime \<Rightarrow>
   bool \<times> u32 \<times> ControllerRuntime" where
  "publish_tokens current request_generation ordinal digest plan_sequence required_events [] index rt =
     (True, index, rt)"
| "publish_tokens current request_generation ordinal digest plan_sequence required_events
     (token # tokens) index rt =
     (case runtime_publish current
             (plan_draft kTokenCommitted request_generation ordinal token digest plan_sequence index
                required_events ControllerFinishReason.kNone rt) rt of
        (event, rt) \<Rightarrow>
          if \<not> ok event then (False, index + 1, rt)
          else publish_tokens current request_generation (ordinal + 1) digest plan_sequence
                 required_events tokens (index + 1) rt)"

definition finish_reason ::
  "ControllerPlanCompletion \<Rightarrow> ControllerRequestView \<Rightarrow> ControllerFinishReason" where
  "finish_reason completion request =
     (if cp_terminal completion
      then (if cp_accepted_completion_count completion = ucast (rv_maximum_new_tokens request)
            then kLength else kStop)
      else ControllerFinishReason.kNone)"

definition set_slot :: "nat \<Rightarrow> RuntimeSlot \<Rightarrow> ControllerRuntime \<Rightarrow> ControllerRuntime" where
  "set_slot i slot rt = rt\<lparr>rt_slots := (rt_slots rt)[i := slot]\<rparr>"

text \<open>The slot after its completion: it drains, or it queues for its next plan.\<close>

definition settle_slot ::
  "thread_id \<Rightarrow> i64 \<Rightarrow> u64 \<Rightarrow> u64 \<Rightarrow> nat \<Rightarrow> ControllerBackendSequenceResult \<Rightarrow> Sha256Digest \<Rightarrow> u32 \<Rightarrow>
   ControllerRuntime \<Rightarrow> status \<times> u32 \<times> ControllerRuntime" where
  "settle_slot current now_ns plan_sequence required_events i result digest index rt =
     (let slot = rt_slots rt ! i;
          sequence = the (sl_sequence slot)
      in if sq_state sequence = ControllerSequenceState.kDraining
         then
           let rt = set_slot i (slot\<lparr>sl_pending_token := None\<rparr>) rt
           in (case runtime_publish current
                   (plan_draft ControllerOutputEventKind.kDraining (sq_sequence_generation sequence)
                      0 0 digest plan_sequence index required_events
                      (finish_reason (br_completion result) (sl_request slot)) rt) rt of
                 (event, rt) \<Rightarrow>
                   if \<not> ok event
                   then (Internal msg_reserved_controller_drain_event_publish_failed, index + 1,
                         fail_runtime rt)
                   else (Ok, index + 1,
                         set_slot i ((rt_slots rt ! i)
                           \<lparr>sl_last_service_plan_sequence := plan_sequence\<rparr>) rt))
         else
           let pending = (if sq_state sequence = kReadyDecode
                          then Some (last (br_accepted_token_ids result))
                          else sl_pending_token slot)
           in (Ok, index,
               (set_slot i (slot\<lparr>sl_pending_token := pending,
                                 sl_ready_enqueue_sequence := rt_next_ready_enqueue_sequence rt,
                                 sl_prefill_eligible_since_ns := now_ns,
                                 sl_last_service_plan_sequence := plan_sequence\<rparr>) rt)
               \<lparr>rt_next_ready_enqueue_sequence := rt_next_ready_enqueue_sequence rt + 1\<rparr>))"

fun apply_results ::
  "thread_id \<Rightarrow> i64 \<Rightarrow> u64 \<Rightarrow> u64 \<Rightarrow> (nat \<times> ControllerBackendSequenceResult \<times> Sha256Digest) list \<Rightarrow>
   u32 \<Rightarrow> ControllerRuntime \<Rightarrow> status \<times> ControllerRuntime" where
  "apply_results current now_ns plan_sequence required_events [] index rt = (Ok, rt)"
| "apply_results current now_ns plan_sequence required_events ((i, result, digest) # rest) index rt =
     (let sequence = the (sl_sequence (rt_slots rt ! i));
          previous = sq_accepted_completion_count sequence
      in (case complete (br_completion result) sequence of
            (completion, sequence) \<Rightarrow>
              let rt = set_sequence i (Some sequence) rt
              in if \<not> ok completion
                 then (Internal msg_validated_controller_completion_failed_to_apply, fail_runtime rt)
                 else (case publish_tokens current (sq_sequence_generation sequence) (previous + 1)
                              digest plan_sequence required_events (br_accepted_token_ids result)
                              index rt of
                     (False, _, rt) \<Rightarrow>
                       (Internal msg_reserved_controller_token_event_publish_failed, fail_runtime rt)
                   | (True, index, rt) \<Rightarrow>
                       (case settle_slot current now_ns plan_sequence required_events i result
                               digest index rt of
                          (settled, index, rt) \<Rightarrow>
                            if \<not> ok settled then (settled, rt)
                            else apply_results current now_ns plan_sequence required_events rest
                                   index rt))))"

text \<open>All results are applied: count the round and hand the credit on.\<close>

definition close_plan ::
  "PackedTokenPhase \<Rightarrow> SchedulerTier \<Rightarrow> u64 \<Rightarrow> OutputBurstLease \<Rightarrow> ControllerRuntime \<Rightarrow>
   status \<times> ControllerRuntime" where
  "close_plan phase tier required_events burst rt =
     (let rt = (if phase = kPrefill
                then rt\<lparr>rt_consecutive_decode_rounds := 0,
                        rt_last_successful_plan_was_protected_prefill :=
                          (tier = kProtectedPrefill)\<rparr>
                else rt\<lparr>rt_consecutive_decode_rounds := rt_consecutive_decode_rounds rt + 1,
                        rt_last_successful_plan_was_protected_prefill := False\<rparr>)
      in if required_events = 0
         then (case burst_release burst (rt_output_credits rt) of
             (released, credits) \<Rightarrow>
               let rt = rt\<lparr>rt_output_credits := credits\<rparr>
               in if \<not> ok released then (released, fail_runtime rt)
                  else (Ok, clear_current_plan rt))
         else (case find_index (\<lambda>lease. lease = None) (rt_pending_output_bursts rt) of
             None \<Rightarrow>
               (Internal msg_controller_transferred_output_credit_has_no_owner_slot, fail_runtime rt)
           | Some k \<Rightarrow>
               (Ok, clear_current_plan
                  (rt\<lparr>rt_pending_output_bursts :=
                        (rt_pending_output_bursts rt)[k := Some burst]\<rparr>))))"

definition complete_current_plan ::
  "thread_id \<Rightarrow> ControllerBackendSequenceResult list \<Rightarrow> i64 \<Rightarrow> ControllerRuntime \<Rightarrow>
   status \<times> ControllerRuntime" where
  "complete_current_plan current results now_ns rt =
     (case (rt_current_plan rt, rt_current_output_burst rt) of
        (Some plan, Some burst) \<Rightarrow>
          if length results \<noteq> length (rt_selected_slot_indices rt) \<or>
             now_ns < rt_last_controller_now_ns rt \<or> rt_next_ready_enqueue_sequence rt = 0
          then (FailedPrecondition msg_controller_completion_batch_is_invalid, rt)
          else (case check_results rt (zip (rt_selected_slot_indices rt) results) 0 0 [] of
              Inl e \<Rightarrow> (e, rt)
            | Inr (required_events, required_requeues, digests) \<Rightarrow>
                if required_events > ucast (available_event_credit (rt_ingress rt))
                then (ResourceExhausted msg_controller_output_event_credit_is_unavailable, rt)
                else if required_requeues \<noteq> 0 \<and>
                        rt_next_ready_enqueue_sequence rt > UINT64_MAX - required_requeues + 1
                then (FailedPrecondition msg_controller_ready_enqueue_sequence_wrapped, rt)
                else (case burst_transfer burst (rt_output_credits rt) of
                    (transferred, credits) \<Rightarrow>
                      let rt = rt\<lparr>rt_output_credits := credits\<rparr>
                      in if \<not> ok transferred then (transferred, rt)
                         else
                           let rt = rt\<lparr>rt_last_controller_now_ns := now_ns\<rparr>
                           in if pp_phase plan \<noteq> kPrefill \<and>
                                 rt_consecutive_decode_rounds rt = UINT32_MAX
                              then (Internal msg_controller_decode_round_counter_wrapped,
                                    fail_runtime rt)
                              else (case apply_results current now_ns (pp_plan_sequence plan)
                                           required_events
                                           (zip (rt_selected_slot_indices rt) (zip results digests))
                                           0 rt of
                                  (applied, rt) \<Rightarrow>
                                    if \<not> ok applied then (applied, rt)
                                    else close_plan (pp_phase plan) (rt_current_tier rt)
                                           required_events burst rt)))
      | _ \<Rightarrow> (FailedPrecondition msg_controller_completion_batch_is_invalid, rt))"

definition acknowledge_output_plan :: "u64 \<Rightarrow> ControllerRuntime \<Rightarrow> status \<times> ControllerRuntime" where
  "acknowledge_output_plan plan_sequence rt =
     (if plan_sequence = 0
      then (InvalidArgument msg_controller_output_ACK_plan_is_zero, rt)
      else (case find_index
                   (\<lambda>lease. case lease of None \<Rightarrow> False | Some l \<Rightarrow> bl_plan_sequence l = plan_sequence)
                   (rt_pending_output_bursts rt) of
          None \<Rightarrow> (FailedPrecondition msg_controller_output_ACK_is_stale_or_forged, rt)
        | Some k \<Rightarrow>
            (case burst_release (the (rt_pending_output_bursts rt ! k)) (rt_output_credits rt) of
               (released, credits) \<Rightarrow>
                 let rt = rt\<lparr>rt_output_credits := credits\<rparr>
                 in if \<not> ok released
                    then (Internal msg_controller_output_ACK_release_failed, fail_runtime rt)
                    else (Ok, rt\<lparr>rt_pending_output_bursts :=
                                   (rt_pending_output_bursts rt)[k := None]\<rparr>))))"


section \<open>Completing with sampled tokens\<close>

text \<open>The completion of one sequence from the next sampled token, if its plan produces one; the
  samples still unused come back with it.\<close>

definition sampled_stop :: "u32 \<Rightarrow> u64 \<Rightarrow> ControllerRequestSampling \<Rightarrow> u32 \<Rightarrow> bool" where
  "sampled_stop token accepted_count sampling eos_token_id \<longleftrightarrow>
     accepted_count \<ge> ucast (sp_minimum_new_tokens sampling) \<and>
     (eos_token_id \<noteq> UINT32_MAX \<and> token = eos_token_id \<or>
      token \<in> set (take (unat (sp_stop_token_count sampling)) (sp_stop_token_ids sampling)))"

definition sampled_completion ::
  "ControllerRuntime \<Rightarrow> PackedTokenPlan \<Rightarrow> nat \<Rightarrow> u32 \<Rightarrow> u32 list \<Rightarrow>
   (ControllerBackendSequenceResult \<times> u32 list) result" where
  "sampled_completion rt plan i real_token_count samples =
     (let slot = rt_slots rt ! i;
          sequence = the (sl_sequence slot);
          previous = sq_accepted_completion_count sequence
      in (case checked_add_u64 (sq_model_processed_length sequence) (ucast real_token_count) of
            Inl _ \<Rightarrow> Inl (ResourceExhausted msg_controller_sampled_completion_identity_exhausted)
          | Inr committed \<Rightarrow>
              if sq_state_generation sequence = UINT64_MAX
              then Inl (ResourceExhausted msg_controller_sampled_completion_identity_exhausted)
              else
                let produces_token =
                      (pp_phase plan \<noteq> kPrefill \<or> committed = sq_prompt_token_count sequence);
                    accepted_count = previous + (if produces_token then 1 else 0);
                    token = (if produces_token then hd samples else 0);
                    stop = (produces_token \<and>
                            sampled_stop token accepted_count (rv_sampling (sl_request slot))
                              (cf_eos_token_id (rt_config rt)))
                in if produces_token \<and> samples = []
                   then Inl (InvalidArgument msg_controller_sampled_token_count_is_short)
                   else if accepted_count < previous
                   then Inl (ResourceExhausted msg_controller_accepted_token_identity_exhausted)
                   else Inr
                     (\<lparr>br_completion =
                         \<lparr>cp_plan_sequence = pp_plan_sequence plan,
                          cp_sequence_generation = sq_sequence_generation sequence,
                          cp_committed_model_processed_length = committed,
                          cp_accepted_completion_count = accepted_count,
                          cp_state_generation = sq_state_generation sequence + 1,
                          cp_next_decode_phase = kDecode,
                          cp_terminal =
                            (accepted_count = ucast (rv_maximum_new_tokens (sl_request slot)) \<or> stop)\<rparr>,
                       br_accepted_token_ids = (if produces_token then [token] else [])\<rparr>,
                      if produces_token then tl samples else samples)))"

fun sampled_completions ::
  "ControllerRuntime \<Rightarrow> PackedTokenPlan \<Rightarrow> (nat \<times> u32) list \<Rightarrow> u32 list \<Rightarrow>
   (ControllerBackendSequenceResult list \<times> u32 list) result" where
  "sampled_completions rt plan [] samples = Inr ([], samples)"
| "sampled_completions rt plan ((i, real_token_count) # rest) samples =
     (case sampled_completion rt plan i real_token_count samples of
        Inl e \<Rightarrow> Inl e
      | Inr (result, samples) \<Rightarrow>
          (case sampled_completions rt plan rest samples of
             Inl e \<Rightarrow> Inl e
           | Inr (results, samples) \<Rightarrow> Inr (result # results, samples)))"

definition complete_current_sampled_tokens ::
  "thread_id \<Rightarrow> u32 list \<Rightarrow> i64 \<Rightarrow> ControllerRuntime \<Rightarrow> status \<times> ControllerRuntime" where
  "complete_current_sampled_tokens current sampled_token_ids now_ns rt =
     (case rt_current_plan rt of
        None \<Rightarrow> (FailedPrecondition msg_controller_has_no_canonical_sampled_completion_plan, rt)
      | Some plan \<Rightarrow>
          if sequence_count plan \<noteq> length (rt_selected_slot_indices rt)
          then (FailedPrecondition msg_controller_has_no_canonical_sampled_completion_plan, rt)
          else (case sampled_completions rt plan
                       (zip (rt_selected_slot_indices rt) (pp_real_token_counts plan))
                       sampled_token_ids of
              Inl e \<Rightarrow> (e, rt)
            | Inr (results, samples) \<Rightarrow>
                if samples \<noteq> []
                then (InvalidArgument msg_controller_sampled_token_count_is_long, rt)
                else complete_current_plan current results now_ns rt))"

section \<open>Retiring a sequence\<close>

definition finish_sequence ::
  "ControllerSequence \<Rightarrow> status \<times> ControllerOutputEventKind \<times> ControllerSequence" where
  "finish_sequence sequence =
     (case finish_cancel sequence of
        (finished, sequence) \<Rightarrow>
          if ok finished then (finished, ControllerOutputEventKind.kCancelled, sequence)
          else (case finish_drain sequence of
              (finished, sequence) \<Rightarrow>
                (finished, ControllerOutputEventKind.kCompleted, sequence)))"

definition finalize_draining ::
  "thread_id \<Rightarrow> u64 \<Rightarrow> ControllerRuntime \<Rightarrow> status \<times> ControllerRuntime" where
  "finalize_draining current request_generation rt =
     (if rt_state rt \<noteq> ControllerRuntimeState.kReady \<or> available_event_credit (rt_ingress rt) = 0
      then (ResourceExhausted msg_controller_terminal_event_credit_is_unavailable, rt)
      else (case find_index (holds_generation request_generation) (rt_slots rt) of
          None \<Rightarrow> (FailedPrecondition msg_controller_drain_target_is_not_active, rt)
        | Some i \<Rightarrow>
            (case finish_sequence (the (sl_sequence (rt_slots rt ! i))) of
               (finished, kind, sequence) \<Rightarrow>
                 let request = sl_request (rt_slots rt ! i);
                     rt = set_sequence i (Some sequence) rt
                 in if \<not> ok finished then (finished, rt)
                    else (case runtime_release request rt of
                        (released, rt) \<Rightarrow>
                          if \<not> ok released
                          then (Internal msg_controller_request_release_failed_after_drain,
                                fail_runtime rt)
                          else (case runtime_publish current
                                  (plain_draft kind (rt_epoch rt) request_generation
                                     (rv_payload_digest request)) rt of
                              (event, rt) \<Rightarrow>
                                if \<not> ok event
                                then (Internal msg_reserved_controller_terminal_event_publish_failed,
                                      fail_runtime rt)
                                else (Ok,
                                  (set_slot i ((rt_slots rt ! i)
                                     \<lparr>sl_pending_token := None, sl_sequence := None,
                                      sl_request := default_request_view\<rparr>) rt)
                                  \<lparr>rt_active_sequence_count := rt_active_sequence_count rt - 1\<rparr>))))))"

section \<open>Observers\<close>

definition runtime_try_take_event ::
  "ControllerRuntime \<Rightarrow> ControllerOutputEvent option result \<times> ControllerRuntime" where
  "runtime_try_take_event rt =
     (case ingress_try_take_event (rt_ingress rt) of
        (r, ingress) \<Rightarrow> (r, rt\<lparr>rt_ingress := ingress\<rparr>))"

definition runtime_queued_command_count :: "ControllerRuntime \<Rightarrow> u32" where
  "runtime_queued_command_count rt = queued_command_count (rt_ingress rt)"

definition available_output_burst_credits :: "ControllerRuntime \<Rightarrow> u32" where
  "available_output_burst_credits rt = available (rt_output_credits rt)"

definition retirable :: "ControllerRuntime \<Rightarrow> bool" where
  "retirable rt \<longleftrightarrow>
     \<not> (rt_state rt \<noteq> ControllerRuntimeState.kReady \<or>
        rt_active_sequence_count rt \<noteq> 0 \<or> runtime_queued_command_count rt \<noteq> 0 \<or>
        queued_event_count (rt_ingress rt) \<noteq> 0 \<or> rt_current_plan rt \<noteq> None \<or>
        rt_current_output_burst rt \<noteq> None \<or>
        unat (available (rt_output_credits rt)) \<noteq> length (rt_pending_output_bursts rt)) \<and>
     list_all (\<lambda>lease. lease = None) (rt_pending_output_bursts rt)"

end
