(* ===== verification/RuntimeLedger.thy ===== *)
theory RuntimeLedger
  imports Runtime
begin

text \<open>
  The books of the controller runtime: over every history of its operations a ready runtime counts
  its sequences exactly, accounts for every output credit, and marks with the current plan exactly
  the sequences that plan selected. On this rest the outcome of completing a plan and the
  exactly-once acknowledgement of its output.

  The operations are those of \<open>Runtime\<close>. A runtime that has failed keeps no books: nothing brings it
  back to ready, so the invariant is a claim about ready runtimes.
\<close>

section \<open>The books\<close>

definition sequences :: "ControllerRuntime \<Rightarrow> ControllerSequence option list" where
  "sequences rt = map sl_sequence (rt_slots rt)"

definition active_plan :: "ControllerSequence option \<Rightarrow> u64" where
  "active_plan entry = (case entry of None \<Rightarrow> 0 | Some s \<Rightarrow> sq_active_plan_sequence s)"

definition sequences_ok :: "ControllerSequence option list \<Rightarrow> bool" where
  "sequences_ok ss \<longleftrightarrow> (\<forall>s. Some s \<in> set ss \<longrightarrow> sequence_ok s)"

text \<open>The plan \<open>p\<close> is the active plan of exactly the selected sequences, and no other is active.\<close>

definition plan_ledger :: "u64 \<Rightarrow> nat list \<Rightarrow> ControllerSequence option list \<Rightarrow> bool" where
  "plan_ledger p selected ss \<longleftrightarrow>
     distinct selected \<and> set selected \<subseteq> {..<length ss} \<and>
     (\<forall>i<length ss. active_plan (ss ! i) = (if i \<in> set selected then p else 0))"

text \<open>Every outstanding credit is held by the current plan or waits for its acknowledgement.\<close>

definition credit_ledger ::
  "OutputBurstCreditPool \<Rightarrow> OutputBurstLease option \<Rightarrow> OutputBurstLease option list \<Rightarrow> bool" where
  "credit_ledger pool current pending \<longleftrightarrow>
     pool_ok pool \<and> length pending = length (bp_credits pool) \<and>
     (\<forall>l. current = Some l \<longrightarrow> holds l kPrepared pool \<or> holds l kCommitted pool) \<and>
     (\<forall>l. Some l \<in> set pending \<longrightarrow> holds l kTransferred pool) \<and>
     (\<forall>j<length pending. \<forall>k<length pending. pending ! j \<noteq> None \<longrightarrow> pending ! k \<noteq> None \<longrightarrow>
        bl_credit_index (the (pending ! j)) = bl_credit_index (the (pending ! k)) \<longrightarrow> j = k) \<and>
     unat (available pool) + (if current = None then 0 else 1) +
       count_if (\<lambda>l. l \<noteq> None) pending = length (bp_credits pool)"

definition plan_books ::
  "PackedTokenPlan option \<Rightarrow> OutputBurstLease option \<Rightarrow> nat list \<Rightarrow> ControllerSequence option list \<Rightarrow> bool" where
  "plan_books current burst selected ss \<longleftrightarrow>
     (case current of
        None \<Rightarrow> burst = None \<and> plan_ledger 0 [] ss
      | Some plan \<Rightarrow>
          pp_plan_sequence plan \<noteq> 0 \<and> map_option bl_plan_sequence burst = Some (pp_plan_sequence plan) \<and>
          plan_ledger (pp_plan_sequence plan) selected ss)"

definition books_ok :: "ControllerRuntime \<Rightarrow> bool" where
  "books_ok rt \<longleftrightarrow>
     sequences_ok (sequences rt) \<and> length (rt_slots rt) < 2 ^ 32 \<and>
     unat (rt_active_sequence_count rt) = count_if (\<lambda>s. s \<noteq> None) (sequences rt) \<and>
     credit_ledger (rt_output_credits rt) (rt_current_output_burst rt) (rt_pending_output_bursts rt) \<and>
     plan_books (rt_current_plan rt) (rt_current_output_burst rt) (rt_selected_slot_indices rt)
       (sequences rt)"

definition runtime_ok :: "ControllerRuntime \<Rightarrow> bool" where
  "runtime_ok rt \<longleftrightarrow> (rt_state rt = kReady \<longrightarrow> books_ok rt)"

section \<open>Credits\<close>

lemma holds_other:
  "holds l st p \<Longrightarrow> unat (bl_credit_index l) \<noteq> i \<Longrightarrow> holds l st (credit_replaced i c p)"
  by (simp add: holds_def)

lemma holds_state: "holds l st p \<Longrightarrow> cr_state (bp_credits p ! unat (bl_credit_index l)) = st"
  by (simp add: holds_def)

lemma credit_ledgerD:
  assumes "credit_ledger pool current pending"
  shows "pool_ok pool" and "length pending = length (bp_credits pool)"
    and "\<And>l. current = Some l \<Longrightarrow> holds l kPrepared pool \<or> holds l kCommitted pool"
    and "\<And>l. Some l \<in> set pending \<Longrightarrow> holds l kTransferred pool"
    and "\<And>j k. j < length pending \<Longrightarrow> k < length pending \<Longrightarrow> pending ! j \<noteq> None \<Longrightarrow> pending ! k \<noteq> None \<Longrightarrow>
      bl_credit_index (the (pending ! j)) = bl_credit_index (the (pending ! k)) \<Longrightarrow> j = k"
    and "unat (available pool) + (if current = None then 0 else 1) +
       count_if (\<lambda>l. l \<noteq> None) pending = length (bp_credits pool)"
  using assms unfolding credit_ledger_def by blast+

lemma ledger_acquire:
  assumes led: "credit_ledger pool None pending"
    and acq: "burst_acquire plan kind records slots bytes pool = (Inr l, q)"
  shows "credit_ledger q (Some l) pending" and "holds l kPrepared q" and "bl_plan_sequence l = plan"
proof -
  note ok = credit_ledgerD(1) [OF led]
  let ?i = "unat (bl_credit_index l)"
  obtain c where h: "holds l kPrepared q" and i: "?i < length (bp_credits pool)"
    and free: "cr_state (bp_credits pool ! ?i) = kFree" and plan: "bl_plan_sequence l = plan"
    and q: "q = credit_replaced ?i c pool" and c: "cr_state c = kPrepared"
    using acquire_holds [OF ok acq] by blast
  show "holds l kPrepared q" and "bl_plan_sequence l = plan" by (rule h, rule plan)
  have pend: "holds m kTransferred q" if "Some m \<in> set pending" for m
  proof -
    have m: "holds m kTransferred pool" by (rule credit_ledgerD(4) [OF led that])
    then have "unat (bl_credit_index m) \<noteq> ?i" using holds_state [OF m] free by auto
    with m show ?thesis unfolding q by (rule holds_other)
  qed
  have "pool_ok q" using pool_ok_acquire [OF ok, of plan kind records slots bytes] acq by simp
  moreover have "unat (available q) + 1 = unat (available pool)"
    using available_replaced [OF ok i, of c] free c by (simp add: q)
  ultimately show "credit_ledger q (Some l) pending"
    using h pend credit_ledgerD(2,5,6) [OF led] unfolding credit_ledger_def by (auto simp: q)
qed

lemma acquire_refused: "burst_acquire plan kind records slots bytes pool = (Inl e, q) \<Longrightarrow> q = pool"
  by (rule acquire_cases [of plan kind records slots bytes pool]) auto

text \<open>Moving the credit of the current plan leaves the pending ones alone.\<close>

lemma pending_unmoved:
  assumes "holds l st pool" and "st \<noteq> kTransferred" and "holds m kTransferred pool"
  shows "holds m kTransferred (set_credit_state l st' pool)"
proof -
  have "unat (bl_credit_index m) \<noteq> unat (bl_credit_index l)"
    using holds_state [OF assms(1)] holds_state [OF assms(3)] assms(2) by auto
  with assms(3) show ?thesis unfolding set_credit_state_replaced by (rule holds_other)
qed

lemma ledger_commit:
  assumes led: "credit_ledger pool (Some l) pending" and "burst_commit l pool = (e, q)" and "ok e"
  shows "credit_ledger q (Some l) pending"
proof -
  note ok = credit_ledgerD(1) [OF led]
  have h: "holds l kPrepared pool" and q: "q = set_credit_state l kCommitted pool"
    using assms(2,3) by (auto simp: burst_move_cases validate_ok_iff split: if_splits)
  have "length (bp_credits q) = length (bp_credits pool)" by (simp add: q set_credit_state_replaced)
  then show ?thesis
    using pool_ok_move [OF ok h, of kCommitted] available_move [OF ok h, of kCommitted]
      holds_after_move [OF h, of kCommitted] pending_unmoved [OF h] credit_ledgerD [OF led]
    unfolding credit_ledger_def q by auto
qed

lemma ledger_abort:
  assumes led: "credit_ledger pool (Some l) pending" and "burst_abort l pool = (e, q)" and "ok e"
  shows "credit_ledger q None pending"
proof -
  note ok = credit_ledgerD(1) [OF led]
  have h: "holds l kPrepared pool" and q: "q = set_credit_state l kFree pool"
    using assms(2,3) by (auto simp: burst_move_cases validate_ok_iff split: if_splits)
  have "length (bp_credits q) = length (bp_credits pool)" by (simp add: q set_credit_state_replaced)
  then show ?thesis
    using pool_ok_move [OF ok h, of kFree] available_move [OF ok h, of kFree]
      pending_unmoved [OF h] credit_ledgerD [OF led]
    unfolding credit_ledger_def q by auto
qed

text \<open>A plan that ends: its credit is transferred, then released at once or left to be acknowledged.\<close>

lemma released_credit:
  assumes ok: "pool_ok pool" and h: "holds l kTransferred pool" and rel: "burst_release l pool = (e, q)"
  shows "e = Ok" and "pool_ok q" and "unat (available q) = unat (available pool) + 1"
    and "length (bp_credits q) = length (bp_credits pool)"
    and "\<And>m st. holds m st pool \<Longrightarrow> bl_credit_index m \<noteq> bl_credit_index l \<Longrightarrow> holds m st q"
proof -
  let ?i = "unat (bl_credit_index l)"
  have q: "q = credit_replaced ?i (default_credit\<lparr>cr_generation := bl_credit_generation l\<rparr>) pool"
    and "e = Ok" using rel h by (simp_all add: burst_move_cases)
  then show "e = Ok" by simp
  show "pool_ok q" using ok pool_release [OF rel] by (rule pool_ok_step)
  have i: "?i < length (bp_credits pool)" using h by (simp add: holds_def)
  show "unat (available q) = unat (available pool) + 1"
    using available_replaced [OF ok i] holds_state [OF h] by (simp add: q default_credit_def)
  show "length (bp_credits q) = length (bp_credits pool)" by (simp add: q)
  show "holds m st q" if "holds m st pool" "bl_credit_index m \<noteq> bl_credit_index l" for m st
    using that unfolding q by (intro holds_other) (auto simp: word_unat_eq_iff)
qed

lemma transferred_credit:
  assumes led: "credit_ledger pool (Some l) pending" and tr: "burst_transfer l pool = (e, q)" and "ok e"
  shows "pool_ok q" and "holds l kTransferred q" and "available q = available pool"
    and "length (bp_credits q) = length (bp_credits pool)"
    and "\<And>m. Some m \<in> set pending \<Longrightarrow> holds m kTransferred q \<and> bl_credit_index m \<noteq> bl_credit_index l"
proof -
  note ok = credit_ledgerD(1) [OF led]
  have h: "holds l kCommitted pool" and q: "q = set_credit_state l kTransferred pool"
    using assms(2,3) by (auto simp: burst_move_cases validate_ok_iff split: if_splits)
  show "pool_ok q" using pool_ok_move [OF ok h] by (simp add: q)
  show "holds l kTransferred q" using holds_after_move [OF h] by (simp add: q)
  show "available q = available pool" using available_move [OF ok h, of kTransferred] by (simp add: q word_unat_eq_iff)
  show "length (bp_credits q) = length (bp_credits pool)" by (simp add: q set_credit_state_replaced)
  show "holds m kTransferred q \<and> bl_credit_index m \<noteq> bl_credit_index l" if "Some m \<in> set pending" for m
    using pending_unmoved [OF h _ credit_ledgerD(4) [OF led that], of kTransferred]
      holds_state [OF h] holds_state [OF credit_ledgerD(4) [OF led that]] by (auto simp: q)
qed

lemma ledger_release:
  assumes led: "credit_ledger pool (Some l) pending" and tr: "burst_transfer l pool = (e, q)" and "ok e"
    and rel: "burst_release l q = (f, r)"
  shows "f = Ok" and "credit_ledger r None pending"
proof -
  note t = transferred_credit [OF led tr assms(3)]
  note d = released_credit [OF t(1,2) rel]
  show "f = Ok" by (rule d(1))
  show "credit_ledger r None pending"
    using d(2-4) t(3,4) d(5) t(5) credit_ledgerD(2,5,6) [OF led] unfolding credit_ledger_def by auto
qed

lemma ledger_store:
  assumes led: "credit_ledger pool (Some l) pending" and tr: "burst_transfer l pool = (e, q)" and "ok e"
    and k: "k < length pending" "pending ! k = None"
  shows "credit_ledger q None (pending[k := Some l])"
proof -
  note t = transferred_credit [OF led tr assms(3)]
  have "count_if (\<lambda>l. l \<noteq> None) (pending[k := Some l]) = count_if (\<lambda>l. l \<noteq> None) pending + 1"
    using count_if_update [OF k(1), of "\<lambda>l. l \<noteq> None" "Some l"] k(2) by simp
  moreover have "holds m kTransferred q" if "Some m \<in> set (pending[k := Some l])" for m
    using that t(2,5) set_update_subset_insert [of pending k "Some l"] by auto
  moreover have "i = j" if "i < length pending" "j < length pending"
    "(pending[k := Some l]) ! i \<noteq> None" "(pending[k := Some l]) ! j \<noteq> None"
    "bl_credit_index (the ((pending[k := Some l]) ! i)) = bl_credit_index (the ((pending[k := Some l]) ! j))" for i j
  proof -
    have other: "bl_credit_index (the (pending ! x)) \<noteq> bl_credit_index l" if "x < length pending" "pending ! x \<noteq> None" for x
      using t(5) [of "the (pending ! x)"] that nth_mem [of x pending] by auto
    show ?thesis
      using that credit_ledgerD(5) [OF led, of i j] other [of i] other [of j]
      by (cases "i = k"; cases "j = k") auto
  qed
  ultimately show ?thesis
    using t(1,3,4) credit_ledgerD(2,6) [OF led] unfolding credit_ledger_def by simp
qed

lemma ledger_acknowledge:
  assumes led: "credit_ledger pool current pending" and k: "k < length pending" "pending ! k = Some l"
    and rel: "burst_release l pool = (e, q)"
  shows "e = Ok" and "credit_ledger q current (pending[k := None])"
    and "unat (available q) = unat (available pool) + 1"
proof -
  have h: "holds l kTransferred pool" using credit_ledgerD(4) [OF led] k nth_mem by metis
  note d = released_credit [OF credit_ledgerD(1) [OF led] h rel]
  show "e = Ok" and "unat (available q) = unat (available pool) + 1" by (rule d(1), rule d(3))
  have "count_if (\<lambda>l. l \<noteq> None) (pending[k := None]) + 1 = count_if (\<lambda>l. l \<noteq> None) pending"
    using count_if_update [OF k(1), of "\<lambda>l. l \<noteq> None" None] k(2) by simp
  moreover have "holds m st q" if "current = Some m" "holds m st pool" "st \<noteq> kTransferred" for m st
  proof -
    have "bl_credit_index m \<noteq> bl_credit_index l"
      using holds_state [OF that(2)] holds_state [OF h] that(3) by metis
    with that(2) show ?thesis by (rule d(5))
  qed
  moreover have "holds m kTransferred q" if m: "Some m \<in> set (pending[k := None])" for m
  proof -
    from m obtain j where j: "j < length pending" "j \<noteq> k" "pending ! j = Some m"
      using k(1) by (auto simp: in_set_conv_nth nth_list_update split: if_splits)
    then have "bl_credit_index m \<noteq> bl_credit_index l"
      using credit_ledgerD(5) [OF led j(1) k(1)] k(2) by auto
    then show ?thesis using d(5) credit_ledgerD(4) [OF led] j nth_mem by metis
  qed
  moreover have "i = j" if "i < length pending" "j < length pending"
    "(pending[k := None]) ! i \<noteq> None" "(pending[k := None]) ! j \<noteq> None"
    "bl_credit_index (the ((pending[k := None]) ! i)) = bl_credit_index (the ((pending[k := None]) ! j))" for i j
    using that credit_ledgerD(5) [OF led, of i j] by (cases "i = k"; cases "j = k") auto
  ultimately show "credit_ledger q current (pending[k := None])"
    using d(2,3,4) credit_ledgerD(2,3,6) [OF led] unfolding credit_ledger_def by fastforce
qed

section \<open>Slots\<close>

lemma set_sequence_simps [simp]:
  "rt_state (set_sequence i e rt) = rt_state rt"
  "rt_output_credits (set_sequence i e rt) = rt_output_credits rt"
  "rt_pending_output_bursts (set_sequence i e rt) = rt_pending_output_bursts rt"
  "rt_current_output_burst (set_sequence i e rt) = rt_current_output_burst rt"
  "rt_current_plan (set_sequence i e rt) = rt_current_plan rt"
  "rt_selected_slot_indices (set_sequence i e rt) = rt_selected_slot_indices rt"
  "rt_active_sequence_count (set_sequence i e rt) = rt_active_sequence_count rt"
  "length (rt_slots (set_sequence i e rt)) = length (rt_slots rt)"
  by (simp_all add: set_sequence_def)

lemma sequences_set_sequence [simp]: "sequences (set_sequence i e rt) = (sequences rt)[i := e]"
  by (cases "i < length (rt_slots rt)") (simp_all add: sequences_def set_sequence_def map_update)

lemma length_sequences [simp]: "length (sequences rt) = length (rt_slots rt)"
  by (simp add: sequences_def)

lemma nth_sequences: "i < length (rt_slots rt) \<Longrightarrow> sequences rt ! i = sl_sequence (rt_slots rt ! i)"
  by (simp add: sequences_def)

lemma sequences_unrelated [simp]:
  "sequences (rt\<lparr>rt_ingress := ig\<rparr>) = sequences rt"
  "sequences (rt\<lparr>rt_scheduler := sch\<rparr>) = sequences rt"
  "sequences (rt\<lparr>rt_metadata := md\<rparr>) = sequences rt"
  "sequences (rt\<lparr>rt_last_controller_now_ns := now\<rparr>) = sequences rt"
  "sequences (rt\<lparr>rt_output_credits := credits\<rparr>) = sequences rt"
  by (simp_all add: sequences_def)

text \<open>The books do not mention the ingress, the scheduler, the metadata or the clocks.\<close>

lemma books_unrelated [simp]:
  "books_ok (rt\<lparr>rt_ingress := ig\<rparr>) = books_ok rt"
  "books_ok (rt\<lparr>rt_scheduler := sch\<rparr>) = books_ok rt"
  "books_ok (rt\<lparr>rt_metadata := md\<rparr>) = books_ok rt"
  "books_ok (rt\<lparr>rt_last_controller_now_ns := now\<rparr>) = books_ok rt"
  "books_ok (rt\<lparr>rt_next_ready_enqueue_sequence := n\<rparr>) = books_ok rt"
  "books_ok (rt\<lparr>rt_consecutive_decode_rounds := d\<rparr>) = books_ok rt"
  "books_ok (rt\<lparr>rt_last_successful_plan_was_protected_prefill := b\<rparr>) = books_ok rt"
  by (simp_all add: books_ok_def sequences_def)

lemma fail_runtime_state [simp]: "rt_state (fail_runtime rt) = ControllerRuntimeState.kFailed"
  by (simp add: fail_runtime_def)

lemma runtime_ok_failed [simp]: "runtime_ok (fail_runtime rt)"
  by (simp add: runtime_ok_def fail_runtime_def)

lemma runtime_ok_not_ready: "rt_state rt \<noteq> kReady \<Longrightarrow> runtime_ok rt"
  by (simp add: runtime_ok_def)

lemma runtime_ok_unrelated [simp]:
  "runtime_ok (rt\<lparr>rt_ingress := ig\<rparr>) = runtime_ok rt"
  "runtime_ok (rt\<lparr>rt_scheduler := sch\<rparr>) = runtime_ok rt"
  "runtime_ok (rt\<lparr>rt_metadata := md\<rparr>) = runtime_ok rt"
  "runtime_ok (rt\<lparr>rt_last_controller_now_ns := now\<rparr>) = runtime_ok rt"
  by (simp_all add: runtime_ok_def)

lemma runtime_publish_frame:
  assumes "runtime_publish current draft rt = (e, rt')"
  obtains ig where "rt' = rt\<lparr>rt_ingress := ig\<rparr>"
  using assms by (auto simp: runtime_publish_def split: prod.splits sum.splits)

lemma runtime_release_frame:
  assumes "runtime_release request rt = (e, rt')"
  obtains ig where "rt' = rt\<lparr>rt_ingress := ig\<rparr>"
  using assms by (auto simp: runtime_release_def split: prod.splits)

lemma plan_ledger_same:
  assumes "length ss' = length ss" and "\<And>i. i < length ss \<Longrightarrow> active_plan (ss' ! i) = active_plan (ss ! i)"
  shows "plan_ledger p selected ss' = plan_ledger p selected ss"
    and "plan_books current burst selected ss' = plan_books current burst selected ss"
  using assms by (simp_all add: plan_ledger_def plan_books_def split: option.splits)

lemma sequences_ok_update:
  "sequences_ok ss \<Longrightarrow> (\<And>s. e = Some s \<Longrightarrow> sequence_ok s) \<Longrightarrow> sequences_ok (ss[i := e])"
  using set_update_subset_insert [of ss i e] unfolding sequences_ok_def by blast

text \<open>Replacing a sequence by another with the same active plan keeps the books.\<close>

lemma books_set_sequence:
  assumes books: "books_ok rt" and i: "i < length (rt_slots rt)" "sl_sequence (rt_slots rt ! i) = Some s"
    and s': "sequence_ok s'" "sq_active_plan_sequence s' = sq_active_plan_sequence s"
  shows "books_ok (set_sequence i (Some s') rt)"
proof -
  have old: "sequences rt ! i = Some s" using i by (simp add: nth_sequences)
  have "plan_books current burst sel ((sequences rt)[i := Some s']) =
      plan_books current burst sel (sequences rt)" for current burst sel
    using s'(2) old i(1) by (intro plan_ledger_same) (auto simp: nth_list_update active_plan_def)
  moreover have "count_if (\<lambda>s. s \<noteq> None) ((sequences rt)[i := Some s']) = count_if (\<lambda>s. s \<noteq> None) (sequences rt)"
    using count_if_update [of i "sequences rt" "\<lambda>s. s \<noteq> None" "Some s'"] i(1) old by simp
  moreover have "sequences_ok ((sequences rt)[i := Some s'])"
    using books s'(1) by (intro sequences_ok_update) (simp_all add: books_ok_def)
  ultimately show ?thesis using books by (simp add: books_ok_def)
qed

lemma books_sequence_ok:
  "books_ok rt \<Longrightarrow> i < length (rt_slots rt) \<Longrightarrow> sl_sequence (rt_slots rt ! i) = Some s \<Longrightarrow> sequence_ok s"
  unfolding books_ok_def sequences_ok_def sequences_def by (metis length_map nth_map nth_mem)

lemma found_generation:
  assumes "find_index (holds_generation g) (rt_slots rt) = Some i"
  obtains s where "i < length (rt_slots rt)" "sl_sequence (rt_slots rt ! i) = Some s"
    "sq_sequence_generation s = g"
  using find_index_SomeD [OF assms] by (auto simp: holds_generation_def split: option.splits)

lemma set_sequence_nth [simp]:
  "i < length (rt_slots rt) \<Longrightarrow> sl_sequence (rt_slots (set_sequence i e rt) ! i) = e"
  by (simp add: set_sequence_def)

lemma cancel_keeps_plan: "sq_active_plan_sequence (snd (request_cancel s)) = sq_active_plan_sequence s"
  by (simp add: request_cancel_def)

lemma drain_keeps_no_plan:
  "\<not> has_active_plan s \<Longrightarrow> sq_active_plan_sequence (snd (begin_draining s)) = sq_active_plan_sequence s"
  by (simp add: begin_draining_def has_active_plan_def clear_plan_def)

lemma ok_step_cancel:
  assumes ok: "runtime_ok rt" and ready: "rt_state rt = kReady"
    and st: "step_cancel current command rt = (r, rt')"
  shows "runtime_ok rt'"
proof (cases "find_index (holds_generation (cc_request_generation command)) (rt_slots rt)")
  case None
  with st ok show ?thesis
    by (auto simp: step_cancel_def simp del: find_index_None_iff split: sum.splits if_splits)
next
  case (Some i)
  then obtain s where i: "i < length (rt_slots rt)" "sl_sequence (rt_slots rt ! i) = Some s"
    by (rule found_generation)
  have books: "books_ok rt" using ok ready by (simp add: runtime_ok_def)
  have s: "sequence_ok s" by (rule books_sequence_ok [OF books i])
  obtain e s1 where c: "request_cancel s = (e, s1)" by fastforce
  have s1: "sequence_ok s1" "sq_active_plan_sequence s1 = sq_active_plan_sequence s"
    using sequence_ok_cancel [OF s] cancel_keeps_plan [of s] c by simp_all
  let ?rt1 = "set_sequence i (Some s1) rt"
  have b1: "books_ok ?rt1" by (rule books_set_sequence [OF books i s1])
  obtain f s2 where d: "begin_draining s1 = (f, s2)" by fastforce
  have "books_ok (set_sequence i (Some s2) ?rt1)" if "\<not> has_active_plan s1"
    using sequence_ok_drain [OF s1(1)] drain_keeps_no_plan [OF that] d i
    by (intro books_set_sequence [OF b1]) simp_all
  with b1 st Some i c d ok show ?thesis
    by (auto simp: step_cancel_def Let_def runtime_ok_def ready elim!: runtime_publish_frame
        split: sum.splits if_splits prod.splits)
qed

text \<open>Admission.\<close>

lemma admitted_sequence:
  assumes "Admit g n v = Inr s"
  shows "sequence_ok s" and "sq_active_plan_sequence s = 0"
proof -
  have "sequence_init s" unfolding sequence_init_def using assms by blast
  then show "sequence_ok s" by (rule sequence_ok_init)
  show "sq_active_plan_sequence s = 0"
    using assms by (auto simp: Admit_def sequence_new_def split: if_splits)
qed

lemma books_admit:
  assumes books: "books_ok rt" and i: "i < length (rt_slots rt)" "sl_sequence (rt_slots rt ! i) = None"
    and slot: "sl_sequence slot = Some s" "sequence_ok s" "sq_active_plan_sequence s = 0"
  shows "books_ok (rt\<lparr>rt_slots := (rt_slots rt)[i := slot], rt_next_ready_enqueue_sequence := n,
    rt_active_sequence_count := rt_active_sequence_count rt + 1\<rparr>)"
    (is "books_ok ?rt")
proof -
  have old: "sequences rt ! i = None" using i by (simp add: nth_sequences)
  have ss: "sequences ?rt = (sequences rt)[i := Some s]" using slot(1) by (simp add: sequences_def map_update)
  have "plan_books current burst sel (sequences ?rt) = plan_books current burst sel (sequences rt)"
    for current burst sel
    using slot(3) old i(1) unfolding ss by (intro plan_ledger_same) (auto simp: nth_list_update active_plan_def)
  moreover have c: "count_if (\<lambda>s. s \<noteq> None) (sequences ?rt) = count_if (\<lambda>s. s \<noteq> None) (sequences rt) + 1"
    using count_if_update [of i "sequences rt" "\<lambda>s. s \<noteq> None" "Some s"] i(1) old unfolding ss by simp
  moreover have "unat (rt_active_sequence_count rt + 1) = unat (rt_active_sequence_count rt) + 1"
  proof -
    have "count_if (\<lambda>s. s \<noteq> None) (sequences ?rt) \<le> length (rt_slots rt)"
      using count_if_le_length [of "\<lambda>s. s \<noteq> None" "sequences ?rt"] by (simp add: ss)
    then have "unat (rt_active_sequence_count rt) + 1 < 2 ^ 32" using c books by (simp add: books_ok_def)
    then show ?thesis by (simp add: unat_word_ariths)
  qed
  moreover have "sequences_ok (sequences ?rt)"
    using books slot(2) unfolding ss by (intro sequences_ok_update) (simp_all add: books_ok_def)
  ultimately show ?thesis using books by (simp add: books_ok_def)
qed

lemma ok_announce:
  assumes "books_ok (rt\<lparr>rt_active_sequence_count := rt_active_sequence_count rt + 1\<rparr>)"
    and "announce_admission current admission digest i party rt = (r, rt', party')"
  shows "runtime_ok rt'"
proof -
  have counted: "runtime_ok (rt\<lparr>rt_ingress := ig, rt_active_sequence_count := rt_active_sequence_count rt + 1\<rparr>)" for ig
    using assms(1) by (simp add: runtime_ok_def books_ok_def sequences_def)
  from assms(2) show ?thesis
    by (auto simp: announce_admission_def Let_def counted elim!: runtime_publish_frame
        split: prod.splits if_splits)
qed

lemma ok_reserve_failed:
  assumes "runtime_ok rt" and "reserve_failed current admission e rt = (r, rt')"
  shows "runtime_ok rt'"
  using assms by (auto simp: reserve_failed_def Let_def elim!: runtime_publish_frame runtime_release_frame
      split: prod.splits if_splits)

lemma ok_step_admit:
  assumes ok: "runtime_ok rt" and ready: "rt_state rt = kReady"
    and st: "step_admit current now admission party rt = (r, rt', party')"
  shows "runtime_ok rt'"
proof (cases "find_index (\<lambda>slot. sl_sequence slot = None) (rt_slots rt)")
  case None
  with st show ?thesis by (auto simp: step_admit_def simp del: find_index_None_iff)
next
  case (Some i)
  then have i: "i < length (rt_slots rt)" "sl_sequence (rt_slots rt ! i) = None"
    using find_index_SomeD by fastforce+
  have books: "books_ok rt" using ok ready by (simp add: runtime_ok_def)
  obtain e party1 where res: "call_participant (\<lambda>ops. ap_reserve ops admission) party = (e, party1)"
    by fastforce
  show ?thesis
  proof (cases "ok e")
    case False
    with st Some res ok_reserve_failed [OF ok] show ?thesis
      by (auto simp: step_admit_def split: prod.splits)
  next
    case True
    let ?adm = "Admit (rv_request_generation (av_request admission))
      (of_nat (rv_prompt_length (av_request admission))) 1"
    show ?thesis
    proof (cases "\<exists>s d. ?adm = Inr s \<and> admitted_state_digest admission rt = Inr d")
      case True
      then obtain s d where s: "?adm = Inr s" and d: "admitted_state_digest admission rt = Inr d" by blast
      let ?slot = "(rt_slots rt ! i)\<lparr>sl_request := av_request admission, sl_sequence := Some s,
          sl_ready_enqueue_sequence := rt_next_ready_enqueue_sequence rt,
          sl_prefill_eligible_since_ns := now\<rparr>"
      let ?rt = "rt\<lparr>rt_slots := (rt_slots rt)[i := ?slot],
          rt_next_ready_enqueue_sequence := rt_next_ready_enqueue_sequence rt + 1\<rparr>"
      have an: "announce_admission current admission d i party1 ?rt = (r, rt', party')"
        using st Some res \<open>ok e\<close> s d by (simp add: step_admit_def Let_def)
      have "books_ok (?rt\<lparr>rt_active_sequence_count := rt_active_sequence_count ?rt + 1\<rparr>)"
        using books_admit [OF books i _ admitted_sequence [OF s], of ?slot] by simp
      then show ?thesis by (rule ok_announce [OF _ an])
    next
      case False
      with st Some res \<open>ok e\<close> show ?thesis
        by (cases ?adm; cases "admitted_state_digest admission rt")
          (auto simp: step_admit_def Let_def split: prod.splits)
    qed
  qed
qed

lemma ok_step_impl:
  assumes "runtime_ok rt" and "step_impl current now party rt = (r, rt', party')"
  shows "runtime_ok rt'"
proof (cases "rt_state rt = kReady")
  case False
  with assms show ?thesis by (simp add: step_impl_def)
next
  case True
  let ?rt = "\<lambda>ig. rt\<lparr>rt_last_controller_now_ns := now, rt_ingress := ig\<rparr>"
  have "runtime_ok (?rt ig)" "rt_state (?rt ig) = kReady" for ig using assms(1) True by simp_all
  note steps = ok_step_cancel [OF this] ok_step_admit [OF this]
  from assms True show ?thesis
    by (auto simp: step_impl_def Let_def dest: steps
        split: prod.splits if_splits sum.splits option.splits)
qed

section \<open>Plans\<close>

definition same_but_sequences :: "ControllerRuntime \<Rightarrow> ControllerRuntime \<Rightarrow> bool" where
  "same_but_sequences rt rt' \<longleftrightarrow>
     (\<exists>slots. rt' = rt\<lparr>rt_slots := slots\<rparr>) \<and>
     map (\<lambda>slot. sl_sequence slot = None) (rt_slots rt') = map (\<lambda>slot. sl_sequence slot = None) (rt_slots rt)"

lemma same_but_sequences_refl [simp]: "same_but_sequences rt rt"
  unfolding same_but_sequences_def by (metis ControllerRuntime.surjective ControllerRuntime.update_convs(3))

lemma same_but_sequences_trans:
  "same_but_sequences rt rt1 \<Longrightarrow> same_but_sequences rt1 rt2 \<Longrightarrow> same_but_sequences rt rt2"
  unfolding same_but_sequences_def by auto

lemma same_but_sequences_set:
  assumes "i < length (rt_slots rt)" and "sl_sequence (rt_slots rt ! i) = Some s"
  shows "same_but_sequences rt (set_sequence i (Some s') rt)"
proof -
  have "map (\<lambda>slot. sl_sequence slot = None) (rt_slots rt) ! i = False" using assms by simp
  then have "(map (\<lambda>slot. sl_sequence slot = None) (rt_slots rt))[i := False] =
      map (\<lambda>slot. sl_sequence slot = None) (rt_slots rt)"
    by (metis list_update_id)
  then show ?thesis unfolding same_but_sequences_def set_sequence_def by (auto simp: map_update)
qed

lemma same_but_sequencesD:
  assumes "same_but_sequences rt rt'"
  shows "rt_state rt' = rt_state rt" and "rt_output_credits rt' = rt_output_credits rt"
    and "rt_pending_output_bursts rt' = rt_pending_output_bursts rt"
    and "rt_current_output_burst rt' = rt_current_output_burst rt"
    and "rt_current_plan rt' = rt_current_plan rt"
    and "rt_selected_slot_indices rt' = rt_selected_slot_indices rt"
    and "rt_active_sequence_count rt' = rt_active_sequence_count rt"
    and "length (rt_slots rt') = length (rt_slots rt)"
    and "count_if (\<lambda>s. s \<noteq> None) (sequences rt') = count_if (\<lambda>s. s \<noteq> None) (sequences rt)"
    and "rt_ingress rt' = rt_ingress rt" and "rt_next_plan_sequence rt' = rt_next_plan_sequence rt"
    and "rt_config rt' = rt_config rt"
proof -
  from assms obtain slots where rt': "rt' = rt\<lparr>rt_slots := slots\<rparr>"
    and m: "map (\<lambda>slot. sl_sequence slot = None) (rt_slots rt') =
      map (\<lambda>slot. sl_sequence slot = None) (rt_slots rt)"
    unfolding same_but_sequences_def by blast
  then show "rt_state rt' = rt_state rt" and "rt_output_credits rt' = rt_output_credits rt"
    and "rt_pending_output_bursts rt' = rt_pending_output_bursts rt"
    and "rt_current_output_burst rt' = rt_current_output_burst rt"
    and "rt_current_plan rt' = rt_current_plan rt"
    and "rt_selected_slot_indices rt' = rt_selected_slot_indices rt"
    and "rt_active_sequence_count rt' = rt_active_sequence_count rt"
    and "rt_ingress rt' = rt_ingress rt" and "rt_next_plan_sequence rt' = rt_next_plan_sequence rt"
    and "rt_config rt' = rt_config rt"
    by simp_all
  show "length (rt_slots rt') = length (rt_slots rt)" using m map_eq_imp_length_eq by metis
  have "count_if (\<lambda>s. s \<noteq> None) (sequences x) =
      count_if (\<lambda>b. \<not> b) (map (\<lambda>slot. sl_sequence slot = None) (rt_slots x))" for x
    by (simp add: sequences_def count_if_def filter_map comp_def)
  then show "count_if (\<lambda>s. s \<noteq> None) (sequences rt') = count_if (\<lambda>s. s \<noteq> None) (sequences rt)"
    using m by simp
qed

lemma sequences_entry:
  "sequences_ok ss \<Longrightarrow> i < length ss \<Longrightarrow> ss ! i = Some s \<Longrightarrow> sequence_ok s"
  unfolding sequences_ok_def by (metis nth_mem)

text \<open>An operation applied to some of the sequences.\<close>

lemma apply_selected_frame:
  assumes "\<And>s. sequence_ok s \<Longrightarrow> sequence_ok (snd (operation s))"
    and "sequences_ok (sequences rt)"
    and "\<forall>i\<in>set indices. i < length (rt_slots rt) \<and> sequences rt ! i \<noteq> None"
    and "apply_selected operation indices rt = (b, rt')"
  shows "same_but_sequences rt rt' \<and> sequences_ok (sequences rt') \<and>
    (\<forall>j<length (rt_slots rt). j \<notin> set indices \<longrightarrow> sequences rt' ! j = sequences rt ! j)"
  using assms(2-4)
proof (induction indices arbitrary: rt)
  case Nil
  then show ?case by simp
next
  case (Cons i indices)
  from Cons.prems(2) obtain s where i: "i < length (rt_slots rt)" "sl_sequence (rt_slots rt ! i) = Some s"
    by (auto simp: nth_sequences)
  obtain st s' where op: "operation s = (st, s')" by fastforce
  let ?rt = "set_sequence i (Some s') rt"
  have "sequence_ok s" using i by (intro sequences_entry [OF Cons.prems(1), of i]) (simp_all add: nth_sequences)
  then have s': "sequence_ok s'" using assms(1) [of s] op by simp
  have same: "same_but_sequences rt ?rt" by (rule same_but_sequences_set [OF i])
  have ok: "sequences_ok (sequences ?rt)" using sequences_ok_update [OF Cons.prems(1), of "Some s'" i] s' by simp
  show ?case
  proof (cases "ok st")
    case False
    with Cons.prems(3) op i have "rt' = ?rt" by (simp add: Let_def)
    with same ok show ?thesis by simp
  next
    case True
    with Cons.prems(3) op i have rest: "apply_selected operation indices ?rt = (b, rt')"
      by (simp add: Let_def)
    have "\<forall>j\<in>set indices. j < length (rt_slots ?rt) \<and> sequences ?rt ! j \<noteq> None"
      using Cons.prems(2) i by (auto simp: nth_list_update)
    from Cons.IH [OF ok this rest] same show ?thesis
      by (auto intro: same_but_sequences_trans)
  qed
qed

lemma apply_selected_untouched:
  "apply_selected operation indices rt = (b, rt') \<Longrightarrow> j \<notin> set indices \<Longrightarrow>
     sequences rt' ! j = sequences rt ! j"
  by (induction indices arbitrary: rt) (auto simp: Let_def split: prod.splits if_splits)

lemma apply_selected_all:
  assumes "apply_selected operation indices rt = (True, rt')"
    and "\<forall>i\<in>set indices. i < length (rt_slots rt) \<and> sequences rt ! i \<noteq> None" and "distinct indices"
    and "i \<in> set indices"
  obtains s where "sequences rt ! i = Some s" "ok (fst (operation s))"
    "sequences rt' ! i = Some (snd (operation s))"
proof -
  have "\<exists>s. sequences rt ! i = Some s \<and> ok (fst (operation s)) \<and> sequences rt' ! i = Some (snd (operation s))"
    using assms
  proof (induction indices arbitrary: rt)
    case (Cons k indices)
    from Cons.prems(2) obtain s where k: "k < length (rt_slots rt)" "sl_sequence (rt_slots rt ! k) = Some s"
      by (auto simp: nth_sequences)
    obtain st s' where op: "operation s = (st, s')" by fastforce
    let ?rt = "set_sequence k (Some s') rt"
    have st: "ok st" and rest: "apply_selected operation indices ?rt = (True, rt')"
      using Cons.prems(1) k op by (simp_all add: Let_def split: if_splits)
    have occ: "\<forall>j\<in>set indices. j < length (rt_slots ?rt) \<and> sequences ?rt ! j \<noteq> None"
      using Cons.prems(2) k by (auto simp: nth_list_update)
    show ?case
    proof (cases "i = k")
      case True
      have "sequences rt' ! k = sequences ?rt ! k"
        using apply_selected_untouched [OF rest] Cons.prems(3) by simp
      then show ?thesis using True k op st by (simp add: nth_sequences)
    next
      case False
      with Cons.IH [OF rest occ] Cons.prems(3,4) show ?thesis by simp
    qed
  qed simp
  then show thesis using that by blast
qed

lemma plan_occupied:
  "plan_ledger p selected ss \<Longrightarrow> p \<noteq> 0 \<Longrightarrow> i \<in> set selected \<Longrightarrow> i < length ss \<and> ss ! i \<noteq> None"
  by (auto simp: plan_ledger_def active_plan_def split: option.splits)

lemma prepare_active:
  assumes "prepare p phase n s = (e, s')" and "ok e"
  shows "sq_active_plan_sequence s = 0" and "sq_active_plan_sequence s' = p"
  using assms by (auto simp: prepare_def Let_def split: if_splits sum.splits)

lemma commit_active: "sq_active_plan_sequence (snd (commit p s)) = sq_active_plan_sequence s"
  by (simp add: commit_def)

lemma mark_active: "sq_active_plan_sequence (snd (mark_in_flight p s)) = sq_active_plan_sequence s"
  by (simp add: mark_in_flight_def)

lemma abort_active: "ok (fst (abort_prepared p s)) \<Longrightarrow> sq_active_plan_sequence (snd (abort_prepared p s)) = 0"
  by (auto simp: abort_prepared_def clear_plan_def split: if_splits)

lemma abort_all:
  assumes ok: "sequences_ok (sequences rt)" and led: "plan_ledger p selected (sequences rt)" and "p \<noteq> 0"
    and app: "apply_selected (abort_prepared p) selected rt = (True, rt')"
  shows "same_but_sequences rt rt'" and "sequences_ok (sequences rt')" and "plan_ledger 0 [] (sequences rt')"
proof -
  have occ: "\<forall>i\<in>set selected. i < length (rt_slots rt) \<and> sequences rt ! i \<noteq> None"
    using plan_occupied [OF led assms(3)] by simp
  note frame = apply_selected_frame [OF sequence_ok_abort ok occ app]
  from frame show same: "same_but_sequences rt rt'" and "sequences_ok (sequences rt')" by blast+
  have d: "distinct selected" using led by (simp add: plan_ledger_def)
  have "active_plan (sequences rt' ! i) = 0" if i: "i < length (rt_slots rt)" for i
  proof (cases "i \<in> set selected")
    case True
    then obtain s where "ok (fst (abort_prepared p s))" "sequences rt' ! i = Some (snd (abort_prepared p s))"
      by (rule apply_selected_all [OF app occ d])
    then show ?thesis using abort_active by (simp add: active_plan_def)
  next
    case False
    with frame i have "sequences rt' ! i = sequences rt ! i" by blast
    with led i False show ?thesis by (simp add: plan_ledger_def)
  qed
  then show "plan_ledger 0 [] (sequences rt')"
    using same_but_sequencesD(8) [OF same] by (simp add: plan_ledger_def)
qed

text \<open>A preparation that was taken back: no sequence has a plan and the credit is returned.\<close>

definition plan_undone :: "OutputBurstLease \<Rightarrow> ControllerRuntime \<Rightarrow> ControllerRuntime \<Rightarrow> bool" where
  "plan_undone burst rt rt' \<longleftrightarrow>
     (\<exists>rt1 e credits. same_but_sequences rt rt1 \<and> sequences_ok (sequences rt1) \<and>
        plan_ledger 0 [] (sequences rt1) \<and> burst_abort burst (rt_output_credits rt) = (e, credits) \<and>
        ok e \<and> rt' = rt1\<lparr>rt_output_credits := credits\<rparr>)"

lemma rollback_outcome:
  assumes "p \<noteq> 0" and "sequences_ok (sequences rt)" and "plan_ledger p slots (sequences rt)"
    and rb: "rollback_prepared p burst slots e rt = (f, rt')"
  shows "rt_state rt' \<noteq> kReady \<or> plan_undone burst rt rt'"
proof -
  obtain b rt1 where app: "apply_selected (abort_prepared p) slots rt = (b, rt1)" by fastforce
  obtain g credits where ab: "burst_abort burst (rt_output_credits rt1) = (g, credits)" by fastforce
  show ?thesis
  proof (cases "b \<and> ok g")
    case True
    then have al: "same_but_sequences rt rt1" "sequences_ok (sequences rt1)" "plan_ledger 0 [] (sequences rt1)"
      using abort_all [OF assms(2,3,1)] app by simp_all
    have "rt' = rt1\<lparr>rt_output_credits := credits\<rparr>"
      using rb app ab True by (simp add: rollback_prepared_def Let_def)
    with al ab True same_but_sequencesD(2) [OF al(1)] show ?thesis
      unfolding plan_undone_def by auto
  next
    case False
    with rb app ab show ?thesis by (auto simp: rollback_prepared_def Let_def split: bool.splits)
  qed
qed

lemma prepare_one:
  assumes "p \<noteq> 0" and ok: "sequences_ok (sequences rt)" and led: "plan_ledger p slots (sequences rt)"
    and i: "i < length (rt_slots rt)" "sl_sequence (rt_slots rt ! i) = Some s"
    and pr: "prepare p phase n s = (e, s')"
  shows "same_but_sequences rt (set_sequence i (Some s') rt)"
    and "sequences_ok (sequences (set_sequence i (Some s') rt))"
    and "plan_ledger p (if ok e then slots @ [i] else slots) (sequences (set_sequence i (Some s') rt))"
proof -
  show "same_but_sequences rt (set_sequence i (Some s') rt)" by (rule same_but_sequences_set [OF i])
  have entry: "sequences rt ! i = Some s" using i by (simp add: nth_sequences)
  then have "sequence_ok s" using i(1) by (intro sequences_entry [OF ok]) simp_all
  then have "sequence_ok s'" using sequence_ok_prepare [of s p phase n] pr by simp
  then show "sequences_ok (sequences (set_sequence i (Some s') rt))"
    using sequences_ok_update [OF ok, of "Some s'" i] by simp
  show "plan_ledger p (if ok e then slots @ [i] else slots) (sequences (set_sequence i (Some s') rt))"
  proof (cases "ok e")
    case True
    note a = prepare_active [OF pr True]
    have "i \<notin> set slots" using led i(1) entry a(1) assms(1) by (auto simp: plan_ledger_def active_plan_def)
    with True led i(1) a(2) show ?thesis
      unfolding plan_ledger_def by (auto simp: nth_list_update active_plan_def)
  next
    case False
    then have "s' = s" using sequence_apply_transactional [of s "Prepare p phase n"] pr
      by (simp add: transactional_def)
    then have "sequences (set_sequence i (Some s') rt) = sequences rt"
      using entry by (metis list_update_id sequences_set_sequence)
    with led False show ?thesis by simp
  qed
qed

text \<open>Preparing the candidates: all of them, or none.\<close>

lemma prepare_selected_outcome:
  assumes "p \<noteq> 0" and "sequences_ok (sequences rt)" and "plan_ledger p slots (sequences rt)"
    and "\<forall>c\<in>set cs. pc_slot_index c < length (rt_slots rt) \<and> sequences rt ! pc_slot_index c \<noteq> None"
    and "prepare_selected p phase burst cs slots sampling rt = (res, rt')"
  shows "case res of
      Inl e \<Rightarrow> rt_state rt' \<noteq> kReady \<or> plan_undone burst rt rt'
    | Inr (selected, samplings) \<Rightarrow> same_but_sequences rt rt' \<and> sequences_ok (sequences rt') \<and>
        plan_ledger p selected (sequences rt')"
  using assms(2-5)
proof (induction cs arbitrary: slots sampling rt)
  case Nil
  then show ?case by auto
next
  case (Cons c cs)
  let ?i = "pc_slot_index c" and ?n = "sc_real_token_count (pc_candidate c)"
  from Cons.prems(3) obtain s where i: "?i < length (rt_slots rt)" "sl_sequence (rt_slots rt ! ?i) = Some s"
    by (auto simp: nth_sequences)
  obtain e s' where pr: "prepare p phase ?n s = (e, s')" by fastforce
  let ?rt = "set_sequence ?i (Some s') rt"
  note one = prepare_one [OF assms(1) Cons.prems(1,2) i pr]
  have undone: "plan_undone burst rt rt'" if "plan_undone burst ?rt rt'"
    using that same_but_sequences_trans [OF one(1)] unfolding plan_undone_def by auto
  show ?case
  proof (cases "ok e")
    case True
    obtain sampling' where rest: "prepare_selected p phase burst cs (slots @ [?i]) sampling' ?rt = (res, rt')"
      using Cons.prems(4) i pr True by (auto simp: Let_def)
    have occ: "\<forall>c\<in>set cs. pc_slot_index c < length (rt_slots ?rt) \<and> sequences ?rt ! pc_slot_index c \<noteq> None"
      using Cons.prems(3) i by (auto simp: nth_list_update)
    from Cons.IH [OF one(2) _ occ rest] one(3) True undone same_but_sequences_trans [OF one(1)]
    show ?thesis by (auto split: sum.splits)
  next
    case False
    obtain f where "res = Inl f" and "rollback_prepared p burst slots e ?rt = (f, rt')"
      using Cons.prems(4) i pr False by (auto simp: Let_def split: prod.splits)
    with rollback_outcome [OF assms(1) one(2)] one(3) False undone show ?thesis by auto
  qed
qed

text \<open>Candidates come from occupied slots, and the assembled plan names only candidates.\<close>

lemma collect_results_Inr: "collect_results rs = Inr vs \<Longrightarrow> rs = map Inr vs"
  by (induction rs arbitrary: vs) (auto split: sum.splits)

lemma slot_candidate_slot:
  "slot_candidate rt i = Inr (Some c) \<Longrightarrow> pc_slot_index c = i \<and> sl_sequence (rt_slots rt ! i) \<noteq> None"
  by (auto simp: slot_candidate_def Let_def split: option.splits sum.splits if_splits)

lemma gathered_slot:
  assumes "gather_candidates rt = Inr candidates" and "c \<in> set candidates"
  shows "pc_slot_index c < length (rt_slots rt) \<and> sequences rt ! pc_slot_index c \<noteq> None"
proof -
  obtain found where f: "collect_results (map (slot_candidate rt) [0..<length (rt_slots rt)]) = Inr found"
    and c: "candidates = map the (filter (\<lambda>c. c \<noteq> None) found)"
    using assms(1) by (auto simp: gather_candidates_def split: sum.splits)
  from assms(2) c have "Some c \<in> set found" by auto
  then obtain i where i: "i < length found" "found ! i = Some c" by (auto simp: in_set_conv_nth)
  have m: "map (slot_candidate rt) [0..<length (rt_slots rt)] = map Inr found"
    by (rule collect_results_Inr [OF f])
  then have l: "length found = length (rt_slots rt)" by (metis diff_zero length_map length_upt)
  have "slot_candidate rt i = Inr (Some c)"
    using arg_cong [OF m, of "\<lambda>xs. xs ! i"] i l by simp
  with i l slot_candidate_slot show ?thesis by (auto simp: nth_sequences)
qed

lemma assembled_plan:
  assumes "assemble_current_plan generation identity states s = Inr plan"
  shows "pp_plan_sequence plan = pid_plan_sequence identity" and "pp_plan_sequence plan \<noteq> 0"
    and "\<forall>k\<in>set (ts_included_indices s). k < length states"
proof -
  obtain inputs limits where c: "collect_results (map (assemble_input s states) [0..<length (ts_included_indices s)]) = Inr inputs"
    and p: "plan_Create (pid_epoch identity) (pid_plan_sequence identity) (ts_current_phase s)
      (pid_profile_revision identity) (pid_resource_vector_hash identity) inputs
      (pid_execution_bucket_tokens identity) limits = Inr plan"
    using assms by (auto simp: assemble_current_plan_def Let_def split: if_splits sum.splits)
  then show "pp_plan_sequence plan = pid_plan_sequence identity" and "pp_plan_sequence plan \<noteq> 0"
    by (auto simp: plan_Create_Inr_iff plan_identity_invalid_def built_plan_def)
  have m: "map (assemble_input s states) [0..<length (ts_included_indices s)] = map Inr inputs"
    by (rule collect_results_Inr [OF c])
  show "\<forall>k\<in>set (ts_included_indices s). k < length states"
  proof
    fix k assume "k \<in> set (ts_included_indices s)"
    then obtain j where j: "j < length (ts_included_indices s)" "ts_included_indices s ! j = k"
      by (auto simp: in_set_conv_nth)
    have "length inputs = length (ts_included_indices s)" using m by (metis diff_zero length_map length_upt)
    then have "assemble_input s states j = Inr (inputs ! j)"
      using arg_cong [OF m, of "\<lambda>xs. xs ! j"] j by simp
    with j show "k < length states" by (auto simp: assemble_input_def Let_def split: if_splits)
  qed
qed

lemma select_included:
  "select snapshot s = (Inr v, t) \<Longrightarrow> ts_included_indices t = dv_included_candidate_indices v"
  by (auto simp: select_def Let_def split: if_splits prod.splits)

lemma books_undone:
  assumes books: "books_ok rt" and none: "rt_current_plan rt = None"
    and acq: "burst_acquire plan kind records slots bytes (rt_output_credits rt) = (Inr burst, credits)"
    and und: "plan_undone burst (rt\<lparr>rt_output_credits := credits\<rparr>) rt'"
  shows "books_ok rt'"
proof -
  obtain rt1 e credits' where same: "same_but_sequences (rt\<lparr>rt_output_credits := credits\<rparr>) rt1"
    and ok: "sequences_ok (sequences rt1)" and led: "plan_ledger 0 [] (sequences rt1)"
    and ab: "burst_abort burst credits = (e, credits')" "ok e"
    and rt': "rt' = rt1\<lparr>rt_output_credits := credits'\<rparr>"
    using und unfolding plan_undone_def by auto
  have cur: "rt_current_output_burst rt = None" using books none by (simp add: books_ok_def plan_books_def)
  have "credit_ledger (rt_output_credits rt) None (rt_pending_output_bursts rt)"
    using books cur by (simp add: books_ok_def)
  then have "credit_ledger credits (Some burst) (rt_pending_output_bursts rt)" by (rule ledger_acquire(1) [OF _ acq])
  then have "credit_ledger credits' None (rt_pending_output_bursts rt)" by (rule ledger_abort [OF _ ab])
  then show ?thesis
    using books cur none ok led same_but_sequencesD [OF same]
    by (simp add: books_ok_def plan_books_def rt' sequences_def)
qed

lemma install_plan_cases:
  assumes "install_plan candidates decision plan digest view rt = (r, rt')"
  defines "included \<equiv> map ((!) candidates) (dv_included_candidate_indices decision)"
  obtains (refused) kind records slots bytes e credits where
      "burst_acquire (rt_next_plan_sequence rt) kind records slots bytes (rt_output_credits rt) = (Inl e, credits)"
      "rt' = rt\<lparr>rt_output_credits := credits\<rparr>"
  | (unprepared) kind records slots bytes burst credits e where
      "burst_acquire (rt_next_plan_sequence rt) kind records slots bytes (rt_output_credits rt) = (Inr burst, credits)"
      "prepare_selected (rt_next_plan_sequence rt) (pp_phase plan) burst included [] []
         (rt\<lparr>rt_output_credits := credits\<rparr>) = (Inl e, rt')"
  | (installed) kind records slots bytes burst credits selected sampling rt1 where
      "burst_acquire (rt_next_plan_sequence rt) kind records slots bytes (rt_output_credits rt) = (Inr burst, credits)"
      "prepare_selected (rt_next_plan_sequence rt) (pp_phase plan) burst included [] []
         (rt\<lparr>rt_output_credits := credits\<rparr>) = (Inr (selected, sampling), rt1)"
      "rt' = rt1\<lparr>rt_selected_slot_indices := selected, rt_selected_sampling := sampling,
         rt_current_output_burst := Some burst, rt_current_plan := Some plan,
         rt_current_plan_digest := digest, rt_current_tier := dv_tier decision,
         rt_next_plan_sequence := rt_next_plan_sequence rt1 + 1\<rparr>"
proof -
  let ?kind = "cf_output_plan_kind (rt_config rt)"
  let ?records = "if \<exists>c\<in>set included. sq_produces_logits (pc_tokens c) then 1 else 0 :: u32"
  let ?slots = "cf_output_maximum_slots_per_credit (rt_config rt)"
  let ?bytes = "cf_output_maximum_bytes_per_credit (rt_config rt)"
  obtain a credits where acq: "burst_acquire (rt_next_plan_sequence rt) ?kind ?records ?slots ?bytes
      (rt_output_credits rt) = (a, credits)" by fastforce
  note inst = assms(1) [unfolded install_plan_def Let_def, folded included_def]
  show thesis
  proof (cases a)
    case (Inl e)
    with acq inst show ?thesis by (intro refused [of ?kind ?records ?slots ?bytes e credits]) auto
  next
    case (Inr burst)
    obtain res rt1 where pr: "prepare_selected (rt_next_plan_sequence rt) (pp_phase plan) burst included [] []
        (rt\<lparr>rt_output_credits := credits\<rparr>) = (res, rt1)" by fastforce
    show ?thesis
    proof (cases res)
      case (Inl e)
      with acq inst Inr pr show ?thesis
        by (intro unprepared [of ?kind ?records ?slots ?bytes burst credits e]) auto
    next
      case Inr': (Inr y)
      obtain selected sampling where "y = (selected, sampling)" by fastforce
      with acq inst Inr pr Inr' show ?thesis
        by (intro installed [of ?kind ?records ?slots ?bytes burst credits selected sampling rt1]) auto
    qed
  qed
qed

lemma ok_install_plan:
  assumes books: "books_ok rt" and none: "rt_current_plan rt = None"
    and plan: "pp_plan_sequence plan = rt_next_plan_sequence rt" "pp_plan_sequence plan \<noteq> 0"
    and included: "\<forall>k\<in>set (dv_included_candidate_indices decision). k < length candidates"
    and slots: "\<forall>c\<in>set candidates. pc_slot_index c < length (rt_slots rt) \<and> sequences rt ! pc_slot_index c \<noteq> None"
    and inst: "install_plan candidates decision plan digest view rt = (r, rt')"
  shows "runtime_ok rt'"
proof -
  have cur: "rt_current_output_burst rt = None" and led0: "plan_ledger p [] (sequences rt)" for p
    using books none by (simp_all add: books_ok_def plan_books_def plan_ledger_def)
  have occ: "\<forall>c\<in>set (map ((!) candidates) (dv_included_candidate_indices decision)).
      pc_slot_index c < length (rt_slots (rt\<lparr>rt_output_credits := credits\<rparr>)) \<and>
      sequences (rt\<lparr>rt_output_credits := credits\<rparr>) ! pc_slot_index c \<noteq> None" for credits
    using included slots nth_mem by (fastforce simp: sequences_def)
  have start: "rt_next_plan_sequence rt \<noteq> 0" "sequences_ok (sequences (rt\<lparr>rt_output_credits := credits\<rparr>))"
    "plan_ledger (rt_next_plan_sequence rt) [] (sequences (rt\<lparr>rt_output_credits := credits\<rparr>))" for credits
    using plan books led0 by (simp_all add: books_ok_def sequences_def)
  note out = prepare_selected_outcome [OF start occ]
  from inst show ?thesis
  proof (cases rule: install_plan_cases)
    case refused
    with acquire_refused [OF refused(1)] books show ?thesis by (simp add: runtime_ok_def)
  next
    case unprepared
    with out [OF unprepared(2)] books_undone [OF books none unprepared(1)] show ?thesis
      by (auto simp: runtime_ok_def)
  next
    case (installed kind records slots bytes burst credits selected sampling rt1)
    have o: "same_but_sequences (rt\<lparr>rt_output_credits := credits\<rparr>) rt1" "sequences_ok (sequences rt1)"
      "plan_ledger (rt_next_plan_sequence rt) selected (sequences rt1)"
      using out [OF installed(2)] by simp_all
    have "credit_ledger (rt_output_credits rt) None (rt_pending_output_bursts rt)"
      using books cur by (simp add: books_ok_def)
    note ledger_acquire(1,3) [OF this installed(1)]
    with o books plan same_but_sequencesD [OF o(1)] show ?thesis
      by (simp add: runtime_ok_def books_ok_def plan_books_def sequences_def installed(3))
  qed
qed

lemma ok_prepare_next_plan:
  assumes ok: "runtime_ok rt" and pr: "prepare_next_plan now rt = (r, rt')"
  shows "runtime_ok rt'"
proof (cases "rt_state rt \<noteq> kReady \<or> rt_current_plan rt \<noteq> None")
  case True
  with ok pr show ?thesis by (auto simp: prepare_next_plan_def)
next
  case False
  then have ready: "rt_state rt = kReady" and none: "rt_current_plan rt = None" by simp_all
  let ?rt = "rt\<lparr>rt_last_controller_now_ns := now\<rparr>"
  have books: "books_ok ?rt" using ok ready by (simp add: runtime_ok_def)
  show ?thesis
  proof (cases "\<exists>candidates. gather_candidates ?rt = Inr candidates \<and>
      plan_candidates now candidates ?rt = (r, rt')")
    case True
    then obtain candidates where g: "gather_candidates ?rt = Inr candidates"
      and pc: "plan_candidates now candidates ?rt = (r, rt')" by blast
    have install: "runtime_ok rt'"
      if sel: "select snapshot (rt_scheduler rt) = (Inr decision, scheduler)"
        and as: "assemble_current_plan generation (plan_identity decision (?rt\<lparr>rt_scheduler := scheduler\<rparr>))
          (map pc_state candidates) scheduler = Inr plan"
        and ins: "install_plan candidates decision plan digest view
          (?rt\<lparr>rt_scheduler := scheduler, rt_metadata := metadata\<rparr>) = (r, rt')"
      for snapshot decision scheduler generation plan digest view metadata
      using books none assembled_plan [OF as] select_included [OF sel] gathered_slot [OF g]
      by (intro ok_install_plan [OF _ _ _ _ _ _ ins])
        (auto simp: plan_identity_def)
    from pc ok show ?thesis
      by (auto simp: plan_candidates_def Let_def intro: install split: prod.splits sum.splits if_splits)
  next
    case False
    with pr ok books none ready show ?thesis
      by (auto simp: prepare_next_plan_def Let_def runtime_ok_def split: sum.splits if_splits)
  qed
qed

lemma books_apply_selected:
  assumes books: "books_ok rt" and plan: "rt_current_plan rt = Some plan"
    and kept: "\<And>s. sequence_ok s \<Longrightarrow> sequence_ok (snd (operation s))"
      "\<And>s. sq_active_plan_sequence (snd (operation s)) = sq_active_plan_sequence s"
    and app: "apply_selected operation (rt_selected_slot_indices rt) rt = (True, rt')"
  shows "books_ok rt'"
proof -
  have ok: "sequences_ok (sequences rt)" and p: "pp_plan_sequence plan \<noteq> 0"
    and led: "plan_ledger (pp_plan_sequence plan) (rt_selected_slot_indices rt) (sequences rt)"
    using books plan by (simp_all add: books_ok_def plan_books_def)
  have occ: "\<forall>i\<in>set (rt_selected_slot_indices rt). i < length (rt_slots rt) \<and> sequences rt ! i \<noteq> None"
    using plan_occupied [OF led p] by simp
  have d: "distinct (rt_selected_slot_indices rt)" using led by (simp add: plan_ledger_def)
  note frame = apply_selected_frame [OF kept(1) ok occ app]
  have same: "same_but_sequences rt rt'" using frame by blast
  have "active_plan (sequences rt' ! i) = active_plan (sequences rt ! i)" if i: "i < length (rt_slots rt)" for i
  proof (cases "i \<in> set (rt_selected_slot_indices rt)")
    case True
    then obtain s where "sequences rt ! i = Some s" "sequences rt' ! i = Some (snd (operation s))"
      by (rule apply_selected_all [OF app occ d])
    then show ?thesis using kept(2) by (simp add: active_plan_def)
  next
    case False
    with frame i show ?thesis by simp
  qed
  then have "plan_books current burst sel (sequences rt') = plan_books current burst sel (sequences rt)"
    for current burst sel
    using same_but_sequencesD(8) [OF same] by (intro plan_ledger_same) simp_all
  then show ?thesis using books frame same_but_sequencesD [OF same] by (simp add: books_ok_def)
qed

lemma commit_refused: "burst_commit l pool = (e, q) \<Longrightarrow> \<not> ok e \<Longrightarrow> q = pool"
  by (simp add: burst_commit_def Let_def split: if_splits)

lemma apply_selected_state: "apply_selected operation indices rt = (b, rt') \<Longrightarrow> rt_state rt' = rt_state rt"
  by (induction indices arbitrary: rt) (auto simp: Let_def split: prod.splits if_splits)

lemma ok_commit_current_plan:
  assumes ok: "runtime_ok rt" and c: "commit_current_plan p d rt = (e, rt')"
  shows "runtime_ok rt'"
proof (cases "rt_state rt = kReady")
  case False
  with c show ?thesis
    by (intro runtime_ok_not_ready) (auto simp: commit_current_plan_def Let_def
        dest!: apply_selected_state split: option.splits if_splits prod.splits bool.splits)
next
  case True
  then have books: "books_ok rt" using ok by (simp add: runtime_ok_def)
  show ?thesis
  proof (cases "\<exists>burst plan. rt_current_output_burst rt = Some burst \<and> rt_current_plan rt = Some plan \<and>
      \<not> plan_identity_drifted p d rt")
    case False
    with c ok show ?thesis
      by (auto simp: commit_current_plan_def plan_identity_drifted_def split: option.splits if_splits)
  next
    case True
    then obtain burst plan where b: "rt_current_output_burst rt = Some burst" "rt_current_plan rt = Some plan"
      "\<not> plan_identity_drifted p d rt" by blast
    obtain f credits where bc: "burst_commit burst (rt_output_credits rt) = (f, credits)" by fastforce
    let ?rt = "rt\<lparr>rt_output_credits := credits\<rparr>"
    obtain g rt1 where app: "apply_selected (commit p) (rt_selected_slot_indices ?rt) ?rt = (g, rt1)" by fastforce
    have "books_ok ?rt" if "ok f"
      using ledger_commit [OF _ bc that] books b by (simp add: books_ok_def sequences_def)
    then have "books_ok rt1" if "ok f" g
      using books_apply_selected [of ?rt plan "commit p" rt1] that b app sequence_ok_commit commit_active by simp
    with c b bc app commit_refused [OF bc] ok show ?thesis
      by (cases "ok f"; cases g) (auto simp: commit_current_plan_def Let_def runtime_ok_def)
  qed
qed

lemma ok_mark_current_plan:
  assumes ok: "runtime_ok rt" and m: "mark_current_plan_in_flight p d rt = (e, rt')"
  shows "runtime_ok rt'"
proof (cases "rt_state rt = kReady")
  case False
  with m show ?thesis
    by (intro runtime_ok_not_ready) (auto simp: mark_current_plan_in_flight_def
        dest!: apply_selected_state split: if_splits prod.splits bool.splits)
next
  case True
  then have books: "books_ok rt" using ok by (simp add: runtime_ok_def)
  have "books_ok rt1"
    if "apply_selected (mark_in_flight p) (rt_selected_slot_indices rt) rt = (True, rt1)"
      "\<not> plan_identity_drifted p d rt" for rt1
    using that books_apply_selected [OF books _ sequence_ok_mark mark_active that(1)]
    by (auto simp: plan_identity_drifted_def split: option.splits)
  with m ok show ?thesis
    by (auto simp: mark_current_plan_in_flight_def runtime_ok_def split: if_splits prod.splits bool.splits)
qed

lemma ok_abort_current_plan:
  assumes ok: "runtime_ok rt" and m: "abort_current_plan p d rt = (e, rt')"
  shows "runtime_ok rt'"
proof (cases "rt_state rt = kReady")
  case False
  with m show ?thesis
    by (intro runtime_ok_not_ready) (auto simp: abort_current_plan_def Let_def clear_current_plan_def
        dest!: apply_selected_state split: option.splits if_splits prod.splits bool.splits)
next
  case True
  then have books: "books_ok rt" using ok by (simp add: runtime_ok_def)
  have "books_ok (clear_current_plan (rt1\<lparr>rt_output_credits := credits\<rparr>))"
    if app: "apply_selected (abort_prepared p) (rt_selected_slot_indices rt) rt = (True, rt1)"
      and nd: "\<not> plan_identity_drifted p d rt" and b: "rt_current_output_burst rt = Some burst"
      and ab: "burst_abort burst (rt_output_credits rt1) = (f, credits)" "ok f" for rt1 burst f credits
  proof -
    obtain plan where plan: "rt_current_plan rt = Some plan" "pp_plan_sequence plan = p"
      using nd by (auto simp: plan_identity_drifted_def split: option.splits)
    have "sequences_ok (sequences rt)" "plan_ledger p (rt_selected_slot_indices rt) (sequences rt)" "p \<noteq> 0"
      using books plan by (auto simp: books_ok_def plan_books_def)
    note al = abort_all [OF this app]
    have "credit_ledger (rt_output_credits rt1) (Some burst) (rt_pending_output_bursts rt)"
      using books b same_but_sequencesD(2) [OF al(1)] by (simp add: books_ok_def)
    from ledger_abort [OF this ab] al books same_but_sequencesD [OF al(1)] show ?thesis
      by (simp add: books_ok_def clear_current_plan_def plan_books_def sequences_def)
  qed
  with m ok show ?thesis
    by (auto simp: abort_current_plan_def Let_def runtime_ok_def
        split: option.splits if_splits prod.splits bool.splits)
qed

lemma acknowledge_cases:
  assumes "acknowledge_output_plan p rt = (e, rt')"
  obtains (refused) "\<not> ok e" "rt' = rt"
      "p = 0 \<or> (\<forall>l. Some l \<in> set (rt_pending_output_bursts rt) \<longrightarrow> bl_plan_sequence l \<noteq> p)"
  | (released) k l f credits where "p \<noteq> 0" "k < length (rt_pending_output_bursts rt)"
      "rt_pending_output_bursts rt ! k = Some l" "bl_plan_sequence l = p"
      "burst_release l (rt_output_credits rt) = (f, credits)"
      "(e, rt') = (if ok f then (Ok, rt\<lparr>rt_output_credits := credits,
           rt_pending_output_bursts := (rt_pending_output_bursts rt)[k := None]\<rparr>)
         else (Internal msg_controller_output_ACK_release_failed, fail_runtime (rt\<lparr>rt_output_credits := credits\<rparr>)))"
proof (cases "p = 0")
  case True
  with assms show ?thesis by (intro refused) (auto simp: acknowledge_output_plan_def)
next
  case False
  let ?P = "\<lambda>lease. case lease of None \<Rightarrow> False | Some l \<Rightarrow> bl_plan_sequence l = p"
  show ?thesis
  proof (cases "find_index ?P (rt_pending_output_bursts rt)")
    case None
    then have "\<forall>l. Some l \<in> set (rt_pending_output_bursts rt) \<longrightarrow> bl_plan_sequence l \<noteq> p" by auto
    with None False assms show ?thesis
      by (intro refused) (auto simp: acknowledge_output_plan_def simp del: find_index_None_iff)
  next
    case (Some k)
    then obtain l where k: "k < length (rt_pending_output_bursts rt)"
      "rt_pending_output_bursts rt ! k = Some l" "bl_plan_sequence l = p"
      using find_index_SomeD [OF Some] by (auto split: option.splits)
    obtain f credits where "burst_release l (rt_output_credits rt) = (f, credits)" by fastforce
    with Some k False assms show ?thesis
      by (intro released [of k l f credits]) (auto simp: acknowledge_output_plan_def Let_def)
  qed
qed

lemma ok_acknowledge:
  assumes ok: "runtime_ok rt" and a: "acknowledge_output_plan p rt = (e, rt')"
  shows "runtime_ok rt'"
  using a
proof (cases rule: acknowledge_cases)
  case refused
  with ok show ?thesis by simp
next
  case (released k l f credits)
  show ?thesis
  proof (cases "rt_state rt = kReady")
    case True
    then have books: "books_ok rt" using ok by (simp add: runtime_ok_def)
    then have "credit_ledger (rt_output_credits rt) (rt_current_output_burst rt) (rt_pending_output_bursts rt)"
      by (simp add: books_ok_def)
    note ack = ledger_acknowledge [OF this released(2,3,5)]
    with books released(6) show ?thesis by (simp add: runtime_ok_def books_ok_def sequences_def)
  next
    case False
    with released(6) show ?thesis by (intro runtime_ok_not_ready) (auto split: if_splits)
  qed
qed

lemma finish_sequence_frame:
  assumes "finish_sequence s = (e, kind, s')" and "sequence_ok s"
  shows "sequence_ok s'" and "sq_active_plan_sequence s' = sq_active_plan_sequence s"
proof -
  note t = sequence_apply_transactional [of s FinishCancel]
  show "sequence_ok s'"
    using assms t sequence_ok_finish [OF assms(2)]
    by (auto simp: finish_sequence_def transactional_def split: prod.splits if_splits)
  show "sq_active_plan_sequence s' = sq_active_plan_sequence s"
    using assms(1) by (auto simp: finish_sequence_def finish_cancel_def finish_drain_def split: if_splits)
qed

lemma finished_has_no_plan:
  assumes "finish_sequence s = (e, kind, s')" and "ok e" and "sequence_ok s"
  shows "sq_active_plan_sequence s = 0"
  using assms by (auto simp: finish_sequence_def finish_cancel_def finish_drain_def sequence_ok_def
      plan_shape_def split: if_splits)

lemma books_retire:
  assumes books: "books_ok rt" and i: "i < length (rt_slots rt)" "sl_sequence (rt_slots rt ! i) = Some s"
    and s: "sq_active_plan_sequence s = 0" and slot: "sl_sequence slot = None"
  shows "books_ok ((set_slot i slot rt)\<lparr>rt_active_sequence_count := rt_active_sequence_count rt - 1\<rparr>)"
    (is "books_ok ?rt")
proof -
  have old: "sequences rt ! i = Some s" using i by (simp add: nth_sequences)
  have ss: "sequences ?rt = (sequences rt)[i := None]" using slot by (simp add: sequences_def set_slot_def map_update)
  have "plan_books current burst sel (sequences ?rt) = plan_books current burst sel (sequences rt)"
    for current burst sel
    using s old i(1) unfolding ss by (intro plan_ledger_same) (auto simp: nth_list_update active_plan_def)
  moreover have c: "count_if (\<lambda>s. s \<noteq> None) (sequences ?rt) + 1 = count_if (\<lambda>s. s \<noteq> None) (sequences rt)"
    using count_if_update [of i "sequences rt" "\<lambda>s. s \<noteq> None" None] i(1) old unfolding ss by simp
  moreover have "unat (rt_active_sequence_count rt - 1) + 1 = unat (rt_active_sequence_count rt)"
  proof -
    have "unat (rt_active_sequence_count rt) \<noteq> 0" using c books by (simp add: books_ok_def)
    then have "1 \<le> rt_active_sequence_count rt" by (simp add: word_le_nat_alt)
    then show ?thesis by (simp add: unat_sub word_le_nat_alt)
  qed
  moreover have "sequences_ok (sequences ?rt)"
    using books unfolding ss by (intro sequences_ok_update) (simp_all add: books_ok_def)
  ultimately show ?thesis using books by (simp add: books_ok_def set_slot_def)
qed

lemma ok_finalize_draining:
  assumes ok: "runtime_ok rt" and f: "finalize_draining current g rt = (e, rt')"
  shows "runtime_ok rt'"
proof (cases "rt_state rt \<noteq> kReady \<or> available_event_credit (rt_ingress rt) = 0 \<or>
    find_index (holds_generation g) (rt_slots rt) = None")
  case True
  with ok f show ?thesis
    by (auto simp: finalize_draining_def simp del: find_index_None_iff split: if_splits)
next
  case False
  then obtain i where fi: "find_index (holds_generation g) (rt_slots rt) = Some i" by blast
  then obtain s where i: "i < length (rt_slots rt)" "sl_sequence (rt_slots rt ! i) = Some s"
    by (rule found_generation)
  have books: "books_ok rt" using ok False by (simp add: runtime_ok_def)
  have s: "sequence_ok s" by (rule books_sequence_ok [OF books i])
  obtain d kind s' where fs: "finish_sequence s = (d, kind, s')" by (metis prod_cases3)
  note s' = finish_sequence_frame [OF fs s]
  let ?rt = "set_sequence i (Some s') rt"
  have b: "books_ok ?rt" by (rule books_set_sequence [OF books i s'])
  have entry: "i < length (rt_slots ?rt)" "sl_sequence (rt_slots ?rt ! i) = Some s'" using i(1) by simp_all
  have retired: "books_ok ((set_slot i slot (?rt\<lparr>rt_ingress := ig\<rparr>))
      \<lparr>rt_active_sequence_count := rt_active_sequence_count rt - 1\<rparr>)"
    if "ok d" "sl_sequence slot = None" for slot ig
    using books_retire [of "?rt\<lparr>rt_ingress := ig\<rparr>" i s' slot] b entry that
      finished_has_no_plan [OF fs that(1) s] s'(2) by simp
  from f False fi fs i b retired show ?thesis
    by (auto simp: finalize_draining_def Let_def runtime_ok_def
        elim!: runtime_release_frame runtime_publish_frame split: prod.splits if_splits)
qed

section \<open>Output events\<close>

abbreviation rt_mailbox :: "ControllerRuntime \<Rightarrow> ControllerMailbox" where
  "rt_mailbox rt \<equiv> ig_mailbox (rt_ingress rt)"

definition queued_events :: "ControllerRuntime \<Rightarrow> ControllerOutputEvent list" where
  "queued_events rt = ring_contents (mb_events (rt_mailbox rt))"

text \<open>The drafts published one after the other, with consecutive event numbers.\<close>

primrec numbered_drafts :: "u64 \<Rightarrow> ControllerOutputEventDraft list \<Rightarrow> ControllerOutputEvent list" where
  "numbered_drafts n [] = []"
| "numbered_drafts n (d # ds) = event_of_draft d n # numbered_drafts (n + 1) ds"

lemma numbered_drafts_append: "numbered_drafts n (xs @ ys) = numbered_drafts n xs @ numbered_drafts (n + of_nat (length xs)) ys"
  by (induction xs arbitrary: n) (simp_all add: algebra_simps)

definition posts :: "ControllerRuntime \<Rightarrow> ControllerRuntime \<Rightarrow> ControllerOutputEventDraft list \<Rightarrow> bool" where
  "posts rt rt' drafts \<longleftrightarrow>
     queued_events rt' =
       queued_events rt @ numbered_drafts (mb_next_event_sequence (rt_mailbox rt)) drafts \<and>
     mb_next_event_sequence (rt_mailbox rt') =
       mb_next_event_sequence (rt_mailbox rt) + of_nat (length drafts) \<and>
     mailbox_ok (rt_mailbox rt')"

lemma posts_nothing:
  "rt_ingress rt' = rt_ingress rt \<Longrightarrow> mailbox_ok (rt_mailbox rt) \<Longrightarrow> posts rt rt' []"
  by (simp add: posts_def queued_events_def)

lemma posts_append: "posts rt rt1 xs \<Longrightarrow> posts rt1 rt2 ys \<Longrightarrow> posts rt rt2 (xs @ ys)"
  by (simp add: posts_def numbered_drafts_append add.assoc)

lemma posts_same_ingress:
  "rt_ingress rt1 = rt_ingress rt \<Longrightarrow> posts rt rt' ds = posts rt1 rt' ds"
  "rt_ingress rt1 = rt_ingress rt \<Longrightarrow> posts rt' rt ds = posts rt' rt1 ds"
  by (simp_all add: posts_def queued_events_def)

lemma publish_event_failure: "publish_event current draft mb = (Inl e, mb') \<Longrightarrow> \<not> ok e"
  by (auto simp: publish_event_def Let_def require_controller_thread_locked_def split: if_splits option.splits)

lemma runtime_publish_posts:
  assumes ok: "mailbox_ok (rt_mailbox rt)" and p: "runtime_publish current draft rt = (e, rt')" and "ok e"
  obtains ig where "rt' = rt\<lparr>rt_ingress := ig\<rparr>" "posts rt rt' [draft]"
proof -
  obtain r mb where pe: "publish_event current draft (rt_mailbox rt) = (r, mb)" by fastforce
  obtain ev where r: "r = Inr ev" and rt': "rt' = rt\<lparr>rt_ingress := (rt_ingress rt)\<lparr>ig_mailbox := mb\<rparr>\<rparr>"
    using p pe \<open>ok e\<close>
    by (cases r) (auto simp: runtime_publish_def ingress_publish_event_def dest: publish_event_failure)
  have "mailbox_step (PublishEvent current draft) (rt_mailbox rt) = (PublishReply (Inr ev), mb)"
    using pe r by simp
  note fifo = mailbox_step_fifo [OF ok this]
  have "ev = event_of_draft draft (mb_next_event_sequence (rt_mailbox rt))"
    "mb_next_event_sequence mb = mb_next_event_sequence (rt_mailbox rt) + 1"
    using pe [unfolded r] by (rule publish_event_cases; simp)+
  with fifo rt' have "posts rt rt' [draft]" by (simp add: posts_def queued_events_def)
  with rt' show thesis by (rule that)
qed

primrec token_drafts ::
  "ControllerRuntime \<Rightarrow> u64 \<Rightarrow> u64 \<Rightarrow> Sha256Digest \<Rightarrow> u64 \<Rightarrow> u64 \<Rightarrow> u32 list \<Rightarrow> u32 \<Rightarrow>
   ControllerOutputEventDraft list" where
  "token_drafts rt g ordinal digest p required [] index = []"
| "token_drafts rt g ordinal digest p required (token # tokens) index =
     plan_draft kTokenCommitted g ordinal token digest p index required ControllerFinishReason.kNone rt #
     token_drafts rt g (ordinal + 1) digest p required tokens (index + 1)"

lemma length_token_drafts [simp]: "length (token_drafts rt g ordinal digest p required tokens index) = length tokens"
  by (induction tokens arbitrary: ordinal index) simp_all

lemma plan_draft_config: "rt_config rt' = rt_config rt \<Longrightarrow> plan_draft k g o' t d p i r f rt' = plan_draft k g o' t d p i r f rt"
  by (simp add: plan_draft_def)

lemma token_drafts_config:
  assumes "rt_config rt' = rt_config rt"
  shows "token_drafts rt' g ordinal digest p required tokens index = token_drafts rt g ordinal digest p required tokens index"
  by (induction tokens arbitrary: ordinal index) (simp_all add: plan_draft_config [OF assms])

lemma publish_tokens_posts:
  assumes "mailbox_ok (rt_mailbox rt)"
    and "publish_tokens current g ordinal digest p required tokens index rt = (True, index', rt')"
  shows "(\<exists>ig. rt' = rt\<lparr>rt_ingress := ig\<rparr>) \<and> index' = index + of_nat (length tokens) \<and>
    posts rt rt' (token_drafts rt g ordinal digest p required tokens index)"
  using assms
proof (induction tokens arbitrary: ordinal index rt)
  case Nil
  then have "rt' = rt" "index' = index" "posts rt rt []" by (simp_all add: posts_nothing)
  then show ?case by (intro conjI exI [of _ "rt_ingress rt"]) simp_all
next
  case (Cons token tokens)
  let ?d = "plan_draft kTokenCommitted g ordinal token digest p index required ControllerFinishReason.kNone rt"
  obtain e rt1 where pub: "runtime_publish current ?d rt = (e, rt1)" by fastforce
  with Cons.prems(2) have e: "ok e"
    and rest: "publish_tokens current g (ordinal + 1) digest p required tokens (index + 1) rt1 = (True, index', rt')"
    by (simp_all split: if_splits)
  obtain ig where rt1: "rt1 = rt\<lparr>rt_ingress := ig\<rparr>" and post: "posts rt rt1 [?d]"
    by (rule runtime_publish_posts [OF Cons.prems(1) pub e])
  have "mailbox_ok (rt_mailbox rt1)" using post by (simp add: posts_def)
  note IH = Cons.IH [OF this rest]
  have "posts rt rt' ([?d] @ token_drafts rt1 g (ordinal + 1) digest p required tokens (index + 1))"
    using post IH by (blast intro: posts_append)
  then show ?case
    using IH rt1 token_drafts_config [of rt1 rt] by (auto simp: algebra_simps)
qed

end
