(* ===== verification/SlotArena.thy ===== *)
theory SlotArena
  imports Core
begin

text \<open>
  \<open>output_slot_arena.h\<close> and \<open>output_slot_arena.cpp\<close>: the byte slots in which output frames wait
  for the writer. The first \<open>shared_delta_slots\<close> slots are shared by all sequences, the others are
  \<open>terminal_slots_per_sequence\<close> slots reserved for each sequence. A frame occupies a chain of slots;
  its lease names the chain. A chain is built, published to the writer, written (or orphaned and
  drained), and scrubbed; an unpublished chain can be aborted.

  The vector \<open>bytes_\<close> is one list, slot \<open>k\<close> owning the bytes from \<open>k * slot_bytes\<close> on. The array of
  a lease has 64 entries, of which the first \<open>slot_count\<close> are used.
\<close>

section \<open>Messages\<close>

definition msg_output_slot_arena_limits_are_invalid :: string where
  "msg_output_slot_arena_limits_are_invalid = ''output slot arena limits are invalid''"

definition msg_output_slot_count_overflows :: string where
  "msg_output_slot_count_overflows = ''output slot count overflows''"

definition msg_output_slot_backing_is_too_large :: string where
  "msg_output_slot_backing_is_too_large = ''output slot backing is too large''"

definition msg_output_slot_backing_allocation_failed :: string where
  "msg_output_slot_backing_allocation_failed = ''output slot backing allocation failed''"

definition msg_sequence_generation_is_zero :: string where
  "msg_sequence_generation_is_zero = ''sequence generation is zero''"

definition msg_sequence_generation_is_already_admitted :: string where
  "msg_sequence_generation_is_already_admitted = ''sequence generation is already admitted''"

definition msg_output_sequence_arena_is_full :: string where
  "msg_output_sequence_arena_is_full = ''output sequence arena is full''"

definition msg_output_sequence_lease_is_stale :: string where
  "msg_output_sequence_lease_is_stale = ''output sequence lease is stale''"

definition msg_output_sequence_still_owns_slots :: string where
  "msg_output_sequence_still_owns_slots = ''output sequence still owns slots''"

definition msg_output_frame_sequence_is_stale_or_empty :: string where
  "msg_output_frame_sequence_is_stale_or_empty = ''output frame sequence is stale or empty''"

definition msg_output_frame_exceeds_its_slot_envelope :: string where
  "msg_output_frame_exceeds_its_slot_envelope = ''output frame exceeds its slot envelope''"

definition msg_output_lease_generation_wrapped :: string where
  "msg_output_lease_generation_wrapped = ''output lease generation wrapped''"

definition msg_output_slot_credits_are_exhausted :: string where
  "msg_output_slot_credits_are_exhausted = ''output slot credits are exhausted''"

definition msg_output_frame_lease_is_stale :: string where
  "msg_output_frame_lease_is_stale = ''output frame lease is stale''"

definition msg_output_frame_slot_ownership_drifted :: string where
  "msg_output_frame_slot_ownership_drifted = ''output frame slot ownership drifted''"

definition msg_partial_write_progress_is_invalid :: string where
  "msg_partial_write_progress_is_invalid = ''partial write progress is invalid''"

section \<open>Data\<close>

datatype OutputSlotState = kFree | kBuildOwned | kWriterOwned | kOrphanDrain | kScrubPending

record OutputSlotArenaLimits =
  al_maximum_sequences :: u32
  al_shared_delta_slots :: u32
  al_terminal_slots_per_sequence :: u32
  al_slot_bytes :: u32
  al_maximum_chain_slots :: u32
  al_per_sequence_dynamic_slots :: u32

record OutputFrameLease =
  fl_sequence_slot :: u32
  fl_sequence_generation :: u64
  fl_lease_generation :: u64
  fl_slot_count :: u32
  fl_frame_bytes :: u64
  fl_terminal :: bool
  fl_slot_indices :: "u32 list"

record ArenaSequence =
  as_admitted :: bool
  as_generation :: u64
  as_dynamic_slots :: u32

record ArenaSlot =
  at_state :: OutputSlotState
  at_lease_generation :: u64
  at_sequence_slot :: u32
  at_frame_bytes :: u64
  at_accepted_bytes :: u64
  at_chain_count :: u32
  at_chain_ordinal :: u32
  at_terminal :: bool

record OutputSlotArena =
  oa_limits :: OutputSlotArenaLimits
  oa_bytes :: "u8 list"
  oa_sequences :: "ArenaSequence list"
  oa_slots :: "ArenaSlot list"
  oa_next_lease_generation :: u64

definition default_arena_sequence :: ArenaSequence where
  "default_arena_sequence = \<lparr>as_admitted = False, as_generation = 0, as_dynamic_slots = 0\<rparr>"

definition default_arena_slot :: ArenaSlot where
  "default_arena_slot =
     \<lparr>at_state = kFree, at_lease_generation = 0, at_sequence_slot = 0, at_frame_bytes = 0,
      at_accepted_bytes = 0, at_chain_count = 0, at_chain_ordinal = 0, at_terminal = False\<rparr>"

definition kLeaseSlotIndices :: nat where
  "kLeaseSlotIndices = 64"

definition kByteVectorMaxSize :: u64 where
  "kByteVectorMaxSize = 0x7FFFFFFFFFFFFFFF"

section \<open>Operations\<close>

definition slot_arena_new :: "OutputSlotArenaLimits \<Rightarrow> u8 list \<Rightarrow> OutputSlotArena" where
  "slot_arena_new limits bytes =
     \<lparr>oa_limits = limits, oa_bytes = bytes,
      oa_sequences = replicate (unat (al_maximum_sequences limits)) default_arena_sequence,
      oa_slots = replicate (unat (al_shared_delta_slots limits +
          al_maximum_sequences limits * al_terminal_slots_per_sequence limits)) default_arena_slot,
      oa_next_lease_generation = 1\<rparr>"

definition slot_arena_Create :: "bool \<Rightarrow> OutputSlotArenaLimits \<Rightarrow> OutputSlotArena result" where
  "slot_arena_Create allocates limits =
     (if al_maximum_sequences limits = 0 \<or> al_shared_delta_slots limits = 0 \<or>
         al_terminal_slots_per_sequence limits = 0 \<or> al_slot_bytes limits = 0 \<or>
         al_maximum_chain_slots limits = 0 \<or> al_maximum_chain_slots limits > 64 \<or>
         al_per_sequence_dynamic_slots limits = 0 \<or>
         al_per_sequence_dynamic_slots limits > al_shared_delta_slots limits
      then Inl (InvalidArgument msg_output_slot_arena_limits_are_invalid)
      else (case checked_mul_u64 (ucast (al_maximum_sequences limits))
                   (ucast (al_terminal_slots_per_sequence limits)) of
          Inl e \<Rightarrow> Inl e
        | Inr terminal_slots \<Rightarrow>
            (case checked_add_u64 (ucast (al_shared_delta_slots limits)) terminal_slots of
               Inl _ \<Rightarrow> Inl (ResourceExhausted msg_output_slot_count_overflows)
             | Inr total_slots \<Rightarrow>
                 if total_slots > ucast UINT32_MAX
                 then Inl (ResourceExhausted msg_output_slot_count_overflows)
                 else (case checked_mul_u64 total_slots (ucast (al_slot_bytes limits)) of
                     Inl _ \<Rightarrow> Inl (ResourceExhausted msg_output_slot_backing_is_too_large)
                   | Inr bytes \<Rightarrow>
                       if bytes > kByteVectorMaxSize
                       then Inl (ResourceExhausted msg_output_slot_backing_is_too_large)
                       else if \<not> allocates
                       then Inl (ResourceExhausted msg_output_slot_backing_allocation_failed)
                       else Inr (slot_arena_new limits (replicate (unat bytes) 0))))))"

definition admit :: "u64 \<Rightarrow> OutputSlotArena \<Rightarrow> u32 result \<times> OutputSlotArena" where
  "admit generation a =
     (if generation = 0 then (Inl (InvalidArgument msg_sequence_generation_is_zero), a)
      else if \<exists>s\<in>set (oa_sequences a). as_admitted s \<and> as_generation s = generation
      then (Inl (FailedPrecondition msg_sequence_generation_is_already_admitted), a)
      else (case find_index (\<lambda>s. \<not> as_admitted s) (oa_sequences a) of
          None \<Rightarrow> (Inl (ResourceExhausted msg_output_sequence_arena_is_full), a)
        | Some i \<Rightarrow>
            (Inr (of_nat i),
             a\<lparr>oa_sequences := (oa_sequences a)
                 [i := \<lparr>as_admitted = True, as_generation = generation, as_dynamic_slots = 0\<rparr>]\<rparr>)))"

definition sequence_stale :: "u32 \<Rightarrow> u64 \<Rightarrow> OutputSlotArena \<Rightarrow> bool" where
  "sequence_stale index generation a \<longleftrightarrow>
     \<not> unat index < length (oa_sequences a) \<or>
     \<not> as_admitted (oa_sequences a ! unat index) \<or>
     as_generation (oa_sequences a ! unat index) \<noteq> generation"

definition release_sequence :: "u32 \<Rightarrow> u64 \<Rightarrow> OutputSlotArena \<Rightarrow> status \<times> OutputSlotArena" where
  "release_sequence index generation a =
     (if sequence_stale index generation a
      then (FailedPrecondition msg_output_sequence_lease_is_stale, a)
      else if \<exists>slot\<in>set (oa_slots a). at_state slot \<noteq> kFree \<and> at_sequence_slot slot = index
      then (FailedPrecondition msg_output_sequence_still_owns_slots, a)
      else (Ok, a\<lparr>oa_sequences := (oa_sequences a)[unat index := default_arena_sequence]\<rparr>))"

definition frame_slot_count :: "u8 list \<Rightarrow> OutputSlotArena \<Rightarrow> u64" where
  "frame_slot_count frame a =
     1 + (of_nat (length frame) - 1) div ucast (al_slot_bytes (oa_limits a))"

definition exceeds_envelope :: "u32 \<Rightarrow> u64 \<Rightarrow> bool \<Rightarrow> OutputSlotArena \<Rightarrow> bool" where
  "exceeds_envelope index count64 terminal a \<longleftrightarrow>
     count64 = 0 \<or> count64 > ucast (al_maximum_chain_slots (oa_limits a)) \<or>
     terminal \<and> count64 > ucast (al_terminal_slots_per_sequence (oa_limits a)) \<or>
     \<not> terminal \<and> ucast (as_dynamic_slots (oa_sequences a ! unat index)) + count64 >
       ucast (al_per_sequence_dynamic_slots (oa_limits a))"

definition range_begin :: "u32 \<Rightarrow> bool \<Rightarrow> OutputSlotArenaLimits \<Rightarrow> u32" where
  "range_begin index terminal limits =
     (if terminal
      then al_shared_delta_slots limits + index * al_terminal_slots_per_sequence limits else 0)"

definition range_end :: "u32 \<Rightarrow> bool \<Rightarrow> OutputSlotArenaLimits \<Rightarrow> u32" where
  "range_end index terminal limits =
     (if terminal
      then range_begin index terminal limits + al_terminal_slots_per_sequence limits
      else al_shared_delta_slots limits)"

text \<open>The scan for free slots in the range, stopped once the frame fits.\<close>

definition found_slots :: "u32 \<Rightarrow> u64 \<Rightarrow> bool \<Rightarrow> OutputSlotArena \<Rightarrow> nat list" where
  "found_slots index count64 terminal a =
     take (unat count64)
       (filter (\<lambda>k. at_state (oa_slots a ! k) = kFree)
          [unat (range_begin index terminal (oa_limits a))..<
           unat (range_end index terminal (oa_limits a))])"

definition build_slot :: "OutputFrameLease \<Rightarrow> u32 \<Rightarrow> ArenaSlot" where
  "build_slot lease i =
     \<lparr>at_state = kBuildOwned, at_lease_generation = fl_lease_generation lease,
      at_sequence_slot = fl_sequence_slot lease, at_frame_bytes = fl_frame_bytes lease,
      at_accepted_bytes = 0, at_chain_count = fl_slot_count lease, at_chain_ordinal = i,
      at_terminal = fl_terminal lease\<rparr>"

fun build_chain ::
  "OutputFrameLease \<Rightarrow> u8 list \<Rightarrow> nat list \<Rightarrow> u32 \<Rightarrow> nat \<Rightarrow> OutputSlotArena \<Rightarrow> OutputSlotArena" where
  "build_chain lease frame [] i copied a = a"
| "build_chain lease frame (k # ks) i copied a =
     (let width = unat (al_slot_bytes (oa_limits a));
          amount = min width (length frame - copied)
      in build_chain lease frame ks (i + 1) (copied + amount)
           (a\<lparr>oa_slots := (oa_slots a)[k := build_slot lease i],
              oa_bytes := overwrite (oa_bytes a) (k * width) (take amount (drop copied frame))\<rparr>))"

definition reserve_frame ::
  "u32 \<Rightarrow> u64 \<Rightarrow> u8 list \<Rightarrow> bool \<Rightarrow> OutputSlotArena \<Rightarrow> OutputFrameLease result \<times> OutputSlotArena" where
  "reserve_frame index generation frame terminal a =
     (if sequence_stale index generation a \<or> frame = []
      then (Inl (FailedPrecondition msg_output_frame_sequence_is_stale_or_empty), a)
      else
        let count64 = frame_slot_count frame a
        in if exceeds_envelope index count64 terminal a
           then (Inl (ResourceExhausted msg_output_frame_exceeds_its_slot_envelope), a)
           else if oa_next_lease_generation a = UINT64_MAX
           then (Inl (FailedPrecondition msg_output_lease_generation_wrapped), a)
           else
             let lease_generation = oa_next_lease_generation a;
                 a = a\<lparr>oa_next_lease_generation := lease_generation + 1\<rparr>;
                 found = found_slots index count64 terminal a;
                 indices = map of_nat found;
                 lease = \<lparr>fl_sequence_slot = index, fl_sequence_generation = generation,
                   fl_lease_generation = lease_generation, fl_slot_count = ucast count64,
                   fl_frame_bytes = of_nat (length frame), fl_terminal = terminal,
                   fl_slot_indices = indices @ replicate (kLeaseSlotIndices - length indices) 0\<rparr>
             in if length found \<noteq> unat count64
                then (Inl (ResourceExhausted msg_output_slot_credits_are_exhausted), a)
                else
                  let a = build_chain lease frame found 0 0 a;
                      s = oa_sequences a ! unat index
                  in (Inr lease,
                      if terminal then a
                      else a\<lparr>oa_sequences := (oa_sequences a)
                        [unat index := s\<lparr>as_dynamic_slots := as_dynamic_slots s + fl_slot_count lease\<rparr>]\<rparr>))"

definition lease_slots :: "OutputFrameLease \<Rightarrow> nat list" where
  "lease_slots lease = map unat (take (unat (fl_slot_count lease)) (fl_slot_indices lease))"

definition slot_matches ::
  "OutputFrameLease \<Rightarrow> OutputSlotState \<Rightarrow> OutputSlotArena \<Rightarrow> nat \<times> nat \<Rightarrow> bool" where
  "slot_matches lease expected a = (\<lambda>(i, k).
     k < length (oa_slots a) \<and> at_state (oa_slots a ! k) = expected \<and>
     at_lease_generation (oa_slots a ! k) = fl_lease_generation lease \<and>
     at_sequence_slot (oa_slots a ! k) = fl_sequence_slot lease \<and>
     at_frame_bytes (oa_slots a ! k) = fl_frame_bytes lease \<and>
     at_chain_count (oa_slots a ! k) = fl_slot_count lease \<and>
     at_chain_ordinal (oa_slots a ! k) = of_nat i \<and>
     at_terminal (oa_slots a ! k) = fl_terminal lease)"

definition lease_validate ::
  "OutputFrameLease \<Rightarrow> OutputSlotState \<Rightarrow> OutputSlotArena \<Rightarrow> status" where
  "lease_validate lease expected a =
     (if \<not> unat (fl_sequence_slot lease) < length (oa_sequences a) \<or> fl_slot_count lease = 0 \<or>
         fl_slot_count lease > 64 \<or>
         sequence_stale (fl_sequence_slot lease) (fl_sequence_generation lease) a
      then FailedPrecondition msg_output_frame_lease_is_stale
      else if \<not> list_all (slot_matches lease expected a) (enumerate 0 (lease_slots lease))
      then FailedPrecondition msg_output_frame_slot_ownership_drifted
      else Ok)"

definition transition :: "OutputFrameLease \<Rightarrow> OutputSlotState \<Rightarrow> OutputSlotArena \<Rightarrow> OutputSlotArena" where
  "transition lease st a =
     a\<lparr>oa_slots := fold (\<lambda>k slots. slots[k := (slots ! k)\<lparr>at_state := st\<rparr>]) (lease_slots lease)
         (oa_slots a)\<rparr>"

definition zero_slot :: "nat \<Rightarrow> OutputSlotArena \<Rightarrow> OutputSlotArena" where
  "zero_slot k a =
     (let width = unat (al_slot_bytes (oa_limits a))
      in a\<lparr>oa_slots := (oa_slots a)[k := default_arena_slot],
           oa_bytes := overwrite (oa_bytes a) (k * width) (replicate width 0)\<rparr>)"

definition give_back :: "OutputFrameLease \<Rightarrow> OutputSlotArena \<Rightarrow> OutputSlotArena" where
  "give_back lease a =
     (let a = fold zero_slot (lease_slots lease) a;
          i = unat (fl_sequence_slot lease);
          s = oa_sequences a ! i
      in if fl_terminal lease then a
         else a\<lparr>oa_sequences := (oa_sequences a)
                  [i := s\<lparr>as_dynamic_slots := as_dynamic_slots s - fl_slot_count lease\<rparr>]\<rparr>)"

definition abort_build :: "OutputFrameLease \<Rightarrow> OutputSlotArena \<Rightarrow> status \<times> OutputSlotArena" where
  "abort_build lease a =
     (let status = lease_validate lease kBuildOwned a
      in if \<not> ok status then (status, a) else (Ok, give_back lease a))"

definition publish_frame :: "OutputFrameLease \<Rightarrow> OutputSlotArena \<Rightarrow> status \<times> OutputSlotArena" where
  "publish_frame lease a =
     (let status = lease_validate lease kBuildOwned a
      in if ok status then (status, transition lease kWriterOwned a) else (status, a))"

definition advance_writer ::
  "OutputFrameLease \<Rightarrow> u64 \<Rightarrow> OutputSlotArena \<Rightarrow> status \<times> OutputSlotArena" where
  "advance_writer lease accepted a =
     (let status = lease_validate lease kWriterOwned a;
          k = unat (fl_slot_indices lease ! 0);
          head = oa_slots a ! k
      in if \<not> ok status then (status, a)
         else if accepted = 0 \<or> accepted > fl_frame_bytes lease - at_accepted_bytes head
         then (InvalidArgument msg_partial_write_progress_is_invalid, a)
         else
           let head = head\<lparr>at_accepted_bytes := at_accepted_bytes head + accepted\<rparr>;
               a = a\<lparr>oa_slots := (oa_slots a)[k := head]\<rparr>
           in (Ok, if at_accepted_bytes head = fl_frame_bytes lease
                   then transition lease kScrubPending a else a))"

definition orphan :: "OutputFrameLease \<Rightarrow> OutputSlotArena \<Rightarrow> status \<times> OutputSlotArena" where
  "orphan lease a =
     (let status = lease_validate lease kWriterOwned a
      in if ok status then (status, transition lease kOrphanDrain a) else (status, a))"

definition finish_orphan :: "OutputFrameLease \<Rightarrow> OutputSlotArena \<Rightarrow> status \<times> OutputSlotArena" where
  "finish_orphan lease a =
     (let status = lease_validate lease kOrphanDrain a
      in if ok status then (status, transition lease kScrubPending a) else (status, a))"

definition scrub :: "OutputFrameLease \<Rightarrow> OutputSlotArena \<Rightarrow> status \<times> OutputSlotArena" where
  "scrub lease a =
     (let status = lease_validate lease kScrubPending a
      in if \<not> ok status then (status, a) else (Ok, give_back lease a))"

definition free_shared_slots :: "OutputSlotArena \<Rightarrow> u32" where
  "free_shared_slots a =
     of_nat (count_if (\<lambda>slot. at_state slot = kFree)
       (take (unat (al_shared_delta_slots (oa_limits a))) (oa_slots a)))"

definition state_count :: "OutputSlotState \<Rightarrow> OutputSlotArena \<Rightarrow> u32" where
  "state_count st a = of_nat (count_if (\<lambda>slot. at_state slot = st) (oa_slots a))"


section \<open>Folds over a chain\<close>

lemma fold_update_length [simp]: "length (fold (\<lambda>k xs. xs[k := f k xs]) ks xs) = length xs"
  by (induction ks arbitrary: xs) simp_all

lemma fold_update_nth:
  assumes "distinct ks" and "set ks \<subseteq> {..<length xs}"
  shows "fold (\<lambda>k xs. xs[k := f (xs ! k)]) ks xs ! j = (if j \<in> set ks then f (xs ! j) else xs ! j)"
  using assms
proof (induction ks arbitrary: xs)
  case Nil
  then show ?case by simp
next
  case (Cons k ks)
  then have "fold (\<lambda>k xs. xs[k := f (xs ! k)]) ks (xs[k := f (xs ! k)]) ! j =
      (if j \<in> set ks then f (xs[k := f (xs ! k)] ! j) else xs[k := f (xs ! k)] ! j)"
    by (intro Cons.IH) auto
  then show ?case using Cons.prems by (auto simp: nth_list_update)
qed

definition region :: "OutputSlotArena \<Rightarrow> nat \<Rightarrow> u8 list" where
  "region a k =
     take (unat (al_slot_bytes (oa_limits a))) (drop (k * unat (al_slot_bytes (oa_limits a))) (oa_bytes a))"

lemma region_cong:
  "oa_limits a' = oa_limits a \<Longrightarrow> oa_bytes a' = oa_bytes a \<Longrightarrow> region a' k = region a k"
  by (simp add: region_def)

lemma blocks_apart: "(j :: nat) \<noteq> k \<Longrightarrow> j * w + w \<le> k * w \<or> k * w + w \<le> j * w"
proof -
  assume "j \<noteq> k"
  then consider "Suc j \<le> k" | "Suc k \<le> j" by linarith
  then show ?thesis
    by cases (metis add.commute mult_Suc mult_le_mono1)+
qed

text \<open>Writing at most one slot's worth of bytes into slot \<open>k\<close> touches no other region.\<close>

definition backed :: "OutputSlotArena \<Rightarrow> bool" where
  "backed a \<longleftrightarrow> length (oa_bytes a) = length (oa_slots a) * unat (al_slot_bytes (oa_limits a))"

lemma slot_fits:
  assumes "backed a" and "k < length (oa_slots a)"
  shows "k * unat (al_slot_bytes (oa_limits a)) + unat (al_slot_bytes (oa_limits a)) \<le> length (oa_bytes a)"
proof -
  have "Suc k * unat (al_slot_bytes (oa_limits a)) \<le> length (oa_slots a) * unat (al_slot_bytes (oa_limits a))"
    using assms(2) by (intro mult_le_mono1) simp
  then show ?thesis using assms(1) by (simp add: backed_def)
qed

definition write_slot :: "nat \<Rightarrow> u8 list \<Rightarrow> ArenaSlot \<Rightarrow> OutputSlotArena \<Rightarrow> OutputSlotArena" where
  "write_slot k data slot a =
     a\<lparr>oa_slots := (oa_slots a)[k := slot],
       oa_bytes := overwrite (oa_bytes a) (k * unat (al_slot_bytes (oa_limits a))) data\<rparr>"

lemma write_slot_simps [simp]:
  "oa_limits (write_slot k data slot a) = oa_limits a"
  "oa_sequences (write_slot k data slot a) = oa_sequences a"
  "oa_slots (write_slot k data slot a) = (oa_slots a)[k := slot]"
  "oa_next_lease_generation (write_slot k data slot a) = oa_next_lease_generation a"
  by (simp_all add: write_slot_def)

lemma backed_write_slot:
  assumes "backed a" and "k < length (oa_slots a)"
    and "length data \<le> unat (al_slot_bytes (oa_limits a))"
  shows "backed (write_slot k data slot a)"
  using assms slot_fits [OF assms(1,2)] by (simp add: backed_def write_slot_def)

lemma region_write_slot:
  assumes "backed a" and "k < length (oa_slots a)" and "j < length (oa_slots a)"
    and "length data \<le> unat (al_slot_bytes (oa_limits a))"
  shows "region (write_slot k data slot a) j =
    (if j = k then data @ drop (length data) (region a k) else region a j)"
proof (cases "j = k")
  case True
  with slot_fits [OF assms(1,2)] assms(4) show ?thesis
    by (simp add: region_def write_slot_def overwrite_def drop_take ac_simps)
next
  case False
  with blocks_apart [OF this, of "unat (al_slot_bytes (oa_limits a))"] slot_fits [OF assms(1,2)]
    slot_fits [OF assms(1,3)] assms(4)
  show ?thesis
    by (auto simp: region_def write_slot_def intro!: take_drop_overwrite_other)
qed

lemma zero_slot_write:
  "zero_slot k a = write_slot k (replicate (unat (al_slot_bytes (oa_limits a))) 0) default_arena_slot a"
  by (simp add: zero_slot_def write_slot_def Let_def)

lemma zero_slots:
  assumes "backed a" and "set ks \<subseteq> {..<length (oa_slots a)}"
  defines "b \<equiv> fold zero_slot ks a"
  shows "oa_limits b = oa_limits a \<and> oa_sequences b = oa_sequences a \<and>
    oa_next_lease_generation b = oa_next_lease_generation a \<and> backed b \<and>
    length (oa_slots b) = length (oa_slots a) \<and>
    (\<forall>j<length (oa_slots a). oa_slots b ! j = (if j \<in> set ks then default_arena_slot else oa_slots a ! j) \<and>
       region b j = (if j \<in> set ks then replicate (unat (al_slot_bytes (oa_limits a))) 0 else region a j))"
  using assms(1,2) unfolding b_def
proof (induction ks arbitrary: a)
  case Nil
  then show ?case by simp
next
  case (Cons k ks)
  let ?a = "zero_slot k a"
  have k: "k < length (oa_slots a)" using Cons.prems(2) by simp
  have b: "backed ?a" using Cons.prems(1) k by (simp add: zero_slot_write backed_write_slot)
  have l: "length (region a k) = unat (al_slot_bytes (oa_limits a))"
    using slot_fits [OF Cons.prems(1) k] by (simp add: region_def)
  have r: "j < length (oa_slots a) \<Longrightarrow> region ?a j =
      (if j = k then replicate (unat (al_slot_bytes (oa_limits a))) 0 else region a j)" for j
    using region_write_slot [OF Cons.prems(1) k] l by (simp add: zero_slot_write)
  show ?case
    using Cons.IH [OF b] Cons.prems(2) r k by (auto simp: zero_slot_write nth_list_update)
qed


text \<open>The pieces of a frame, one per slot.\<close>

definition piece :: "OutputSlotArena \<Rightarrow> u8 list \<Rightarrow> nat \<Rightarrow> u8 list" where
  "piece a frame i =
     take (unat (al_slot_bytes (oa_limits a))) (drop (i * unat (al_slot_bytes (oa_limits a))) frame)"

lemma concat_pieces:
  "concat (map (piece a frame) [0..<n]) = take (n * unat (al_slot_bytes (oa_limits a))) frame"
proof (induction n)
  case 0
  then show ?case by simp
next
  case (Suc n)
  have "Suc n * unat (al_slot_bytes (oa_limits a)) =
      n * unat (al_slot_bytes (oa_limits a)) + unat (al_slot_bytes (oa_limits a))" by simp
  with Suc show ?case by (simp only: take_add) (simp add: piece_def)
qed

lemma build_chain_step:
  assumes "copied = min (i * unat (al_slot_bytes (oa_limits a))) (length frame)"
  shows "build_chain lease frame (k # ks) o' copied a =
    build_chain lease frame ks (o' + 1)
      (min (Suc i * unat (al_slot_bytes (oa_limits a))) (length frame))
      (write_slot k (piece a frame i) (build_slot lease o') a)"
proof -
  let ?w = "unat (al_slot_bytes (oa_limits a))"
  have "copied + min ?w (length frame - copied) = min (Suc i * ?w) (length frame)"
    using assms by auto
  moreover have "take (min ?w (length frame - copied)) (drop copied frame) = piece a frame i"
    using assms by (cases "i * ?w \<le> length frame") (simp_all add: piece_def min_def)
  ultimately show ?thesis by (simp add: write_slot_def Let_def)
qed

lemma build_chain_result:
  fixes lease :: OutputFrameLease
  assumes "backed a" and "set ks \<subseteq> {..<length (oa_slots a)}" and "distinct ks"
    and "copied = min (i * unat (al_slot_bytes (oa_limits a))) (length frame)"
  defines "b \<equiv> build_chain lease frame ks (of_nat i) copied a"
  shows "oa_limits b = oa_limits a \<and> oa_sequences b = oa_sequences a \<and>
    oa_next_lease_generation b = oa_next_lease_generation a \<and> backed b \<and>
    length (oa_slots b) = length (oa_slots a) \<and>
    (\<forall>j<length (oa_slots a). j \<notin> set ks \<longrightarrow> oa_slots b ! j = oa_slots a ! j \<and> region b j = region a j) \<and>
    (\<forall>m<length ks. oa_slots b ! (ks ! m) = build_slot lease (of_nat (i + m)) \<and>
       region b (ks ! m) = piece a frame (i + m) @
         drop (length (piece a frame (i + m))) (region a (ks ! m)))"
  using assms(1-4) unfolding b_def
proof (induction ks arbitrary: a i copied)
  case Nil
  then show ?case by simp
next
  case (Cons k ks)
  let ?a = "write_slot k (piece a frame i) (build_slot lease (of_nat i)) a"
  have k: "k < length (oa_slots a)" and nk: "k \<notin> set ks" using Cons.prems(2,3) by simp_all
  have short: "length (piece a frame i) \<le> unat (al_slot_bytes (oa_limits a))"
    by (simp add: piece_def)
  have "set ks \<subseteq> {..<length (oa_slots ?a)}" and "distinct ks" using Cons.prems(2,3) by simp_all
  note IH = Cons.IH [where a = ?a and i = "Suc i",
      OF backed_write_slot [OF Cons.prems(1) k short] this refl]
  have r: "j < length (oa_slots a) \<Longrightarrow> region ?a j =
      (if j = k then piece a frame i @ drop (length (piece a frame i)) (region a k) else region a j)" for j
    by (rule region_write_slot [OF Cons.prems(1) k _ short])
  have e: "build_chain lease frame (k # ks) (of_nat i) copied a =
      build_chain lease frame ks (of_nat (Suc i)) (min (Suc i * unat (al_slot_bytes (oa_limits a))) (length frame)) ?a"
    using build_chain_step [OF Cons.prems(4), of lease k ks "of_nat i"]
    by (simp only: of_nat_Suc add.commute [of 1])
  have p: "piece ?a frame = piece a frame" by (simp add: piece_def fun_eq_iff)
  have mem: "m < length ks \<Longrightarrow> ks ! m < length (oa_slots a) \<and> ks ! m \<noteq> k" for m
    using Cons.prems(2) nk by (metis insert_subset lessThan_iff list.simps(15) nth_mem subsetD)
  let ?b = "build_chain lease frame ks (of_nat (Suc i))
    (min (Suc i * unat (al_slot_bytes (oa_limits a))) (length frame)) ?a"
  have others: "j < length (oa_slots a) \<Longrightarrow> j \<notin> set ks \<Longrightarrow>
      oa_slots ?b ! j = oa_slots ?a ! j \<and> region ?b j = region ?a j" for j
    using IH by simp
  have chain: "m < length ks \<Longrightarrow> oa_slots ?b ! (ks ! m) = build_slot lease (of_nat (Suc i + m)) \<and>
      region ?b (ks ! m) = piece a frame (Suc i + m) @
        drop (length (piece a frame (Suc i + m))) (region a (ks ! m))" for m
    using IH r mem by (simp add: p)
  have "m < length (k # ks) \<Longrightarrow>
      oa_slots ?b ! ((k # ks) ! m) = build_slot lease (of_nat (i + m)) \<and>
      region ?b ((k # ks) ! m) = piece a frame (i + m) @
        drop (length (piece a frame (i + m))) (region a ((k # ks) ! m))" for m
    using chain [of "m - 1"] others [OF k nk] r [OF k] k by (cases m) simp_all
  moreover have "j < length (oa_slots a) \<Longrightarrow> j \<notin> set (k # ks) \<Longrightarrow>
      oa_slots ?b ! j = oa_slots a ! j \<and> region ?b j = region a j" for j
    using others r by simp
  ultimately show ?case unfolding e using IH by simp
qed


section \<open>Valid leases\<close>

text \<open>A C++ lease always carries an array of 64 indices.\<close>

definition lease_typed :: "OutputFrameLease \<Rightarrow> bool" where
  "lease_typed lease \<longleftrightarrow> length (fl_slot_indices lease) = kLeaseSlotIndices"

definition holds_lease :: "OutputFrameLease \<Rightarrow> OutputSlotState \<Rightarrow> OutputSlotArena \<Rightarrow> bool" where
  "holds_lease lease st a \<longleftrightarrow>
     \<not> sequence_stale (fl_sequence_slot lease) (fl_sequence_generation lease) a \<and>
     lease_slots lease \<noteq> [] \<and> length (lease_slots lease) \<le> 64 \<and>
     length (lease_slots lease) = unat (fl_slot_count lease) \<and>
     (\<forall>i<length (lease_slots lease). slot_matches lease st a (i, lease_slots lease ! i))"

lemma length_lease_slots:
  assumes "lease_typed lease" and "fl_slot_count lease \<le> 64"
  shows "length (lease_slots lease) = unat (fl_slot_count lease)"
proof -
  have "unat (fl_slot_count lease) \<le> 64" using assms(2) by (simp add: word_le_nat_alt)
  with assms(1) show ?thesis by (simp add: lease_slots_def lease_typed_def kLeaseSlotIndices_def)
qed

lemma validate_iff:
  assumes "lease_typed lease"
  shows "ok (lease_validate lease st a) \<longleftrightarrow> holds_lease lease st a"
proof (cases "fl_slot_count lease \<le> 64")
  case True
  have len: "length (lease_slots lease) = unat (fl_slot_count lease)"
    by (rule length_lease_slots [OF assms True])
  moreover have "lease_slots lease = [] \<longleftrightarrow> fl_slot_count lease = 0"
    unfolding length_0_conv [symmetric] len by (simp add: unat_eq_0)
  moreover have "unat (fl_slot_count lease) \<le> 64" using True by (simp add: word_le_nat_alt)
  moreover have "list_all (slot_matches lease st a) (enumerate 0 (lease_slots lease)) \<longleftrightarrow>
      (\<forall>i<length (lease_slots lease). slot_matches lease st a (i, lease_slots lease ! i))"
    by (simp add: list_all_length nth_enumerate_eq)
  moreover have "\<not> fl_slot_count lease > 64" using True by simp
  ultimately show ?thesis
    by (auto simp: lease_validate_def holds_lease_def sequence_stale_def)
next
  case False
  then have "64 < unat (fl_slot_count lease)" by (simp add: word_le_nat_alt)
  with False show ?thesis by (auto simp: lease_validate_def holds_lease_def)
qed

lemma holds_lease_slot:
  assumes "holds_lease lease st a" and "i < length (lease_slots lease)"
  shows "lease_slots lease ! i < length (oa_slots a)"
    and "oa_slots a ! (lease_slots lease ! i) =
      (build_slot lease (of_nat i))\<lparr>at_state := st,
         at_accepted_bytes := at_accepted_bytes (oa_slots a ! (lease_slots lease ! i))\<rparr>"
  using assms by (simp_all add: holds_lease_def slot_matches_def build_slot_def)

lemma small_of_nat_u32: "i < 64 \<Longrightarrow> j < 64 \<Longrightarrow> (of_nat i :: u32) = of_nat j \<longleftrightarrow> i = j"
  by (simp add: word_unat_eq_iff unsigned_of_nat take_bit_nat_eq_self)

lemma holds_lease_distinct: "holds_lease lease st a \<Longrightarrow> distinct (lease_slots lease)"
  unfolding distinct_conv_nth
proof (intro allI impI)
  fix i j
  assume h: "holds_lease lease st a" and i: "i < length (lease_slots lease)"
    and j: "j < length (lease_slots lease)" and n: "i \<noteq> j"
  have "at_chain_ordinal (oa_slots a ! (lease_slots lease ! i)) = of_nat i"
    "at_chain_ordinal (oa_slots a ! (lease_slots lease ! j)) = of_nat j"
    using h i j by (simp_all add: holds_lease_def slot_matches_def)
  moreover have "(of_nat i :: u32) \<noteq> of_nat j"
    using h i j n by (simp add: holds_lease_def small_of_nat_u32)
  ultimately show "lease_slots lease ! i \<noteq> lease_slots lease ! j" by auto
qed

lemma holds_lease_subset: "holds_lease lease st a \<Longrightarrow> set (lease_slots lease) \<subseteq> {..<length (oa_slots a)}"
  using holds_lease_slot(1) by (auto simp: in_set_conv_nth)

lemma transition_slots:
  assumes "holds_lease lease st a"
  shows "length (oa_slots (transition lease st' a)) = length (oa_slots a)"
    and "oa_slots (transition lease st' a) ! k =
      (if k \<in> set (lease_slots lease) then (oa_slots a ! k)\<lparr>at_state := st'\<rparr> else oa_slots a ! k)"
  using fold_update_nth [OF holds_lease_distinct [OF assms] holds_lease_subset [OF assms]]
  by (simp_all add: transition_def)

lemma transition_simps [simp]:
  "oa_limits (transition lease st a) = oa_limits a"
  "oa_bytes (transition lease st a) = oa_bytes a"
  "oa_sequences (transition lease st a) = oa_sequences a"
  "oa_next_lease_generation (transition lease st a) = oa_next_lease_generation a"
  by (simp_all add: transition_def)

section \<open>The invariant\<close>

abbreviation live_slot :: "OutputSlotArena \<Rightarrow> nat \<Rightarrow> bool" where
  "live_slot a k \<equiv> at_state (oa_slots a ! k) \<noteq> kFree"

text \<open>The slots a frame of sequence \<open>i\<close> may use.\<close>

definition in_range :: "OutputSlotArenaLimits \<Rightarrow> nat \<Rightarrow> bool \<Rightarrow> nat \<Rightarrow> bool" where
  "in_range limits i terminal k \<longleftrightarrow>
     (if terminal
      then unat (al_shared_delta_slots limits) + i * unat (al_terminal_slots_per_sequence limits) \<le> k \<and>
           k < unat (al_shared_delta_slots limits) + Suc i * unat (al_terminal_slots_per_sequence limits)
      else k < unat (al_shared_delta_slots limits))"

definition sizes_ok :: "OutputSlotArena \<Rightarrow> bool" where
  "sizes_ok a \<longleftrightarrow>
     length (oa_sequences a) = unat (al_maximum_sequences (oa_limits a)) \<and>
     length (oa_slots a) = unat (al_shared_delta_slots (oa_limits a)) +
       unat (al_maximum_sequences (oa_limits a)) * unat (al_terminal_slots_per_sequence (oa_limits a)) \<and>
     length (oa_slots a) < 2 ^ 32 \<and> backed a \<and> al_slot_bytes (oa_limits a) \<noteq> 0 \<and>
     al_maximum_chain_slots (oa_limits a) \<le> 64"

definition slot_ok :: "OutputSlotArena \<Rightarrow> nat \<Rightarrow> bool" where
  "slot_ok a k \<longleftrightarrow>
     (if live_slot a k
      then let slot = oa_slots a ! k; i = unat (at_sequence_slot slot)
        in i < length (oa_sequences a) \<and> as_admitted (oa_sequences a ! i) \<and>
           at_lease_generation slot < oa_next_lease_generation a \<and>
           in_range (oa_limits a) i (at_terminal slot) k
      else oa_slots a ! k = default_arena_slot \<and>
           region a k = replicate (unat (al_slot_bytes (oa_limits a))) 0)"

definition owned_shared :: "OutputSlotArena \<Rightarrow> nat \<Rightarrow> nat set" where
  "owned_shared a i =
     {k. k < unat (al_shared_delta_slots (oa_limits a)) \<and> live_slot a k \<and>
         unat (at_sequence_slot (oa_slots a ! k)) = i}"

definition accounts_ok :: "OutputSlotArena \<Rightarrow> bool" where
  "accounts_ok a \<longleftrightarrow>
     (\<forall>i<length (oa_sequences a).
        unat (as_dynamic_slots (oa_sequences a ! i)) = card (owned_shared a i) \<and>
        as_dynamic_slots (oa_sequences a ! i) \<le> al_per_sequence_dynamic_slots (oa_limits a))"

text \<open>No two live slots are the same link of the same chain.\<close>

definition links_ok :: "OutputSlotArena \<Rightarrow> bool" where
  "links_ok a \<longleftrightarrow>
     (\<forall>j<length (oa_slots a). \<forall>k<length (oa_slots a). live_slot a j \<longrightarrow> live_slot a k \<longrightarrow>
        at_lease_generation (oa_slots a ! j) = at_lease_generation (oa_slots a ! k) \<longrightarrow>
        at_chain_ordinal (oa_slots a ! j) = at_chain_ordinal (oa_slots a ! k) \<longrightarrow> j = k)"

text \<open>Every live slot lies on the chain of a lease that can still be used.\<close>

definition covered :: "OutputSlotArena \<Rightarrow> bool" where
  "covered a \<longleftrightarrow>
     (\<forall>k<length (oa_slots a). live_slot a k \<longrightarrow>
        (\<exists>lease. lease_typed lease \<and> holds_lease lease (at_state (oa_slots a ! k)) a \<and>
           k \<in> set (lease_slots lease)))"

definition arena_ok :: "OutputSlotArena \<Rightarrow> bool" where
  "arena_ok a \<longleftrightarrow> sizes_ok a \<and> (\<forall>k<length (oa_slots a). slot_ok a k) \<and> accounts_ok a \<and> links_ok a \<and>
     covered a"

inductive slot_step :: "OutputSlotArena \<Rightarrow> OutputSlotArena \<Rightarrow> bool" where
  step_admit_sequence: "admit g a = (r, b) \<Longrightarrow> slot_step a b"
| step_release_sequence: "release_sequence i g a = (e, b) \<Longrightarrow> slot_step a b"
| step_reserve: "reserve_frame i g frame terminal a = (r', b) \<Longrightarrow> length frame < 2 ^ 64 \<Longrightarrow> slot_step a b"
| step_abort: "lease_typed lease \<Longrightarrow> abort_build lease a = (e, b) \<Longrightarrow> slot_step a b"
| step_publish: "lease_typed lease \<Longrightarrow> publish_frame lease a = (e, b) \<Longrightarrow> slot_step a b"
| step_advance: "lease_typed lease \<Longrightarrow> advance_writer lease n a = (e, b) \<Longrightarrow> slot_step a b"
| step_orphan: "lease_typed lease \<Longrightarrow> orphan lease a = (e, b) \<Longrightarrow> slot_step a b"
| step_finish: "lease_typed lease \<Longrightarrow> finish_orphan lease a = (e, b) \<Longrightarrow> slot_step a b"
| step_scrub: "lease_typed lease \<Longrightarrow> scrub lease a = (e, b) \<Longrightarrow> slot_step a b"

definition slot_arena_init :: "OutputSlotArena \<Rightarrow> bool" where
  "slot_arena_init a \<longleftrightarrow> (\<exists>allocates limits. slot_arena_Create allocates limits = Inr a)"


section \<open>Leases do not overlap\<close>

lemma lease_slot_generation:
  assumes "holds_lease lease st a" and "k \<in> set (lease_slots lease)"
  shows "k < length (oa_slots a)" and "at_state (oa_slots a ! k) = st"
    and "at_lease_generation (oa_slots a ! k) = fl_lease_generation lease"
    and "at_sequence_slot (oa_slots a ! k) = fl_sequence_slot lease"
    and "at_terminal (oa_slots a ! k) = fl_terminal lease"
  using assms by (auto simp: in_set_conv_nth holds_lease_def slot_matches_def)

lemma same_lease:
  assumes links: "links_ok a" and l: "holds_lease l st a" "st \<noteq> kFree"
    and m: "holds_lease m st' a" "st' \<noteq> kFree"
    and g: "fl_lease_generation l = fl_lease_generation m"
  shows "lease_slots l = lease_slots m" and "st = st'"
proof -
  have facts: "lease_slots x ! i < length (oa_slots a)" "live_slot a (lease_slots x ! i)"
      "at_lease_generation (oa_slots a ! (lease_slots x ! i)) = fl_lease_generation x"
      "at_chain_ordinal (oa_slots a ! (lease_slots x ! i)) = of_nat i"
    if "holds_lease x s a" "s \<noteq> kFree" "i < length (lease_slots x)" for x s i
    using that by (simp_all add: holds_lease_def slot_matches_def)
  have link: "lease_slots l ! i = lease_slots m ! i"
    if "i < length (lease_slots l)" "i < length (lease_slots m)" for i
    using links facts [OF l that(1)] facts [OF m that(2)] g unfolding links_ok_def by simp
  have z: "0 < length (lease_slots l)" "0 < length (lease_slots m)"
    using l(1) m(1) unfolding holds_lease_def length_greater_0_conv by blast+
  with link have zero: "lease_slots l ! 0 = lease_slots m ! 0" by simp
  with l(1) m(1) z have "fl_slot_count l = fl_slot_count m" and "st = st'"
    by (auto simp: holds_lease_def slot_matches_def)
  then show "st = st'" by simp
  have "length (lease_slots l) = length (lease_slots m)"
    using \<open>fl_slot_count l = fl_slot_count m\<close> l(1) m(1) by (simp add: holds_lease_def)
  with link show "lease_slots l = lease_slots m" by (simp add: list_eq_iff_nth_eq)
qed

text \<open>A lease keeps holding when its slots and the identity of its sequence stay.\<close>

definition sequences_kept :: "OutputSlotArena \<Rightarrow> OutputSlotArena \<Rightarrow> bool" where
  "sequences_kept a b \<longleftrightarrow> length (oa_sequences b) = length (oa_sequences a) \<and>
     (\<forall>i<length (oa_sequences a). as_admitted (oa_sequences b ! i) = as_admitted (oa_sequences a ! i) \<and>
        as_generation (oa_sequences b ! i) = as_generation (oa_sequences a ! i))"

lemma sequences_kept_refl [simp]: "oa_sequences b = oa_sequences a \<Longrightarrow> sequences_kept a b"
  by (simp add: sequences_kept_def)

lemma holds_lease_kept:
  assumes "holds_lease m st a" and "sequences_kept a b" and "length (oa_slots b) = length (oa_slots a)"
    and "\<And>k. k \<in> set (lease_slots m) \<Longrightarrow> \<exists>n. oa_slots b ! k =
      (oa_slots a ! k)\<lparr>at_state := st', at_accepted_bytes := n\<rparr>"
  shows "holds_lease m st' b"
proof -
  have "slot_matches m st' b (i, lease_slots m ! i)" if "i < length (lease_slots m)" for i
    using assms(1,3) that assms(4) [OF nth_mem [OF that]]
    by (auto simp: holds_lease_def slot_matches_def)
  with assms(1,2) show ?thesis
    by (auto simp: holds_lease_def sequence_stale_def sequences_kept_def)
qed

lemma holds_lease_unchanged:
  assumes "holds_lease m st a" and "sequences_kept a b" and "length (oa_slots b) = length (oa_slots a)"
    and "\<And>k. k \<in> set (lease_slots m) \<Longrightarrow> oa_slots b ! k = oa_slots a ! k"
  shows "holds_lease m st b"
proof (rule holds_lease_kept [OF assms(1-3)])
  fix k assume k: "k \<in> set (lease_slots m)"
  with assms(4) lease_slot_generation(2) [OF assms(1) k]
  have "oa_slots b ! k = (oa_slots a ! k)\<lparr>at_state := st, at_accepted_bytes := at_accepted_bytes (oa_slots a ! k)\<rparr>"
    by simp
  then show "\<exists>n. oa_slots b ! k = (oa_slots a ! k)\<lparr>at_state := st, at_accepted_bytes := n\<rparr>" by blast
qed

section \<open>Operations on a lease keep the invariant\<close>

text \<open>Moving a chain to another live state, possibly counting written bytes in its slots.\<close>

definition relabelled :: "OutputFrameLease \<Rightarrow> OutputSlotState \<Rightarrow> OutputSlotArena \<Rightarrow> OutputSlotArena \<Rightarrow> bool" where
  "relabelled lease st a b \<longleftrightarrow>
     oa_limits b = oa_limits a \<and> oa_bytes b = oa_bytes a \<and> oa_sequences b = oa_sequences a \<and>
     oa_next_lease_generation b = oa_next_lease_generation a \<and>
     length (oa_slots b) = length (oa_slots a) \<and>
     (\<forall>k<length (oa_slots a). if k \<in> set (lease_slots lease)
        then \<exists>n. oa_slots b ! k = (oa_slots a ! k)\<lparr>at_state := st, at_accepted_bytes := n\<rparr>
        else oa_slots b ! k = oa_slots a ! k)"

lemma relabelled_slot:
  assumes "relabelled lease st' a b" and "holds_lease lease st a" "st \<noteq> kFree" "st' \<noteq> kFree"
    and "k < length (oa_slots a)"
  shows "live_slot b k = live_slot a k"
    and "\<not> live_slot a k \<Longrightarrow> oa_slots b ! k = oa_slots a ! k"
    and "at_lease_generation (oa_slots b ! k) = at_lease_generation (oa_slots a ! k)"
    and "at_sequence_slot (oa_slots b ! k) = at_sequence_slot (oa_slots a ! k)"
    and "at_chain_ordinal (oa_slots b ! k) = at_chain_ordinal (oa_slots a ! k)"
    and "at_terminal (oa_slots b ! k) = at_terminal (oa_slots a ! k)"
  using assms lease_slot_generation(2) [OF assms(2)]
  by (auto simp: relabelled_def split: if_splits)

lemma relabelled_holds:
  assumes "relabelled l st' a b" and l: "holds_lease l st a" "st \<noteq> kFree"
    and m: "holds_lease m st2 a" "st2 \<noteq> kFree" and "links_ok a"
  shows "holds_lease m (if fl_lease_generation m = fl_lease_generation l then st' else st2) b"
proof (cases "fl_lease_generation m = fl_lease_generation l")
  case True
  with same_lease [OF assms(6) l m] have "lease_slots l = lease_slots m" by simp
  with True assms(1) lease_slot_generation(1) [OF m(1)] show ?thesis
    by (auto simp: relabelled_def intro!: holds_lease_kept [OF m(1)])
next
  case False
  then have "k \<in> set (lease_slots m) \<Longrightarrow> k \<notin> set (lease_slots l)" for k
    using lease_slot_generation(3) [OF l(1), of k] lease_slot_generation(3) [OF m(1), of k] by auto
  with False assms(1) lease_slot_generation(1) [OF m(1)] show ?thesis
    by (auto simp: relabelled_def intro!: holds_lease_unchanged [OF m(1)])
qed

lemma arena_ok_relabelled:
  assumes ok: "arena_ok a" and r: "relabelled lease st' a b"
    and h: "holds_lease lease st a" "st \<noteq> kFree" "st' \<noteq> kFree"
  shows "arena_ok b"
proof -
  note slot = relabelled_slot [OF r h]
  have len: "length (oa_slots b) = length (oa_slots a)"
    and fields: "oa_limits b = oa_limits a" "oa_bytes b = oa_bytes a" "oa_sequences b = oa_sequences a"
      "oa_next_lease_generation b = oa_next_lease_generation a"
    using r by (simp_all add: relabelled_def)
  have shared: "k < unat (al_shared_delta_slots (oa_limits a)) \<Longrightarrow> k < length (oa_slots a)" for k
    using ok by (simp add: arena_ok_def sizes_ok_def)
  have "sizes_ok b" using ok len fields by (simp add: arena_ok_def sizes_ok_def backed_def)
  moreover have "slot_ok b k" if "k < length (oa_slots b)" for k
  proof -
    have k: "k < length (oa_slots a)" using that len by simp
    with ok have "slot_ok a k" by (simp add: arena_ok_def)
    with slot [OF k] fields region_cong [OF fields(1,2)] show ?thesis
      by (auto simp: slot_ok_def Let_def)
  qed
  moreover have "owned_shared b i = owned_shared a i" for i
    using slot shared by (auto simp: owned_shared_def fields)
  then have "accounts_ok b" using ok fields by (simp add: arena_ok_def accounts_ok_def)
  moreover have "links_ok b" using ok slot len unfolding arena_ok_def links_ok_def by metis
  moreover have "covered b"
    unfolding covered_def
  proof (intro allI impI)
    fix k assume "k < length (oa_slots b)" and live: "live_slot b k"
    then have k: "k < length (oa_slots a)" and "live_slot a k" using len slot by simp_all
    with ok obtain m where m: "lease_typed m" "holds_lease m (at_state (oa_slots a ! k)) a"
      "k \<in> set (lease_slots m)" by (auto simp: arena_ok_def covered_def)
    have "links_ok a" using ok by (simp add: arena_ok_def)
    from relabelled_holds [OF r h(1,2) m(2) \<open>live_slot a k\<close> this]
    obtain st2 where "holds_lease m st2 b" by blast
    with m(3) lease_slot_generation(2) [OF this m(3)] m(1)
    show "\<exists>lease. lease_typed lease \<and> holds_lease lease (at_state (oa_slots b ! k)) b \<and>
        k \<in> set (lease_slots lease)" by blast
  qed
  ultimately show ?thesis by (simp add: arena_ok_def)
qed


lemma relabelled_transition:
  assumes "holds_lease lease st a"
  shows "relabelled lease st' a (transition lease st' a)"
proof -
  have "\<exists>n. (oa_slots a ! k)\<lparr>at_state := st'\<rparr> = (oa_slots a ! k)\<lparr>at_state := st', at_accepted_bytes := n\<rparr>" for k
    by (intro exI [of _ "at_accepted_bytes (oa_slots a ! k)"]) simp
  then show ?thesis using transition_slots [OF assms] by (simp add: relabelled_def)
qed

lemma relabelled_trans:
  assumes "relabelled lease st a b" and "relabelled lease st' b c"
  shows "relabelled lease st' a c"
proof -
  have "if k \<in> set (lease_slots lease)
      then \<exists>n. oa_slots c ! k = (oa_slots a ! k)\<lparr>at_state := st', at_accepted_bytes := n\<rparr>
      else oa_slots c ! k = oa_slots a ! k" if "k < length (oa_slots a)" for k
    using assms that unfolding relabelled_def by (cases "k \<in> set (lease_slots lease)") force+
  with assms show ?thesis by (simp add: relabelled_def)
qed

lemma head_in_chain:
  assumes "holds_lease lease st a"
  shows "unat (fl_slot_indices lease ! 0) = lease_slots lease ! 0"
    and "lease_slots lease ! 0 \<in> set (lease_slots lease)"
proof -
  have n: "lease_slots lease \<noteq> []" using assms by (simp add: holds_lease_def)
  then show "lease_slots lease ! 0 \<in> set (lease_slots lease)" by (simp add: nth_mem)
  from n show "unat (fl_slot_indices lease ! 0) = lease_slots lease ! 0"
    by (simp add: lease_slots_def)
qed

lemma relabelled_advance:
  assumes "lease_typed lease" and "advance_writer lease n a = (e, b)"
  obtains "b = a" | st where "holds_lease lease kWriterOwned a" "st \<in> {kWriterOwned, kScrubPending}"
    "relabelled lease st a b"
proof (cases "b = a \<or> \<not> holds_lease lease kWriterOwned a")
  case True
  with assms validate_iff [OF assms(1)] show ?thesis
    by (intro that(1)) (auto simp: advance_writer_def Let_def split: if_splits)
next
  case False
  then have h: "holds_lease lease kWriterOwned a" by simp
  note k = head_in_chain [OF h] and slot = lease_slot_generation [OF h head_in_chain(2) [OF h]]
  define head where "head = (oa_slots a ! (lease_slots lease ! 0))
    \<lparr>at_accepted_bytes := at_accepted_bytes (oa_slots a ! (lease_slots lease ! 0)) + n\<rparr>"
  define c where "c = a\<lparr>oa_slots := (oa_slots a)[lease_slots lease ! 0 := head]\<rparr>"
  have same: "\<exists>m. oa_slots a ! k = (oa_slots a ! k)\<lparr>at_state := kWriterOwned, at_accepted_bytes := m\<rparr>"
    if "k \<in> set (lease_slots lease)" for k
    using lease_slot_generation(2) [OF h that]
    by (intro exI [of _ "at_accepted_bytes (oa_slots a ! k)"]) simp
  have new: "\<exists>m. head = (oa_slots a ! (lease_slots lease ! 0))\<lparr>at_state := kWriterOwned, at_accepted_bytes := m\<rparr>"
    using slot(2) by (intro exI [of _ "at_accepted_bytes head"]) (simp add: head_def)
  have c: "relabelled lease kWriterOwned a c"
    using same new k(2) slot(1) by (auto simp: relabelled_def c_def nth_list_update)
  then have hc: "holds_lease lease kWriterOwned c"
    using lease_slot_generation(1) [OF h]
    by (intro holds_lease_kept [OF h]) (auto simp: relabelled_def)
  from False assms(2) validate_iff [OF assms(1)] k(1) consider "b = c" | "b = transition lease kScrubPending c"
    by (auto simp: advance_writer_def Let_def c_def head_def split: if_splits)
  then show ?thesis
  proof cases
    case 1
    with c h show ?thesis by (intro that(2)) auto
  next
    case 2
    with relabelled_trans [OF c relabelled_transition [OF hc]] h show ?thesis
      by (intro that(2) [of kScrubPending]) auto
  qed
qed

text \<open>Giving a chain back.\<close>

lemma give_back_result:
  assumes "backed a" and "holds_lease lease st a"
  defines "b \<equiv> give_back lease a" and "i \<equiv> unat (fl_sequence_slot lease)"
  shows "oa_limits b = oa_limits a \<and> oa_next_lease_generation b = oa_next_lease_generation a \<and> backed b \<and>
    length (oa_slots b) = length (oa_slots a) \<and> sequences_kept a b \<and>
    (\<forall>j<length (oa_sequences a). as_dynamic_slots (oa_sequences b ! j) =
       as_dynamic_slots (oa_sequences a ! j) - (if j = i \<and> \<not> fl_terminal lease then fl_slot_count lease else 0)) \<and>
    (\<forall>k<length (oa_slots a).
       oa_slots b ! k = (if k \<in> set (lease_slots lease) then default_arena_slot else oa_slots a ! k) \<and>
       region b k = (if k \<in> set (lease_slots lease)
         then replicate (unat (al_slot_bytes (oa_limits a))) 0 else region a k))"
proof -
  let ?c = "fold zero_slot (lease_slots lease) a"
  note z = zero_slots [OF assms(1) holds_lease_subset [OF assms(2)]]
  have i: "i < length (oa_sequences a)" using assms(2) by (simp add: holds_lease_def sequence_stale_def i_def)
  have r: "region b k = region ?c k" for k
    by (simp add: region_def b_def give_back_def Let_def)
  have "backed b" "oa_limits b = oa_limits a" "oa_slots b = oa_slots ?c"
    "oa_next_lease_generation b = oa_next_lease_generation a"
    using z by (simp_all add: b_def give_back_def backed_def Let_def)
  moreover have "oa_sequences b = (if fl_terminal lease then oa_sequences a else (oa_sequences a)[i :=
      (oa_sequences a ! i)\<lparr>as_dynamic_slots := as_dynamic_slots (oa_sequences a ! i) - fl_slot_count lease\<rparr>])"
    using z by (simp add: b_def give_back_def Let_def i_def)
  ultimately show ?thesis using z i r by (auto simp: sequences_kept_def nth_list_update)
qed


lemma lease_slot_range:
  assumes "arena_ok a" and "holds_lease lease st a" and "st \<noteq> kFree" and "k \<in> set (lease_slots lease)"
  shows "in_range (oa_limits a) (unat (fl_sequence_slot lease)) (fl_terminal lease) k"
proof -
  note slot = lease_slot_generation [OF assms(2,4)]
  with assms(1) have "slot_ok a k" by (simp add: arena_ok_def)
  with slot assms(3) show ?thesis by (simp add: slot_ok_def Let_def)
qed

lemma other_lease_disjoint:
  assumes "holds_lease l st a" and "holds_lease m st' a"
    and "fl_lease_generation m \<noteq> fl_lease_generation l" and "k \<in> set (lease_slots m)"
  shows "k \<notin> set (lease_slots l)"
  using assms(3) lease_slot_generation(3) [OF assms(1), of k] lease_slot_generation(3) [OF assms(2,4)]
  by auto

lemma finite_owned [simp]: "finite (owned_shared a i)"
  by (rule finite_subset [of _ "{..<unat (al_shared_delta_slots (oa_limits a))}"])
    (auto simp: owned_shared_def)

lemma in_range_shared:
  "in_range limits i terminal k \<Longrightarrow> k < unat (al_shared_delta_slots limits) \<longleftrightarrow> \<not> terminal"
  by (auto simp: in_range_def)

lemma lease_slots_owned:
  assumes "arena_ok a" and "holds_lease lease st a" and "st \<noteq> kFree"
  shows "fl_terminal lease \<Longrightarrow> set (lease_slots lease) \<inter> owned_shared a i = {}"
    and "\<not> fl_terminal lease \<Longrightarrow> i = unat (fl_sequence_slot lease) \<Longrightarrow>
      set (lease_slots lease) \<subseteq> owned_shared a i"
    and "i \<noteq> unat (fl_sequence_slot lease) \<Longrightarrow> set (lease_slots lease) \<inter> owned_shared a i = {}"
  using in_range_shared [OF lease_slot_range [OF assms]] lease_slot_generation [OF assms(2)] assms(3)
  by (auto simp: owned_shared_def)

lemma accounts_give_back:
  assumes ok: "arena_ok a" and h: "holds_lease lease st a" "st \<noteq> kFree"
  shows "accounts_ok (give_back lease a)"
  unfolding accounts_ok_def
proof (intro allI impI)
  let ?b = "give_back lease a"
  have "backed a" using ok by (simp add: arena_ok_def sizes_ok_def)
  note r = give_back_result [OF this h(1)]
  fix j assume "j < length (oa_sequences ?b)"
  then have j: "j < length (oa_sequences a)" using r by (simp add: sequences_kept_def)
  with ok have dyn: "unat (as_dynamic_slots (oa_sequences a ! j)) = card (owned_shared a j)"
    and lim: "as_dynamic_slots (oa_sequences a ! j) \<le> al_per_sequence_dynamic_slots (oa_limits a)"
    by (simp_all add: arena_ok_def accounts_ok_def)
  have shared: "k < unat (al_shared_delta_slots (oa_limits a)) \<Longrightarrow> k < length (oa_slots a)" for k
    using ok by (simp add: arena_ok_def sizes_ok_def)
  have slot: "oa_slots ?b ! k =
      (if k \<in> set (lease_slots lease) then default_arena_slot else oa_slots a ! k)"
    if "k < unat (al_shared_delta_slots (oa_limits a))" for k
    using r shared [OF that] by blast
  have "oa_limits ?b = oa_limits a" using r by blast
  with slot have owned: "owned_shared ?b j = owned_shared a j - set (lease_slots lease)"
    by (auto simp: owned_shared_def default_arena_slot_def split: if_splits)
  note apart = lease_slots_owned [OF ok h, of j]
  have size: "card (set (lease_slots lease)) = unat (fl_slot_count lease)"
    using holds_lease_distinct [OF h(1)] h(1) by (simp add: distinct_card holds_lease_def)
  show "unat (as_dynamic_slots (oa_sequences ?b ! j)) = card (owned_shared ?b j) \<and>
      as_dynamic_slots (oa_sequences ?b ! j) \<le> al_per_sequence_dynamic_slots (oa_limits ?b)"
  proof (cases "j = unat (fl_sequence_slot lease) \<and> \<not> fl_terminal lease")
    case True
    then have sub: "set (lease_slots lease) \<subseteq> owned_shared a j" using apart(2) by simp
    then have "unat (fl_slot_count lease) \<le> unat (as_dynamic_slots (oa_sequences a ! j))"
      using size dyn card_mono [OF finite_owned sub] by simp
    then have "fl_slot_count lease \<le> as_dynamic_slots (oa_sequences a ! j)" by (simp add: word_le_nat_alt)
    then have "unat (as_dynamic_slots (oa_sequences a ! j) - fl_slot_count lease) =
        card (owned_shared a j - set (lease_slots lease))"
      using sub size dyn by (simp add: unat_sub card_Diff_subset)
    moreover have "card (owned_shared a j - set (lease_slots lease)) \<le> card (owned_shared a j)"
      by (rule card_mono [OF finite_owned Diff_subset])
    ultimately show ?thesis using True r j owned lim dyn by (auto simp: word_le_nat_alt)
  next
    case False
    then have "owned_shared a j - set (lease_slots lease) = owned_shared a j" using apart by blast
    with False r j owned dyn lim show ?thesis by auto
  qed
qed

lemma covered_give_back:
  assumes ok: "arena_ok a" and h: "holds_lease lease st a" "st \<noteq> kFree"
  shows "covered (give_back lease a)"
  unfolding covered_def
proof (intro allI impI)
  let ?b = "give_back lease a"
  have "backed a" using ok by (simp add: arena_ok_def sizes_ok_def)
  note r = give_back_result [OF this h(1)]
  fix k assume "k < length (oa_slots ?b)" and live: "live_slot ?b k"
  then have k: "k < length (oa_slots a)" and "k \<notin> set (lease_slots lease)"
    and same: "oa_slots ?b ! k = oa_slots a ! k"
    using r by (auto simp: default_arena_slot_def split: if_splits)
  with ok live obtain m where m: "lease_typed m" "holds_lease m (at_state (oa_slots a ! k)) a"
    "k \<in> set (lease_slots m)" by (auto simp: arena_ok_def covered_def)
  have "links_ok a" using ok by (simp add: arena_ok_def)
  have "fl_lease_generation m \<noteq> fl_lease_generation lease"
    using same_lease(1) [OF \<open>links_ok a\<close> h m(2)] m(3) \<open>k \<notin> set (lease_slots lease)\<close> live same by auto
  then have "j \<in> set (lease_slots m) \<Longrightarrow> oa_slots ?b ! j = oa_slots a ! j" for j
    using r other_lease_disjoint [OF h(1) m(2)] lease_slot_generation(1) [OF m(2)] by simp
  then have "holds_lease m (at_state (oa_slots a ! k)) ?b"
    using r by (intro holds_lease_unchanged [OF m(2)]) simp_all
  with m same show "\<exists>lease. lease_typed lease \<and> holds_lease lease (at_state (oa_slots ?b ! k)) ?b \<and>
      k \<in> set (lease_slots lease)" by auto
qed

lemma arena_ok_give_back:
  assumes ok: "arena_ok a" and h: "holds_lease lease st a" "st \<noteq> kFree"
  shows "arena_ok (give_back lease a)"
proof -
  let ?b = "give_back lease a"
  have "backed a" using ok by (simp add: arena_ok_def sizes_ok_def)
  note r = give_back_result [OF this h(1)]
  have "sizes_ok ?b" using ok r by (simp add: arena_ok_def sizes_ok_def sequences_kept_def)
  moreover have "slot_ok ?b k" if "k < length (oa_slots ?b)" for k
  proof -
    have k: "k < length (oa_slots a)" using that r by simp
    with ok have "slot_ok a k" by (simp add: arena_ok_def)
    with k r show ?thesis
      by (cases "k \<in> set (lease_slots lease)")
        (auto simp: slot_ok_def Let_def default_arena_slot_def sequences_kept_def)
  qed
  moreover have "links_ok ?b"
    using ok r unfolding arena_ok_def links_ok_def by (auto simp: default_arena_slot_def split: if_splits)
  ultimately show ?thesis
    using accounts_give_back [OF assms] covered_give_back [OF assms] by (simp add: arena_ok_def)
qed


section \<open>Reserving a frame\<close>

lemma unat_frame_slot_count:
  assumes "frame \<noteq> []" and "length frame < 2 ^ 64" and "al_slot_bytes (oa_limits a) \<noteq> 0"
  shows "unat (frame_slot_count frame a) = Suc ((length frame - 1) div unat (al_slot_bytes (oa_limits a)))"
proof -
  let ?n = "of_nat (length frame) :: u64" and ?w = "al_slot_bytes (oa_limits a)"
  have n: "unat ?n = length frame" using assms(2) by (simp add: unat_of_nat)
  have "?n \<noteq> 0" using n assms(1) by (metis length_0_conv unat_0)
  then have pred: "unat (?n - 1) = length frame - 1" using n by (simp add: unat_pred_word)
  have q: "unat ((?n - 1) div ucast ?w) = (length frame - 1) div unat ?w"
    using pred by (simp add: unat_div)
  moreover have "(length frame - 1) div unat ?w < 2 ^ 64 - 1"
    using assms(1,2) by (intro le_less_trans [OF div_le_dividend]) (cases frame; simp)
  ultimately have "(?n - 1) div ucast ?w \<noteq> - 1"
    by (metis less_irrefl unat_max_u64)
  from unat_Suc_word [OF this] q show ?thesis by (simp add: frame_slot_count_def add.commute [of 1])
qed

lemma range_bounds:
  assumes "sizes_ok a" and "unat i < length (oa_sequences a)"
  shows "k \<in> {unat (range_begin i terminal (oa_limits a))..<unat (range_end i terminal (oa_limits a))} \<longleftrightarrow>
    in_range (oa_limits a) (unat i) terminal k"
    and "in_range (oa_limits a) (unat i) terminal k \<Longrightarrow> k < length (oa_slots a)"
proof -
  let ?s = "al_shared_delta_slots (oa_limits a)" and ?t = "al_terminal_slots_per_sequence (oa_limits a)"
  have "Suc (unat i) * unat ?t \<le> unat (al_maximum_sequences (oa_limits a)) * unat ?t"
    using assms by (intro mult_le_mono1) (simp add: sizes_ok_def)
  then have total: "unat ?s + Suc (unat i) * unat ?t \<le> length (oa_slots a)"
    using assms(1) by (simp add: sizes_ok_def)
  moreover have "length (oa_slots a) < 2 ^ 32" using assms(1) by (simp add: sizes_ok_def)
  ultimately have small: "unat ?s + (unat i * unat ?t + unat ?t) < 2 ^ 32" by simp
  then have "unat (i * ?t) = unat i * unat ?t" by (simp add: unat_word_ariths)
  with small have b: "unat (?s + i * ?t) = unat ?s + unat i * unat ?t"
    by (simp add: unat_word_ariths)
  with small have "unat (?s + i * ?t + ?t) = unat ?s + unat i * unat ?t + unat ?t"
    by (simp add: unat_word_ariths)
  with b show "k \<in> {unat (range_begin i terminal (oa_limits a))..<unat (range_end i terminal (oa_limits a))} \<longleftrightarrow>
      in_range (oa_limits a) (unat i) terminal k"
    by (auto simp: range_begin_def range_end_def in_range_def)
  show "in_range (oa_limits a) (unat i) terminal k \<Longrightarrow> k < length (oa_slots a)"
    using total assms(1) by (auto simp: in_range_def sizes_ok_def split: if_splits)
qed

lemma found_slots_props:
  assumes "sizes_ok a" and "unat i < length (oa_sequences a)"
  shows "distinct (found_slots i c terminal a)"
    and "k \<in> set (found_slots i c terminal a) \<Longrightarrow> k < length (oa_slots a) \<and> \<not> live_slot a k \<and>
      in_range (oa_limits a) (unat i) terminal k"
proof -
  show "distinct (found_slots i c terminal a)" by (simp add: found_slots_def distinct_take)
  assume "k \<in> set (found_slots i c terminal a)"
  then have "k \<in> {unat (range_begin i terminal (oa_limits a))..<unat (range_end i terminal (oa_limits a))}"
    and "\<not> live_slot a k" by (auto simp: found_slots_def dest!: in_set_takeD)
  with range_bounds [OF assms] show "k < length (oa_slots a) \<and> \<not> live_slot a k \<and>
      in_range (oa_limits a) (unat i) terminal k" by blast
qed

text \<open>What a granted reservation does.\<close>

definition lease_for ::
  "u32 \<Rightarrow> u64 \<Rightarrow> u8 list \<Rightarrow> bool \<Rightarrow> OutputSlotArena \<Rightarrow> OutputFrameLease \<Rightarrow> bool" where
  "lease_for i g frame terminal a lease \<longleftrightarrow>
     \<not> sequence_stale i g a \<and> frame \<noteq> [] \<and>
     fl_sequence_slot lease = i \<and> fl_sequence_generation lease = g \<and>
     fl_lease_generation lease = oa_next_lease_generation a \<and> oa_next_lease_generation a \<noteq> UINT64_MAX \<and>
     unat (fl_frame_bytes lease) = length frame \<and> fl_terminal lease = terminal \<and> lease_typed lease \<and>
     lease_slots lease \<noteq> [] \<and> length (lease_slots lease) \<le> 64 \<and>
     length (lease_slots lease) = unat (fl_slot_count lease) \<and> distinct (lease_slots lease) \<and>
     length (lease_slots lease) = Suc ((length frame - 1) div unat (al_slot_bytes (oa_limits a))) \<and>
     (\<forall>k\<in>set (lease_slots lease). k < length (oa_slots a) \<and> \<not> live_slot a k \<and>
        in_range (oa_limits a) (unat i) terminal k) \<and>
     (\<not> terminal \<longrightarrow> unat (as_dynamic_slots (oa_sequences a ! unat i)) + unat (fl_slot_count lease) \<le>
        unat (al_per_sequence_dynamic_slots (oa_limits a)))"

definition frame_built ::
  "u8 list \<Rightarrow> OutputFrameLease \<Rightarrow> OutputSlotArena \<Rightarrow> OutputSlotArena \<Rightarrow> bool" where
  "frame_built frame lease a b \<longleftrightarrow>
     oa_limits b = oa_limits a \<and> oa_next_lease_generation b = oa_next_lease_generation a + 1 \<and> backed b \<and>
     length (oa_slots b) = length (oa_slots a) \<and> sequences_kept a b \<and>
     (\<forall>j<length (oa_sequences a). as_dynamic_slots (oa_sequences b ! j) =
        as_dynamic_slots (oa_sequences a ! j) +
          (if j = unat (fl_sequence_slot lease) \<and> \<not> fl_terminal lease then fl_slot_count lease else 0)) \<and>
     (\<forall>k<length (oa_slots a). k \<notin> set (lease_slots lease) \<longrightarrow>
        oa_slots b ! k = oa_slots a ! k \<and> region b k = region a k) \<and>
     (\<forall>m<length (lease_slots lease).
        oa_slots b ! (lease_slots lease ! m) = build_slot lease (of_nat m) \<and>
        region b (lease_slots lease ! m) = piece a frame m @
          drop (length (piece a frame m)) (region a (lease_slots lease ! m)))"


definition granted_lease ::
  "u32 \<Rightarrow> u64 \<Rightarrow> u8 list \<Rightarrow> bool \<Rightarrow> OutputSlotArena \<Rightarrow> OutputFrameLease" where
  "granted_lease i g frame terminal a =
     (let indices = map of_nat (found_slots i (frame_slot_count frame a) terminal a)
      in \<lparr>fl_sequence_slot = i, fl_sequence_generation = g,
          fl_lease_generation = oa_next_lease_generation a,
          fl_slot_count = ucast (frame_slot_count frame a),
          fl_frame_bytes = of_nat (length frame), fl_terminal = terminal,
          fl_slot_indices = indices @ replicate (kLeaseSlotIndices - length indices) 0\<rparr>)"

definition reserve_granted :: "u32 \<Rightarrow> u64 \<Rightarrow> u8 list \<Rightarrow> bool \<Rightarrow> OutputSlotArena \<Rightarrow> bool" where
  "reserve_granted i g frame terminal a \<longleftrightarrow>
     \<not> sequence_stale i g a \<and> frame \<noteq> [] \<and>
     \<not> exceeds_envelope i (frame_slot_count frame a) terminal a \<and>
     oa_next_lease_generation a \<noteq> UINT64_MAX \<and>
     length (found_slots i (frame_slot_count frame a) terminal a) = unat (frame_slot_count frame a)"

definition charge :: "OutputFrameLease \<Rightarrow> OutputSlotArena \<Rightarrow> OutputSlotArena" where
  "charge lease a =
     (let i = unat (fl_sequence_slot lease); s = oa_sequences a ! i
      in if fl_terminal lease then a
         else a\<lparr>oa_sequences := (oa_sequences a)
                  [i := s\<lparr>as_dynamic_slots := as_dynamic_slots s + fl_slot_count lease\<rparr>]\<rparr>)"

abbreviation next_lease :: "OutputSlotArena \<Rightarrow> OutputSlotArena" where
  "next_lease a \<equiv> a\<lparr>oa_next_lease_generation := oa_next_lease_generation a + 1\<rparr>"

lemma reserve_frame_outcome:
  shows "reserve_granted i g frame terminal a \<Longrightarrow> reserve_frame i g frame terminal a =
      (Inr (granted_lease i g frame terminal a),
       charge (granted_lease i g frame terminal a)
         (build_chain (granted_lease i g frame terminal a) frame
            (found_slots i (frame_slot_count frame a) terminal a) 0 0 (next_lease a)))"
    and "\<not> reserve_granted i g frame terminal a \<Longrightarrow> \<exists>e. reserve_frame i g frame terminal a = (Inl e, a) \<or>
      reserve_frame i g frame terminal a = (Inl e, next_lease a) \<and> oa_next_lease_generation a \<noteq> UINT64_MAX"
proof -
  have f: "found_slots i c terminal (next_lease a) = found_slots i c terminal a" for c
    by (simp add: found_slots_def)
  show "reserve_granted i g frame terminal a \<Longrightarrow> reserve_frame i g frame terminal a =
      (Inr (granted_lease i g frame terminal a),
       charge (granted_lease i g frame terminal a)
         (build_chain (granted_lease i g frame terminal a) frame
            (found_slots i (frame_slot_count frame a) terminal a) 0 0 (next_lease a)))"
    by (simp add: reserve_frame_def reserve_granted_def Let_def f granted_lease_def charge_def)
  show "\<not> reserve_granted i g frame terminal a \<Longrightarrow> \<exists>e. reserve_frame i g frame terminal a = (Inl e, a) \<or>
      reserve_frame i g frame terminal a = (Inl e, next_lease a) \<and> oa_next_lease_generation a \<noteq> UINT64_MAX"
    by (auto simp: reserve_frame_def reserve_granted_def Let_def f)
qed

lemma map_unat_of_nat_u32:
  assumes "\<And>k. k \<in> set ks \<Longrightarrow> k < 2 ^ 32"
  shows "map (\<lambda>k. unat (of_nat k :: u32)) ks = ks"
  using assms by (intro map_idI) (simp add: unat_of_nat)

lemma granted_lease_for:
  assumes sizes: "sizes_ok a" and len: "length frame < 2 ^ 64" and g: "reserve_granted i g frame terminal a"
  shows "lease_for i g frame terminal a (granted_lease i g frame terminal a)"
    and "lease_slots (granted_lease i g frame terminal a) =
      found_slots i (frame_slot_count frame a) terminal a"
proof -
  let ?c = "frame_slot_count frame a" and ?l = "granted_lease i g frame terminal a"
  let ?f = "found_slots i ?c terminal a"
  have i: "unat i < length (oa_sequences a)" using g by (simp add: reserve_granted_def sequence_stale_def)
  note found = found_slots_props [OF sizes i, where c = ?c and terminal = terminal]
  have count: "unat ?c = Suc ((length frame - 1) div unat (al_slot_bytes (oa_limits a)))"
    using g len sizes by (intro unat_frame_slot_count) (simp_all add: reserve_granted_def sizes_ok_def)
  have "?c \<le> ucast (al_maximum_chain_slots (oa_limits a))"
    using g by (simp add: reserve_granted_def exceeds_envelope_def not_less)
  moreover have "unat (al_maximum_chain_slots (oa_limits a)) \<le> 64"
    using sizes by (simp add: sizes_ok_def word_le_nat_alt)
  ultimately have c64: "unat ?c \<le> 64" by (simp add: word_le_nat_alt)
  then have cast: "unat (ucast ?c :: u32) = unat ?c"
    by (simp add: unsigned_ucast_eq take_bit_nat_eq_self)
  have flen: "length ?f = unat ?c" using g by (simp add: reserve_granted_def)
  have "k \<in> set ?f \<Longrightarrow> k < 2 ^ 32" for k
    using found(2) [of k] sizes by (fastforce simp: sizes_ok_def)
  then show slots: "lease_slots ?l = ?f"
    using cast flen by (simp add: lease_slots_def granted_lease_def Let_def map_unat_of_nat_u32 o_def)
  have "\<not> terminal \<Longrightarrow> unat (as_dynamic_slots (oa_sequences a ! unat i)) + unat ?c \<le>
      unat (al_per_sequence_dynamic_slots (oa_limits a))"
    using g c64 unat_lt_u32 [of "as_dynamic_slots (oa_sequences a ! unat i)"]
    by (simp add: reserve_granted_def exceeds_envelope_def not_less word_le_nat_alt unat_word_ariths)
  moreover have "?f \<noteq> []" using flen count by auto
  ultimately show "lease_for i g frame terminal a ?l"
    unfolding lease_for_def slots
    using g found flen count c64 cast len
    by (auto simp: granted_lease_def Let_def reserve_granted_def lease_typed_def kLeaseSlotIndices_def unat_of_nat)
qed


lemma frame_built_granted:
  assumes sizes: "sizes_ok a" and len: "length frame < 2 ^ 64" and g: "reserve_granted i g frame terminal a"
    and r: "reserve_frame i g frame terminal a = (r, b)"
  shows "frame_built frame (granted_lease i g frame terminal a) a b"
proof -
  let ?l = "granted_lease i g frame terminal a" and ?a = "next_lease a"
  note lf = granted_lease_for [OF sizes len g]
  let ?c = "build_chain ?l frame (lease_slots ?l) (of_nat 0) 0 ?a"
  have "backed ?a" using sizes by (simp add: sizes_ok_def backed_def)
  moreover have "set (lease_slots ?l) \<subseteq> {..<length (oa_slots ?a)}" "distinct (lease_slots ?l)"
    using lf(1) by (auto simp: lease_for_def)
  ultimately have built: "oa_limits ?c = oa_limits ?a \<and> oa_sequences ?c = oa_sequences ?a \<and>
      oa_next_lease_generation ?c = oa_next_lease_generation ?a \<and> backed ?c \<and>
      length (oa_slots ?c) = length (oa_slots ?a) \<and>
      (\<forall>j<length (oa_slots ?a). j \<notin> set (lease_slots ?l) \<longrightarrow>
         oa_slots ?c ! j = oa_slots ?a ! j \<and> region ?c j = region ?a j) \<and>
      (\<forall>m<length (lease_slots ?l). oa_slots ?c ! (lease_slots ?l ! m) = build_slot ?l (of_nat (0 + m)) \<and>
         region ?c (lease_slots ?l ! m) = piece ?a frame (0 + m) @
           drop (length (piece ?a frame (0 + m))) (region ?a (lease_slots ?l ! m)))"
    by (rule build_chain_result) simp
  have b: "b = charge ?l ?c" using reserve_frame_outcome(1) [OF g] r lf(2) by simp
  have i: "unat (fl_sequence_slot ?l) < length (oa_sequences a)"
    using lf(1) by (simp add: lease_for_def sequence_stale_def)
  have same: "oa_slots b = oa_slots ?c" "oa_limits b = oa_limits ?c" "oa_bytes b = oa_bytes ?c"
    "oa_next_lease_generation b = oa_next_lease_generation ?c"
    unfolding b by (simp_all add: charge_def Let_def)
  have seqs: "oa_sequences b = (if fl_terminal ?l then oa_sequences a else (oa_sequences a)
      [unat (fl_sequence_slot ?l) := (oa_sequences a ! unat (fl_sequence_slot ?l))
        \<lparr>as_dynamic_slots := as_dynamic_slots (oa_sequences a ! unat (fl_sequence_slot ?l)) + fl_slot_count ?l\<rparr>])"
    unfolding b using built by (simp add: charge_def Let_def)
  have "sequences_kept a b" using i by (auto simp: sequences_kept_def seqs nth_list_update)
  moreover have "region ?a = region a" "piece ?a = piece a" "region b = region ?c"
    using same by (simp_all add: region_def piece_def fun_eq_iff)
  moreover have "backed b" using built same by (simp add: backed_def)
  moreover have "j < length (oa_sequences a) \<Longrightarrow> as_dynamic_slots (oa_sequences b ! j) =
      as_dynamic_slots (oa_sequences a ! j) +
        (if j = unat (fl_sequence_slot ?l) \<and> \<not> fl_terminal ?l then fl_slot_count ?l else 0)" for j
    using i by (auto simp: seqs nth_list_update)
  ultimately show ?thesis using built same by (simp add: frame_built_def)
qed

lemma reserve_frame_cases:
  assumes "sizes_ok a" and "length frame < 2 ^ 64" and "reserve_frame i g frame terminal a = (r, b)"
  obtains (refused) e where "r = Inl e" "b = a"
  | (consumed) e where "r = Inl e" "b = next_lease a" "oa_next_lease_generation a \<noteq> UINT64_MAX"
  | (granted) lease where "r = Inr lease" "lease_for i g frame terminal a lease" "frame_built frame lease a b"
proof (cases "reserve_granted i g frame terminal a")
  case True
  from granted_lease_for(1) [OF assms(1,2) True] frame_built_granted [OF assms(1,2) True assms(3)]
    reserve_frame_outcome(1) [OF True] assms(3)
  show ?thesis by (intro granted) simp_all
next
  case False
  from reserve_frame_outcome(2) [OF this] assms(3) show ?thesis using refused consumed by auto
qed

lemma built_slot:
  assumes "frame_built frame lease a b" and "k \<in> set (lease_slots lease)"
  obtains m where "m < length (lease_slots lease)" "k = lease_slots lease ! m"
    "oa_slots b ! k = build_slot lease (of_nat m)"
  using assms by (auto simp: frame_built_def in_set_conv_nth)

lemma built_holds:
  assumes "lease_for i g frame terminal a lease" and "frame_built frame lease a b"
  shows "holds_lease lease kBuildOwned b"
  using assms
  by (auto simp: holds_lease_def lease_for_def frame_built_def slot_matches_def build_slot_def
      sequence_stale_def sequences_kept_def)


lemma word_less_Suc: "(x :: u64) < n \<Longrightarrow> n \<noteq> - 1 \<Longrightarrow> x < n + 1"
  by (simp add: word_less_nat_alt unat_Suc_word)

lemma word_less_self_Suc: "(n :: u64) \<noteq> - 1 \<Longrightarrow> n < n + 1"
  by (simp add: word_less_nat_alt unat_Suc_word)

lemma accounts_built:
  assumes ok: "arena_ok a" and l: "lease_for i g frame terminal a lease" and b: "frame_built frame lease a b"
  shows "accounts_ok b"
  unfolding accounts_ok_def
proof (intro allI impI)
  have lim: "oa_limits b = oa_limits a" using b by (simp add: frame_built_def)
  fix j assume "j < length (oa_sequences b)"
  then have j: "j < length (oa_sequences a)" using b by (simp add: frame_built_def sequences_kept_def)
  with ok have dyn: "unat (as_dynamic_slots (oa_sequences a ! j)) = card (owned_shared a j)"
    and dlim: "as_dynamic_slots (oa_sequences a ! j) \<le> al_per_sequence_dynamic_slots (oa_limits a)"
    by (simp_all add: arena_ok_def accounts_ok_def)
  let ?new = "if j = unat i \<and> \<not> terminal then set (lease_slots lease) else {}"
  have new: "live_slot b k" "at_sequence_slot (oa_slots b ! k) = i" "\<not> live_slot a k"
      "k < unat (al_shared_delta_slots (oa_limits a)) \<longleftrightarrow> \<not> terminal"
    if k: "k \<in> set (lease_slots lease)" for k
  proof -
    obtain m where "oa_slots b ! k = build_slot lease (of_nat m)" using built_slot [OF b k] by metis
    moreover have "fl_sequence_slot lease = i" "\<not> live_slot a k"
      "in_range (oa_limits a) (unat i) terminal k" using l k by (simp_all add: lease_for_def)
    ultimately show "live_slot b k" "at_sequence_slot (oa_slots b ! k) = i" "\<not> live_slot a k"
      "k < unat (al_shared_delta_slots (oa_limits a)) \<longleftrightarrow> \<not> terminal"
      using in_range_shared by (simp_all add: build_slot_def)
  qed
  have old: "oa_slots b ! k = oa_slots a ! k"
    if "k < unat (al_shared_delta_slots (oa_limits a))" "k \<notin> set (lease_slots lease)" for k
    using b ok that by (simp add: frame_built_def arena_ok_def sizes_ok_def)
  have "k \<in> owned_shared b j \<longleftrightarrow> k \<in> owned_shared a j \<union> ?new" for k
  proof (cases "k \<in> set (lease_slots lease)")
    case True
    with new [OF this] show ?thesis unfolding owned_shared_def lim by auto
  next
    case False
    with old [of k] show ?thesis unfolding owned_shared_def lim by auto
  qed
  then have owned: "owned_shared b j = owned_shared a j \<union> ?new" by blast
  have "owned_shared a j \<inter> ?new = {}" using new(3) by (auto simp: owned_shared_def)
  then have card: "card (owned_shared b j) = card (owned_shared a j) + card ?new"
    unfolding owned by (intro card_Un_disjoint) simp_all
  have size: "card (set (lease_slots lease)) = unat (fl_slot_count lease)"
    using l by (simp add: distinct_card lease_for_def)
  show "unat (as_dynamic_slots (oa_sequences b ! j)) = card (owned_shared b j) \<and>
      as_dynamic_slots (oa_sequences b ! j) \<le> al_per_sequence_dynamic_slots (oa_limits b)"
  proof (cases "j = unat i \<and> \<not> terminal")
    case True
    then have sum: "unat (as_dynamic_slots (oa_sequences a ! j)) + unat (fl_slot_count lease) \<le>
        unat (al_per_sequence_dynamic_slots (oa_limits a))"
      using l by (simp add: lease_for_def)
    then have "unat (as_dynamic_slots (oa_sequences a ! j) + fl_slot_count lease) =
        unat (as_dynamic_slots (oa_sequences a ! j)) + unat (fl_slot_count lease)"
      using unat_lt_u32 [of "al_per_sequence_dynamic_slots (oa_limits a)"] by (simp add: unat_word_ariths)
    moreover have "as_dynamic_slots (oa_sequences b ! j) = as_dynamic_slots (oa_sequences a ! j) + fl_slot_count lease"
      using b True j l by (simp add: frame_built_def lease_for_def)
    ultimately show ?thesis using True sum dyn card size lim by (simp add: word_le_nat_alt)
  next
    case False
    then have "as_dynamic_slots (oa_sequences b ! j) = as_dynamic_slots (oa_sequences a ! j)"
      using b j l by (auto simp: frame_built_def lease_for_def)
    with False dyn dlim card lim show ?thesis by auto
  qed
qed

lemma slot_ok_built:
  assumes "slot_ok a k" and k: "k < length (oa_slots a)" and l: "lease_for i g frame terminal a lease"
    and b: "frame_built frame lease a b"
  shows "slot_ok b k"
proof (cases "k \<in> set (lease_slots lease)")
  case True
  obtain m where "oa_slots b ! k = build_slot lease (of_nat m)" using built_slot [OF b True] by metis
  with True l b word_less_self_Suc show ?thesis
    by (auto simp: slot_ok_def Let_def build_slot_def lease_for_def frame_built_def sequences_kept_def
        sequence_stale_def)
next
  case False
  with k b have same: "oa_slots b ! k = oa_slots a ! k" "region b k = region a k"
    by (simp_all add: frame_built_def)
  have "oa_next_lease_generation a \<noteq> UINT64_MAX" using l by (simp add: lease_for_def)
  with same b assms(1) word_less_Suc show ?thesis
    by (auto simp: slot_ok_def Let_def frame_built_def sequences_kept_def)
qed

lemma links_built:
  assumes ok: "arena_ok a" and l: "lease_for i g frame terminal a lease" and b: "frame_built frame lease a b"
  shows "links_ok b"
  unfolding links_ok_def
proof (intro allI impI)
  fix j k
  assume "j < length (oa_slots b)" "k < length (oa_slots b)" and live: "live_slot b j" "live_slot b k"
    and eq: "at_lease_generation (oa_slots b ! j) = at_lease_generation (oa_slots b ! k)"
      "at_chain_ordinal (oa_slots b ! j) = at_chain_ordinal (oa_slots b ! k)"
  then have jk: "j < length (oa_slots a)" "k < length (oa_slots a)" using b by (simp_all add: frame_built_def)
  have new: "at_lease_generation (oa_slots b ! x) = oa_next_lease_generation a"
    if x: "x \<in> set (lease_slots lease)" for x
  proof -
    obtain m where "oa_slots b ! x = build_slot lease (of_nat m)" using built_slot [OF b x] by metis
    then show ?thesis using l by (simp add: build_slot_def lease_for_def)
  qed
  have old: "oa_slots b ! x = oa_slots a ! x" if "x < length (oa_slots a)" "x \<notin> set (lease_slots lease)" for x
    using b that by (simp add: frame_built_def)
  have less: "at_lease_generation (oa_slots b ! x) < oa_next_lease_generation a"
    if "x < length (oa_slots a)" "x \<notin> set (lease_slots lease)" "live_slot b x" for x
    using ok old [OF that(1,2)] that(1,3) by (auto simp: arena_ok_def slot_ok_def Let_def)
  show "j = k"
  proof (cases "j \<in> set (lease_slots lease)")
    case True
    with new less eq jk live have k: "k \<in> set (lease_slots lease)" by (metis less_irrefl)
    obtain m where m: "m < length (lease_slots lease)" "j = lease_slots lease ! m"
      "oa_slots b ! j = build_slot lease (of_nat m)" by (rule built_slot [OF b True])
    obtain n where n: "n < length (lease_slots lease)" "k = lease_slots lease ! n"
      "oa_slots b ! k = build_slot lease (of_nat n)" by (rule built_slot [OF b k])
    have "m = n" using m n eq(2) l small_of_nat_u32 [of m n] by (simp add: build_slot_def lease_for_def)
    with m n show ?thesis by simp
  next
    case False
    with new less eq jk live have "k \<notin> set (lease_slots lease)" by (metis less_irrefl)
    with False old jk live eq ok show ?thesis by (simp add: arena_ok_def links_ok_def)
  qed
qed


lemma built_keeps_leases:
  assumes "lease_for i g frame terminal a lease" and "frame_built frame lease a b"
    and "holds_lease m st a" and "st \<noteq> kFree"
  shows "holds_lease m st b"
proof -
  have "k \<in> set (lease_slots m) \<Longrightarrow> oa_slots b ! k = oa_slots a ! k" for k
    using lease_slot_generation(1,2) [OF assms(3), of k] assms(1,2,4)
    by (auto simp: lease_for_def frame_built_def)
  with assms(2) show ?thesis
    by (intro holds_lease_unchanged [OF assms(3)]) (simp_all add: frame_built_def)
qed

lemma covered_built:
  assumes ok: "arena_ok a" and l: "lease_for i g frame terminal a lease" and b: "frame_built frame lease a b"
  shows "covered b"
  unfolding covered_def
proof (intro allI impI)
  fix k assume "k < length (oa_slots b)" and live: "live_slot b k"
  then have k: "k < length (oa_slots a)" using b by (simp add: frame_built_def)
  show "\<exists>lease. lease_typed lease \<and> holds_lease lease (at_state (oa_slots b ! k)) b \<and>
      k \<in> set (lease_slots lease)"
  proof (cases "k \<in> set (lease_slots lease)")
    case True
    note h = built_holds [OF l b]
    from lease_slot_generation(2) [OF h True] h True l show ?thesis by (auto simp: lease_for_def)
  next
    case False
    with k b have same: "oa_slots b ! k = oa_slots a ! k" by (simp add: frame_built_def)
    with k live ok obtain m where m: "lease_typed m" "holds_lease m (at_state (oa_slots a ! k)) a"
      "k \<in> set (lease_slots m)" by (auto simp: arena_ok_def covered_def)
    with built_keeps_leases [OF l b m(2)] same live show ?thesis by auto
  qed
qed

lemma arena_ok_built:
  assumes "arena_ok a" and "lease_for i g frame terminal a lease" and "frame_built frame lease a b"
  shows "arena_ok b"
proof -
  have "sizes_ok b"
    using assms(1,3) by (simp add: arena_ok_def sizes_ok_def frame_built_def sequences_kept_def)
  moreover have "k < length (oa_slots b) \<Longrightarrow> slot_ok b k" for k
    using slot_ok_built [OF _ _ assms(2,3)] assms(1,3) by (simp add: arena_ok_def frame_built_def)
  ultimately show ?thesis
    using accounts_built [OF assms] links_built [OF assms] covered_built [OF assms]
    by (simp add: arena_ok_def)
qed

section \<open>Admission, and the invariant of every reachable arena\<close>

text \<open>Changes that leave slots and bytes alone, and the sequences that own slots.\<close>

definition slots_kept :: "OutputSlotArena \<Rightarrow> OutputSlotArena \<Rightarrow> bool" where
  "slots_kept a b \<longleftrightarrow>
     oa_limits b = oa_limits a \<and> oa_bytes b = oa_bytes a \<and> oa_slots b = oa_slots a \<and>
     oa_next_lease_generation a \<le> oa_next_lease_generation b \<and>
     length (oa_sequences b) = length (oa_sequences a) \<and>
     (\<forall>j<length (oa_sequences a). oa_sequences b ! j = oa_sequences a ! j \<or>
        as_dynamic_slots (oa_sequences b ! j) = 0 \<and>
        (\<forall>k<length (oa_slots a). live_slot a k \<longrightarrow> unat (at_sequence_slot (oa_slots a ! k)) \<noteq> j))"

lemma slots_kept_refl [simp]: "slots_kept a a"
  by (simp add: slots_kept_def)

lemma arena_ok_slots_kept:
  assumes ok: "arena_ok a" and k: "slots_kept a b"
  shows "arena_ok b"
proof -
  have lim: "oa_limits b = oa_limits a" "oa_bytes b = oa_bytes a"
    and slots: "oa_slots b = oa_slots a"
    and gen: "oa_next_lease_generation a \<le> oa_next_lease_generation b"
    and len: "length (oa_sequences b) = length (oa_sequences a)"
    and seqs: "\<And>j. j < length (oa_sequences a) \<Longrightarrow> oa_sequences b ! j = oa_sequences a ! j \<or>
      as_dynamic_slots (oa_sequences b ! j) = 0 \<and>
      (\<forall>k<length (oa_slots a). live_slot a k \<longrightarrow> unat (at_sequence_slot (oa_slots a ! k)) \<noteq> j)"
    using k by (simp_all add: slots_kept_def)
  have keep: "unat (at_sequence_slot (oa_slots a ! k)) < length (oa_sequences a) \<and>
      oa_sequences b ! unat (at_sequence_slot (oa_slots a ! k)) =
        oa_sequences a ! unat (at_sequence_slot (oa_slots a ! k))"
    if "k < length (oa_slots a)" "live_slot a k" for k
  proof -
    have "slot_ok a k" using ok that(1) by (simp add: arena_ok_def)
    with that(2) have "unat (at_sequence_slot (oa_slots a ! k)) < length (oa_sequences a)"
      by (simp add: slot_ok_def Let_def)
    with seqs [OF this] that show ?thesis by blast
  qed
  have "sizes_ok b" using ok lim slots len by (simp add: arena_ok_def sizes_ok_def backed_def)
  moreover have "slot_ok b k" if k: "k < length (oa_slots b)" for k
  proof -
    have "slot_ok a k" using ok k slots by (simp add: arena_ok_def)
    then show ?thesis using keep [of k] k lim slots len gen region_cong [OF lim]
      by (auto simp: slot_ok_def Let_def split: if_splits)
  qed
  moreover have "accounts_ok b"
    unfolding accounts_ok_def
  proof (intro allI impI)
    fix j assume "j < length (oa_sequences b)"
    then have j: "j < length (oa_sequences a)" using len by simp
    have owned: "owned_shared b j = owned_shared a j" by (simp add: owned_shared_def lim slots)
    from seqs [OF j] show "unat (as_dynamic_slots (oa_sequences b ! j)) = card (owned_shared b j) \<and>
        as_dynamic_slots (oa_sequences b ! j) \<le> al_per_sequence_dynamic_slots (oa_limits b)"
    proof
      assume "oa_sequences b ! j = oa_sequences a ! j"
      then show ?thesis using ok j owned lim by (simp add: arena_ok_def accounts_ok_def)
    next
      assume e: "as_dynamic_slots (oa_sequences b ! j) = 0 \<and>
        (\<forall>k<length (oa_slots a). live_slot a k \<longrightarrow> unat (at_sequence_slot (oa_slots a ! k)) \<noteq> j)"
      moreover have "k < unat (al_shared_delta_slots (oa_limits a)) \<Longrightarrow> k < length (oa_slots a)" for k
        using ok by (simp add: arena_ok_def sizes_ok_def)
      ultimately have none: "owned_shared a j = {}" by (auto simp: owned_shared_def)
      with e owned show ?thesis by simp
    qed
  qed
  moreover have "links_ok b" using ok slots by (simp add: arena_ok_def links_ok_def)
  moreover have "covered b"
    unfolding covered_def
  proof (intro allI impI)
    fix k assume k: "k < length (oa_slots b)" and live: "live_slot b k"
    then obtain m where m: "lease_typed m" "holds_lease m (at_state (oa_slots a ! k)) a"
      "k \<in> set (lease_slots m)" using ok slots by (auto simp: arena_ok_def covered_def)
    have "at_sequence_slot (oa_slots a ! k) = fl_sequence_slot m"
      using lease_slot_generation(4) [OF m(2,3)] .
    with keep [of k] k live slots have "oa_sequences b ! unat (fl_sequence_slot m) =
        oa_sequences a ! unat (fl_sequence_slot m)" by simp
    with m(2) slots len have "holds_lease m (at_state (oa_slots b ! k)) b"
      by (auto simp: holds_lease_def sequence_stale_def slot_matches_def)
    with m show "\<exists>lease. lease_typed lease \<and> holds_lease lease (at_state (oa_slots b ! k)) b \<and>
        k \<in> set (lease_slots lease)" by blast
  qed
  ultimately show ?thesis by (simp add: arena_ok_def)
qed


lemma slots_kept_admit:
  assumes ok: "arena_ok a" and "admit g a = (r, b)"
  shows "slots_kept a b"
proof (cases "b = a")
  case False
  with assms(2) obtain i where i: "find_index (\<lambda>s. \<not> as_admitted s) (oa_sequences a) = Some i"
    and b: "b = a\<lparr>oa_sequences := (oa_sequences a)
      [i := \<lparr>as_admitted = True, as_generation = g, as_dynamic_slots = 0\<rparr>]\<rparr>"
    by (auto simp: admit_def split: if_splits option.splits)
  have none: "\<not> as_admitted (oa_sequences a ! i)" using find_index_SomeD [OF i] by simp
  have "unat (at_sequence_slot (oa_slots a ! k)) \<noteq> i" if "k < length (oa_slots a)" "live_slot a k" for k
  proof -
    have "slot_ok a k" using ok that(1) by (simp add: arena_ok_def)
    with that(2) none show ?thesis by (auto simp: slot_ok_def Let_def)
  qed
  with find_index_SomeD [OF i] show ?thesis by (auto simp: slots_kept_def b nth_list_update)
qed simp

lemma slots_kept_release:
  assumes "release_sequence i g a = (e, b)"
  shows "slots_kept a b"
proof (cases "b = a")
  case False
  with assms have b: "b = a\<lparr>oa_sequences := (oa_sequences a)[unat i := default_arena_sequence]\<rparr>"
    and none: "\<forall>slot\<in>set (oa_slots a). at_state slot \<noteq> kFree \<longrightarrow> at_sequence_slot slot \<noteq> i"
    and "unat i < length (oa_sequences a)"
    by (auto simp: release_sequence_def sequence_stale_def split: if_splits)
  moreover have "unat (at_sequence_slot (oa_slots a ! k)) \<noteq> unat i" if "k < length (oa_slots a)" "live_slot a k" for k
    using none that nth_mem by (metis word_unat_eq_iff)
  ultimately show ?thesis by (auto simp: slots_kept_def nth_list_update default_arena_sequence_def)
qed simp

lemma slots_kept_next_lease:
  "oa_next_lease_generation a \<noteq> UINT64_MAX \<Longrightarrow> slots_kept a (next_lease a)"
  using word_less_self_Suc [of "oa_next_lease_generation a"] by (simp add: slots_kept_def)

lemma slot_step_effect:
  assumes "slot_step a b" and ok: "arena_ok a"
  obtains (kept) "slots_kept a b"
  | (moved) lease st st' where "holds_lease lease st a" "st \<noteq> kFree" "st' \<noteq> kFree" "relabelled lease st' a b"
  | (returned) lease st where "holds_lease lease st a" "st \<noteq> kFree" "b = give_back lease a"
  | (built) i g frame terminal lease where "lease_for i g frame terminal a lease" "frame_built frame lease a b"
proof -
  have sizes: "sizes_ok a" using ok by (simp add: arena_ok_def)
  have relabel: thesis if "b = transition lease st' a" "holds_lease lease st a" "st \<noteq> kFree" "st' \<noteq> kFree"
    for lease st st'
    using that moved relabelled_transition by blast
  show ?thesis
    using assms(1)
  proof cases
    case (step_admit_sequence g r)
    then show ?thesis using slots_kept_admit [OF ok] kept by blast
  next
    case (step_release_sequence i g e)
    then show ?thesis using slots_kept_release kept by blast
  next
    case (step_reserve i g frame terminal r)
    show ?thesis
      by (rule reserve_frame_cases [OF sizes step_reserve(2,1)])
        (use kept built slots_kept_next_lease in auto)
  next
    case (step_abort lease e)
    then show ?thesis using validate_iff kept returned [of lease kBuildOwned]
      by (auto simp: abort_build_def Let_def split: if_splits)
  next
    case (step_publish lease e)
    then show ?thesis using validate_iff kept relabel [where lease = lease and st = kBuildOwned and st' = kWriterOwned]
      by (auto simp: publish_frame_def Let_def split: if_splits)
  next
    case (step_advance lease n e)
    from relabelled_advance [OF this] show ?thesis using kept moved by (metis OutputSlotState.distinct(3,7) insert_iff singletonD slots_kept_refl)
  next
    case (step_orphan lease e)
    then show ?thesis using validate_iff kept relabel [where lease = lease and st = kWriterOwned and st' = kOrphanDrain]
      by (auto simp: orphan_def Let_def split: if_splits)
  next
    case (step_finish lease e)
    then show ?thesis using validate_iff kept relabel [where lease = lease and st = kOrphanDrain and st' = kScrubPending]
      by (auto simp: finish_orphan_def Let_def split: if_splits)
  next
    case (step_scrub lease e)
    then show ?thesis using validate_iff kept returned [of lease kScrubPending]
      by (auto simp: scrub_def Let_def split: if_splits)
  qed
qed

lemma slot_arena_ok_step: "arena_ok a \<Longrightarrow> slot_step a b \<Longrightarrow> arena_ok b"
  by (erule slot_step_effect)
    (auto intro: arena_ok_slots_kept arena_ok_relabelled arena_ok_give_back arena_ok_built)


lemma created_sizes:
  assumes "slot_arena_Create allocates limits = Inr a"
  obtains n where "a = slot_arena_new limits (replicate (n * unat (al_slot_bytes limits)) 0)"
    "n = unat (al_shared_delta_slots limits) +
       unat (al_maximum_sequences limits) * unat (al_terminal_slots_per_sequence limits)"
    "n < 2 ^ 32" "al_slot_bytes limits \<noteq> 0" "al_maximum_chain_slots limits \<le> 64"
    "al_shared_delta_slots limits \<noteq> 0" "al_terminal_slots_per_sequence limits \<noteq> 0"
proof -
  let ?s = "al_shared_delta_slots limits" and ?m = "al_maximum_sequences limits"
    and ?t = "al_terminal_slots_per_sequence limits" and ?w = "al_slot_bytes limits"
  from assms obtain x y z where x: "checked_mul_u64 (ucast ?m) (ucast ?t) = Inr x"
    and y: "checked_add_u64 (ucast ?s) x = Inr y" and lt: "\<not> y > ucast UINT32_MAX"
    and z: "checked_mul_u64 y (ucast ?w) = Inr z"
    and a: "a = slot_arena_new limits (replicate (unat z) 0)"
    and l: "?w \<noteq> 0" "al_maximum_chain_slots limits \<le> 64" "?s \<noteq> 0" "?t \<noteq> 0"
    by (auto simp: slot_arena_Create_def split: if_splits sum.splits)
  have n: "unat y = unat ?s + unat ?m * unat ?t"
    using x y by (simp add: checked_mul_u64_Inr_iff checked_add_u64_Inr_iff)
  have "unat y \<le> unat (ucast UINT32_MAX :: u64)" using lt by (simp add: word_less_nat_alt)
  then have "unat y < 2 ^ 32" using unat_lt_u32 [of UINT32_MAX] by (simp only: unat_ucast_u32_u64)
  moreover have "unat z = unat y * unat ?w" using z by (simp add: checked_mul_u64_Inr_iff)
  ultimately show thesis using that [of "unat y"] n a l by simp
qed

lemma arena_ok_init: "slot_arena_init a \<Longrightarrow> arena_ok a"
proof -
  assume "slot_arena_init a"
  then obtain allocates limits where "slot_arena_Create allocates limits = Inr a"
    by (auto simp: slot_arena_init_def)
  then obtain n where a: "a = slot_arena_new limits (replicate (n * unat (al_slot_bytes limits)) 0)"
    and n: "n = unat (al_shared_delta_slots limits) +
       unat (al_maximum_sequences limits) * unat (al_terminal_slots_per_sequence limits)"
    and lt: "n < 2 ^ 32" and l: "al_slot_bytes limits \<noteq> 0" "al_maximum_chain_slots limits \<le> 64"
    by (rule created_sizes)
  have len: "length (oa_slots a) = n"
    using n lt by (simp add: a slot_arena_new_def unat_word_ariths)
  have limits: "oa_limits a = limits" by (simp add: a slot_arena_new_def)
  have slot: "k < n \<Longrightarrow> oa_slots a ! k = default_arena_slot" for k
    using len by (simp add: a slot_arena_new_def)
  have free: "k < n \<Longrightarrow> \<not> live_slot a k" for k by (simp add: slot default_arena_slot_def)
  have "sizes_ok a"
    unfolding sizes_ok_def backed_def len limits using n lt l by (simp add: a slot_arena_new_def)
  moreover have "slot_ok a k" if "k < n" for k
  proof -
    have "Suc k * unat (al_slot_bytes limits) \<le> n * unat (al_slot_bytes limits)"
      using that by (intro mult_le_mono1) simp
    then have "region a k = replicate (unat (al_slot_bytes limits)) 0"
      by (simp add: region_def a slot_arena_new_def)
    with slot [OF that] free [OF that] show ?thesis by (simp add: slot_ok_def limits)
  qed
  moreover have "owned_shared a i = {}" for i
    using free n by (auto simp: owned_shared_def limits)
  then have "accounts_ok a"
    by (auto simp: accounts_ok_def a slot_arena_new_def default_arena_sequence_def)
  moreover have "links_ok a" "covered a" using free len by (simp_all add: links_ok_def covered_def)
  ultimately show ?thesis by (simp add: arena_ok_def len)
qed

interpretation frames: inductive_invariant slot_arena_init slot_step arena_ok
  by unfold_locales (auto intro: arena_ok_init slot_arena_ok_step)

section \<open>The life of a frame\<close>

text \<open>What the writer reads: of each slot of the chain as much as belongs to the frame.\<close>

definition stored_frame :: "OutputFrameLease \<Rightarrow> OutputSlotArena \<Rightarrow> u8 list" where
  "stored_frame lease a =
     concat (map (\<lambda>m. take (unat (fl_frame_bytes lease) - m * unat (al_slot_bytes (oa_limits a)))
         (region a (lease_slots lease ! m))) [0..<length (lease_slots lease)])"

lemma stored_frame_cong:
  assumes "oa_limits b = oa_limits a"
    and "\<And>k. k \<in> set (lease_slots lease) \<Longrightarrow> region b k = region a k"
  shows "stored_frame lease b = stored_frame lease a"
  unfolding stored_frame_def assms(1) by (intro arg_cong [of _ _ concat] map_cong) (simp_all add: assms(2))

lemma stored_frame_built:
  assumes l: "lease_for i g frame terminal a lease" and b: "frame_built frame lease a b" and "sizes_ok a"
  shows "stored_frame lease b = frame"
proof -
  let ?w = "unat (al_slot_bytes (oa_limits a))" and ?n = "length (lease_slots lease)"
  have w: "0 < ?w" using assms(3) by (simp add: sizes_ok_def unat_gt_0_word)
  have "take (length frame - m * ?w) (region b (lease_slots lease ! m)) = piece a frame m" if "m < ?n" for m
  proof -
    have "lease_slots lease ! m < length (oa_slots a)" "backed a"
      using l that assms(3) by (simp_all add: lease_for_def sizes_ok_def)
    from slot_fits [OF this(2,1)] have "length (region a (lease_slots lease ! m)) = ?w"
      by (simp add: region_def)
    moreover have "region b (lease_slots lease ! m) =
        piece a frame m @ drop (length (piece a frame m)) (region a (lease_slots lease ! m))"
      using b that by (simp add: frame_built_def)
    ultimately show ?thesis
      by (cases "?w \<le> length frame - m * ?w") (simp_all add: piece_def min_def)
  qed
  then have "stored_frame lease b = concat (map (piece a frame) [0..<?n])"
    using l b unfolding stored_frame_def
    by (intro arg_cong [of _ _ concat] map_cong) (simp_all add: lease_for_def frame_built_def)
  then have "stored_frame lease b = take (?n * ?w) frame" by (simp only: concat_pieces)
  moreover have "length frame \<le> ?n * ?w"
  proof -
    have "?n = Suc ((length frame - 1) div ?w)" using l by (simp add: lease_for_def)
    then have "length frame - 1 < ?n * ?w" using w dividend_less_div_times [of ?w "length frame - 1"] by simp
    then show ?thesis by linarith
  qed
  ultimately show ?thesis by simp
qed


text \<open>A lease number that no slot carries any more, and that is never issued again.\<close>

definition retired :: "OutputFrameLease \<Rightarrow> OutputSlotArena \<Rightarrow> bool" where
  "retired lease a \<longleftrightarrow> fl_lease_generation lease < oa_next_lease_generation a \<and>
     (\<forall>k<length (oa_slots a). live_slot a k \<longrightarrow>
        at_lease_generation (oa_slots a ! k) \<noteq> fl_lease_generation lease)"

lemma chain_of_generation:
  assumes "arena_ok a" and l: "holds_lease lease st a" "st \<noteq> kFree"
    and k: "k < length (oa_slots a)" "live_slot a k"
    and g: "at_lease_generation (oa_slots a ! k) = fl_lease_generation lease"
  shows "k \<in> set (lease_slots lease)"
proof -
  obtain m where m: "holds_lease m (at_state (oa_slots a ! k)) a" "k \<in> set (lease_slots m)"
    using assms(1) k by (auto simp: arena_ok_def covered_def)
  have "links_ok a" using assms(1) by (simp add: arena_ok_def)
  from same_lease(1) [OF this l m(1) k(2)] lease_slot_generation(3) [OF m] g m(2) show ?thesis by simp
qed

lemma retired_give_back:
  assumes ok: "arena_ok a" and h: "holds_lease lease st a" "st \<noteq> kFree"
  shows "retired lease (give_back lease a)"
proof -
  have "backed a" using ok by (simp add: arena_ok_def sizes_ok_def)
  note r = give_back_result [OF this h(1)]
  obtain k where k: "k \<in> set (lease_slots lease)" using head_in_chain(2) [OF h(1)] by blast
  note slot = lease_slot_generation [OF h(1) k]
  with ok have "slot_ok a k" by (simp add: arena_ok_def)
  with slot h(2) have "fl_lease_generation lease < oa_next_lease_generation a"
    by (simp add: slot_ok_def Let_def)
  moreover have "at_lease_generation (oa_slots (give_back lease a) ! j) \<noteq> fl_lease_generation lease"
    if "j < length (oa_slots a)" "live_slot (give_back lease a) j" for j
    using chain_of_generation [OF ok h that(1)] r that
    by (cases "j \<in> set (lease_slots lease)") (auto simp: default_arena_slot_def)
  ultimately show ?thesis using r by (simp add: retired_def)
qed

lemma retired_step:
  assumes "slot_step a b" and ok: "arena_ok a" and r: "retired lease a"
  shows "retired lease b"
proof (rule slot_step_effect [OF assms(1) ok])
  assume "slots_kept a b"
  with r show ?thesis by (auto simp: retired_def slots_kept_def)
next
  fix m st st'
  assume m: "holds_lease m st a" "st \<noteq> kFree" "st' \<noteq> kFree" "relabelled m st' a b"
  then have "length (oa_slots b) = length (oa_slots a)"
    "oa_next_lease_generation b = oa_next_lease_generation a" by (simp_all add: relabelled_def)
  with r relabelled_slot(1,3) [OF m(4,1-3)] show ?thesis by (simp add: retired_def)
next
  fix m st assume m: "holds_lease m st a" "st \<noteq> kFree" "b = give_back m a"
  have "backed a" using ok by (simp add: arena_ok_def sizes_ok_def)
  from give_back_result [OF this m(1)] r m(3) show ?thesis
    by (auto simp: retired_def default_arena_slot_def split: if_splits)
next
  fix i g frame terminal m assume m: "lease_for i g frame terminal a m" "frame_built frame m a b"
  have "at_lease_generation (oa_slots b ! k) \<noteq> fl_lease_generation lease"
    if "k < length (oa_slots a)" "live_slot b k" for k
  proof (cases "k \<in> set (lease_slots m)")
    case True
    then obtain n where "oa_slots b ! k = build_slot m (of_nat n)" using built_slot [OF m(2)] by metis
    then show ?thesis using r m(1) by (auto simp: build_slot_def lease_for_def retired_def)
  next
    case False
    then show ?thesis using r m(2) that by (simp add: retired_def frame_built_def)
  qed
  moreover have "oa_next_lease_generation a \<noteq> UINT64_MAX" using m(1) by (simp add: lease_for_def)
  ultimately show ?thesis using r m(2) word_less_Suc by (simp add: retired_def frame_built_def)
qed

lemma retired_not_held:
  assumes "retired lease a" and "st \<noteq> kFree"
  shows "\<not> holds_lease lease st a"
proof
  assume h: "holds_lease lease st a"
  from lease_slot_generation [OF h head_in_chain(2) [OF h]] assms show False by (auto simp: retired_def)
qed

lemma slots_kept_holds:
  assumes k: "slots_kept a b" and l: "holds_lease lease st a" "st \<noteq> kFree"
  shows "holds_lease lease st b"
proof -
  obtain j where j: "j \<in> set (lease_slots lease)" using head_in_chain(2) [OF l(1)] by blast
  have i: "unat (fl_sequence_slot lease) < length (oa_sequences a)"
    using l(1) by (simp add: holds_lease_def sequence_stale_def)
  with k have "oa_sequences b ! unat (fl_sequence_slot lease) = oa_sequences a ! unat (fl_sequence_slot lease) \<or>
      (\<forall>k<length (oa_slots a). live_slot a k \<longrightarrow>
         unat (at_sequence_slot (oa_slots a ! k)) \<noteq> unat (fl_sequence_slot lease))"
    unfolding slots_kept_def by blast
  with lease_slot_generation [OF l(1) j] l(2)
  have "oa_sequences b ! unat (fl_sequence_slot lease) = oa_sequences a ! unat (fl_sequence_slot lease)"
    by auto
  with k l(1) show ?thesis
    by (auto simp: slots_kept_def holds_lease_def sequence_stale_def slot_matches_def)
qed

text \<open>A frame in flight: its lease holds and its bytes are the ones that were written.\<close>

definition in_flight :: "u8 list \<Rightarrow> OutputFrameLease \<Rightarrow> OutputSlotArena \<Rightarrow> bool" where
  "in_flight frame lease a \<longleftrightarrow>
     (\<exists>st. st \<noteq> kFree \<and> holds_lease lease st a) \<and> stored_frame lease a = frame"

lemma in_flight_step:
  assumes "slot_step a b" and ok: "arena_ok a" and f: "in_flight frame lease a"
  shows "in_flight frame lease b \<or> retired lease b"
proof -
  obtain st where l: "holds_lease lease st a" "st \<noteq> kFree" and bytes: "stored_frame lease a = frame"
    using f by (auto simp: in_flight_def)
  have links: "links_ok a" and "backed a" using ok by (simp_all add: arena_ok_def sizes_ok_def)
  show ?thesis
  proof (rule slot_step_effect [OF assms(1) ok])
    assume k: "slots_kept a b"
    note slots_kept_holds [OF k l]
    moreover have "stored_frame lease b = stored_frame lease a"
      using k by (intro stored_frame_cong region_cong) (simp_all add: slots_kept_def)
    ultimately show ?thesis using bytes l(2) by (auto simp: in_flight_def)
  next
    fix m s s' assume m: "holds_lease m s a" "s \<noteq> kFree" "s' \<noteq> kFree" "relabelled m s' a b"
    have "stored_frame lease b = stored_frame lease a"
      using m(4) by (intro stored_frame_cong region_cong) (simp_all add: relabelled_def)
    with relabelled_holds [OF m(4,1,2) l links] bytes l(2) m(3) show ?thesis
      by (auto simp: in_flight_def split: if_splits)
  next
    fix m s assume m: "holds_lease m s a" "s \<noteq> kFree" "b = give_back m a"
    note r = give_back_result [OF \<open>backed a\<close> m(1)]
    show ?thesis
    proof (cases "fl_lease_generation lease = fl_lease_generation m")
      case True
      with retired_give_back [OF ok m(1,2)] m(3) show ?thesis by (simp add: retired_def)
    next
      case False
      then have out: "k \<in> set (lease_slots lease) \<Longrightarrow> k \<notin> set (lease_slots m)" for k
        using other_lease_disjoint [OF m(1) l(1)] by blast
      with r lease_slot_generation(1) [OF l(1)] have "holds_lease lease st b"
        unfolding m(3) by (intro holds_lease_unchanged [OF l(1)]) simp_all
      moreover have "stored_frame lease b = stored_frame lease a"
        using r out lease_slot_generation(1) [OF l(1)] unfolding m(3) by (intro stored_frame_cong) simp_all
      ultimately show ?thesis using bytes l(2) by (auto simp: in_flight_def)
    qed
  next
    fix i g fr t m assume m: "lease_for i g fr t a m" "frame_built fr m a b"
    have "k \<in> set (lease_slots lease) \<Longrightarrow> region b k = region a k" for k
      using m lease_slot_generation(1,2) [OF l(1), of k] l(2) by (auto simp: lease_for_def frame_built_def)
    with m(2) have "stored_frame lease b = stored_frame lease a"
      by (intro stored_frame_cong) (simp_all add: frame_built_def)
    with built_keeps_leases [OF m l] bytes l(2) show ?thesis by (auto simp: in_flight_def)
  qed
qed


lemma frame_run:
  assumes "slot_step\<^sup>*\<^sup>* a b" and "arena_ok a" and "in_flight frame lease a \<or> retired lease a"
  shows "arena_ok b \<and> (in_flight frame lease b \<or> retired lease b)"
  using assms
proof (induction rule: rtranclp_induct)
  case base
  then show ?case by simp
next
  case (step b c)
  then show ?case using slot_arena_ok_step in_flight_step retired_step by blast
qed

lemma retired_run:
  assumes "slot_step\<^sup>*\<^sup>* a b" and "arena_ok a" and "retired lease a"
  shows "retired lease b"
proof -
  from assms have "arena_ok b \<and> retired lease b"
  proof (induction rule: rtranclp_induct)
    case base
    then show ?case by simp
  next
    case (step b c)
    then show ?case using slot_arena_ok_step retired_step by blast
  qed
  then show ?thesis by simp
qed

lemma terminal_ranges_apart:
  "in_range limits i True k \<Longrightarrow> in_range limits j True k \<Longrightarrow> i = j"
  using blocks_apart [of i j "unat (al_terminal_slots_per_sequence limits)"]
  by (cases "i = j") (auto simp: in_range_def)

lemma terminal_slots_free:
  assumes ok: "arena_ok a" and i: "unat i < length (oa_sequences a)"
    and none: "\<forall>slot\<in>set (oa_slots a). at_state slot \<noteq> kFree \<longrightarrow> at_terminal slot \<longrightarrow> at_sequence_slot slot \<noteq> i"
    and k: "in_range (oa_limits a) (unat i) True k"
  shows "\<not> live_slot a k"
proof
  assume live: "live_slot a k"
  have sizes: "sizes_ok a" using ok by (simp add: arena_ok_def)
  have lt: "k < length (oa_slots a)" by (rule range_bounds(2) [OF sizes i k])
  with ok have "slot_ok a k" by (simp add: arena_ok_def)
  with live have r: "in_range (oa_limits a) (unat (at_sequence_slot (oa_slots a ! k))) (at_terminal (oa_slots a ! k)) k"
    by (simp add: slot_ok_def Let_def)
  with in_range_shared [OF k] in_range_shared [OF r] have t: "at_terminal (oa_slots a ! k)" by simp
  with r terminal_ranges_apart [OF k] have "at_sequence_slot (oa_slots a ! k) = i"
    by (simp add: word_unat_eq_iff)
  with none live t nth_mem [OF lt] show False by blast
qed

lemma div_bound: "0 < w \<Longrightarrow> 0 < n \<Longrightarrow> n \<le> c * w \<Longrightarrow> Suc ((n - 1) div w) \<le> c" for n c w :: nat
  using div_less_iff_less_mult [of w "n - 1" c] by linarith

lemma terminal_reserve_granted:
  assumes ok: "arena_ok a" and fresh: "\<not> sequence_stale i g a"
    and none: "\<forall>slot\<in>set (oa_slots a). at_state slot \<noteq> kFree \<longrightarrow> at_terminal slot \<longrightarrow> at_sequence_slot slot \<noteq> i"
    and frame: "frame \<noteq> []" "length frame < 2 ^ 64"
    and t: "length frame \<le> unat (al_terminal_slots_per_sequence (oa_limits a)) * unat (al_slot_bytes (oa_limits a))"
    and c: "length frame \<le> unat (al_maximum_chain_slots (oa_limits a)) * unat (al_slot_bytes (oa_limits a))"
    and gen: "oa_next_lease_generation a \<noteq> UINT64_MAX"
  shows "reserve_granted i g frame True a"
proof -
  let ?c = "frame_slot_count frame a"
  have sizes: "sizes_ok a" using ok by (simp add: arena_ok_def)
  then have w: "0 < unat (al_slot_bytes (oa_limits a))" "al_slot_bytes (oa_limits a) \<noteq> 0"
    by (simp_all add: sizes_ok_def unat_gt_0_word)
  have i: "unat i < length (oa_sequences a)" using fresh by (simp add: sequence_stale_def)
  note count = unat_frame_slot_count [OF frame w(2)]
  have ct: "unat ?c \<le> unat (al_terminal_slots_per_sequence (oa_limits a))"
    and cc: "unat ?c \<le> unat (al_maximum_chain_slots (oa_limits a))"
    unfolding count using div_bound [OF w(1) _ t] div_bound [OF w(1) _ c] frame(1) by simp_all
  let ?b = "unat (range_begin i True (oa_limits a))" and ?e = "unat (range_end i True (oa_limits a))"
  have "k \<in> {?b..<?e} \<Longrightarrow> \<not> live_slot a k" for k
    using terminal_slots_free [OF ok i none] range_bounds(1) [OF sizes i] by blast
  then have all: "filter (\<lambda>k. at_state (oa_slots a ! k) = kFree) [?b..<?e] = [?b..<?e]"
    by (intro filter_True) simp
  have "{?b..<?e} = {k. in_range (oa_limits a) (unat i) True k}"
    using range_bounds(1) [OF sizes i] by blast
  also have "\<dots> = {unat (al_shared_delta_slots (oa_limits a)) + unat i * unat (al_terminal_slots_per_sequence (oa_limits a))..<
      unat (al_shared_delta_slots (oa_limits a)) + Suc (unat i) * unat (al_terminal_slots_per_sequence (oa_limits a))}"
    by (auto simp: in_range_def)
  finally have "card {?b..<?e} = unat (al_terminal_slots_per_sequence (oa_limits a))" by simp
  then have "length (found_slots i ?c True a) = unat ?c"
    unfolding found_slots_def all using ct by simp
  moreover have "?c \<noteq> 0" using count by (metis nat.distinct(1) unat_0)
  ultimately show ?thesis
    using fresh frame(1) gen ct cc
    by (simp add: reserve_granted_def exceeds_envelope_def word_less_nat_alt)
qed


section \<open>Properties\<close>

text \<open> C28. In every reachable arena a free slot is blank and its bytes are zero, so nothing of an
  earlier frame can be read from it. An occupied slot belongs to an admitted sequence, lies in the
  range that sequence may use and is on the chain of a lease that is still valid, so it can be given
  back. Each sequence's dynamic count is the number of shared slots it occupies and is within its
  limit.\<close>

theorem slot_arena_invariant:
  assumes "reachable slot_arena_init slot_step a"
  shows "(\<forall>k<length (oa_slots a).
      (at_state (oa_slots a ! k) = kFree \<longrightarrow> oa_slots a ! k = default_arena_slot \<and>
         region a k = replicate (unat (al_slot_bytes (oa_limits a))) 0) \<and>
      (at_state (oa_slots a ! k) \<noteq> kFree \<longrightarrow>
         as_admitted (oa_sequences a ! unat (at_sequence_slot (oa_slots a ! k))) \<and>
         in_range (oa_limits a) (unat (at_sequence_slot (oa_slots a ! k))) (at_terminal (oa_slots a ! k)) k \<and>
         (\<exists>lease. lease_typed lease \<and> ok (lease_validate lease (at_state (oa_slots a ! k)) a) \<and>
            k \<in> set (lease_slots lease)))) \<and>
    (\<forall>i<length (oa_sequences a).
       unat (as_dynamic_slots (oa_sequences a ! i)) = card (owned_shared a i) \<and>
       as_dynamic_slots (oa_sequences a ! i) \<le> al_per_sequence_dynamic_slots (oa_limits a))"
proof -
  have ok: "arena_ok a" by (rule frames.holds_when_reachable [OF assms])
  then have slot: "k < length (oa_slots a) \<Longrightarrow> slot_ok a k" for k by (simp add: arena_ok_def)
  have lease: "\<exists>lease. lease_typed lease \<and> ok (lease_validate lease (at_state (oa_slots a ! k)) a) \<and>
      k \<in> set (lease_slots lease)"
    if "k < length (oa_slots a)" "live_slot a k" for k
  proof -
    have "covered a" using ok by (simp add: arena_ok_def)
    with that obtain lease where "lease_typed lease" "holds_lease lease (at_state (oa_slots a ! k)) a"
      "k \<in> set (lease_slots lease)" by (auto simp: covered_def)
    then show ?thesis using validate_iff by blast
  qed
  have free: "oa_slots a ! k = default_arena_slot \<and>
      region a k = replicate (unat (al_slot_bytes (oa_limits a))) 0"
    if "k < length (oa_slots a)" "at_state (oa_slots a ! k) = kFree" for k
    using slot [OF that(1)] that(2) by (simp add: slot_ok_def)
  have live: "as_admitted (oa_sequences a ! unat (at_sequence_slot (oa_slots a ! k))) \<and>
      in_range (oa_limits a) (unat (at_sequence_slot (oa_slots a ! k))) (at_terminal (oa_slots a ! k)) k"
    if "k < length (oa_slots a)" "live_slot a k" for k
    using slot [OF that(1)] that(2) by (simp add: slot_ok_def Let_def)
  have "accounts_ok a" using ok by (simp add: arena_ok_def)
  with free live lease show ?thesis unfolding accounts_ok_def by blast
qed

text \<open> C29. The bytes of a reserved frame are intact for as long as its lease is valid: whatever
  operations are performed on the arena in between, by this sequence or by others, the chain of the
  lease holds exactly the frame that was written.\<close>

theorem frame_stays_intact:
  assumes "reachable slot_arena_init slot_step a" and "length frame < 2 ^ 64"
    and "reserve_frame index generation frame terminal a = (Inr lease, b)"
    and "slot_step\<^sup>*\<^sup>* b c" and "ok (lease_validate lease st c)" and "st \<noteq> kFree"
  shows "stored_frame lease c = frame"
proof -
  have ok: "arena_ok a" by (rule frames.holds_when_reachable [OF assms(1)])
  then have sizes: "sizes_ok a" by (simp add: arena_ok_def)
  obtain l: "lease_for index generation frame terminal a lease" and b: "frame_built frame lease a b"
    by (rule reserve_frame_cases [OF sizes assms(2,3)]) simp_all
  have "in_flight frame lease b"
    unfolding in_flight_def using built_holds [OF l b] stored_frame_built [OF l b sizes]
    by (intro conjI exI [of _ kBuildOwned]) simp_all
  then have "in_flight frame lease c \<or> retired lease c"
    using frame_run [OF assms(4) arena_ok_built [OF ok l b]] by blast
  moreover have "lease_typed lease" using l by (simp add: lease_for_def)
  ultimately show ?thesis
    using assms(5,6) validate_iff retired_not_held by (auto simp: in_flight_def)
qed

text \<open> C30. The terminal slots of a sequence cannot be used up by anyone else: an admitted sequence
  with no terminal frame outstanding can reserve one that fits its terminal slots and the chain
  limit, however full the shared slots are, as long as the 64-bit lease generation has not run
  out.\<close>

theorem terminal_frame_always_fits:
  assumes "reachable slot_arena_init slot_step a"
    and "\<not> sequence_stale index generation a"
    and "\<forall>slot\<in>set (oa_slots a). at_state slot \<noteq> kFree \<longrightarrow> at_terminal slot \<longrightarrow> at_sequence_slot slot \<noteq> index"
    and "frame \<noteq> []" and "length frame < 2 ^ 64"
    and "length frame \<le> unat (al_terminal_slots_per_sequence (oa_limits a)) * unat (al_slot_bytes (oa_limits a))"
    and "length frame \<le> unat (al_maximum_chain_slots (oa_limits a)) * unat (al_slot_bytes (oa_limits a))"
    and "oa_next_lease_generation a \<noteq> UINT64_MAX"
  shows "\<exists>lease b. reserve_frame index generation frame True a = (Inr lease, b) \<and>
    stored_frame lease b = frame"
proof -
  have ok: "arena_ok a" by (rule frames.holds_when_reachable [OF assms(1)])
  then have sizes: "sizes_ok a" by (simp add: arena_ok_def)
  have g: "reserve_granted index generation frame True a"
    by (rule terminal_reserve_granted [OF ok assms(2-8)])
  obtain b where r: "reserve_frame index generation frame True a =
      (Inr (granted_lease index generation frame True a), b)"
    using reserve_frame_outcome(1) [OF g] by blast
  from stored_frame_built [OF granted_lease_for(1) [OF sizes assms(5) g]
      frame_built_granted [OF sizes assms(5) g r] sizes] r
  show ?thesis by blast
qed

text \<open> C31. Once a frame has been scrubbed, or aborted before it was published, no later state of the
  arena accepts its lease again, whatever is admitted, reserved and released in between.\<close>

theorem spent_frame_lease_stays_dead:
  assumes "reachable slot_arena_init slot_step a" and "lease_typed lease"
    and "scrub lease a = (Ok, b) \<or> abort_build lease a = (Ok, b)"
    and "slot_step\<^sup>*\<^sup>* b c" and "st \<noteq> kFree"
  shows "\<not> ok (lease_validate lease st c)"
proof -
  have ok: "arena_ok a" by (rule frames.holds_when_reachable [OF assms(1)])
  from assms(3) obtain s where "ok (lease_validate lease s a)" "s \<noteq> kFree" and b: "b = give_back lease a"
    by (auto simp: scrub_def abort_build_def Let_def split: if_splits)
  then have h: "holds_lease lease s a" "s \<noteq> kFree" using validate_iff [OF assms(2)] by simp_all
  have "retired lease c"
    using retired_run [OF assms(4)] arena_ok_give_back [OF ok h] retired_give_back [OF ok h] b by simp
  then show ?thesis using retired_not_held [OF _ assms(5)] validate_iff [OF assms(2)] by simp
qed

section \<open>Examples\<close>

definition example_slot_limits :: OutputSlotArenaLimits where
  "example_slot_limits =
     \<lparr>al_maximum_sequences = 2, al_shared_delta_slots = 2, al_terminal_slots_per_sequence = 1,
      al_slot_bytes = 2, al_maximum_chain_slots = 2, al_per_sequence_dynamic_slots = 2\<rparr>"

definition example_slot_arena :: OutputSlotArena where
  "example_slot_arena = snd (admit 7 (slot_arena_new example_slot_limits (replicate 8 0)))"

definition example_frame :: "u8 list" where
  "example_frame = [1, 2, 3]"

definition example_frame_lease :: OutputFrameLease where
  "example_frame_lease = granted_lease 0 7 example_frame False example_slot_arena"

definition example_reserved :: OutputSlotArena where
  "example_reserved = snd (reserve_frame 0 7 example_frame False example_slot_arena)"

lemma example_evaluated:
  "slot_arena_Create True example_slot_limits = Inr (slot_arena_new example_slot_limits (replicate 8 0)) \<and>
   reserve_granted 0 7 example_frame False example_slot_arena \<and>
   lease_validate example_frame_lease kBuildOwned example_reserved = Ok \<and>
   ok (lease_validate example_frame_lease kWriterOwned
     (transition example_frame_lease kWriterOwned example_reserved)) \<and>
   lease_typed example_frame_lease \<and> 0 < length (oa_sequences example_slot_arena) \<and>
   unat (as_dynamic_slots (oa_sequences example_slot_arena ! 0)) = 0 \<and>
   \<not> sequence_stale 0 7 example_slot_arena \<and>
   list_all (\<lambda>slot. at_state slot = kFree) (oa_slots example_slot_arena) \<and>
   oa_limits example_slot_arena = example_slot_limits \<and>
   oa_next_lease_generation example_slot_arena = 1"
  by code_simp

lemma example_slot_arena_reachable: "reachable slot_arena_init slot_step example_slot_arena"
proof (rule reachable_step)
  from example_evaluated show "reachable slot_arena_init slot_step (slot_arena_new example_slot_limits (replicate 8 0))"
    by (intro reachable_init) (auto simp: slot_arena_init_def)
  show "slot_step (slot_arena_new example_slot_limits (replicate 8 0)) example_slot_arena"
    unfolding example_slot_arena_def by (rule step_admit_sequence [OF prod.collapse [symmetric]])
qed

lemma example_reserve:
  "reserve_frame 0 7 example_frame False example_slot_arena = (Inr example_frame_lease, example_reserved)"
proof -
  have "reserve_granted 0 7 example_frame False example_slot_arena" using example_evaluated by blast
  from reserve_frame_outcome(1) [OF this] show ?thesis
    by (simp add: example_frame_lease_def example_reserved_def)
qed

lemma example_published: "publish_frame example_frame_lease example_reserved =
    (Ok, transition example_frame_lease kWriterOwned example_reserved)"
  and example_valid: "ok (lease_validate example_frame_lease kWriterOwned
    (transition example_frame_lease kWriterOwned example_reserved))"
  and example_aborted: "abort_build example_frame_lease example_reserved =
    (Ok, give_back example_frame_lease example_reserved)"
  and example_typed: "lease_typed example_frame_lease"
proof -
  have v: "lease_validate example_frame_lease kBuildOwned example_reserved = Ok"
    using example_evaluated by blast
  then show "publish_frame example_frame_lease example_reserved =
      (Ok, transition example_frame_lease kWriterOwned example_reserved)"
    by (simp add: publish_frame_def)
  from v show "abort_build example_frame_lease example_reserved =
      (Ok, give_back example_frame_lease example_reserved)"
    by (simp add: abort_build_def)
  show "ok (lease_validate example_frame_lease kWriterOwned
      (transition example_frame_lease kWriterOwned example_reserved))"
    and "lease_typed example_frame_lease" using example_evaluated by blast+
qed

theorem slot_arena_invariant_witness: "card (owned_shared example_slot_arena 0) = 0"
  using slot_arena_invariant [OF example_slot_arena_reachable] example_evaluated by metis

theorem frame_stays_intact_witness:
  "stored_frame example_frame_lease (transition example_frame_lease kWriterOwned example_reserved) =
     [1, 2, 3]"
proof -
  have "slot_step example_reserved (transition example_frame_lease kWriterOwned example_reserved)"
    by (rule step_publish [OF example_typed example_published])
  then have "slot_step\<^sup>*\<^sup>* example_reserved (transition example_frame_lease kWriterOwned example_reserved)"
    by blast
  from frame_stays_intact [OF example_slot_arena_reachable _ example_reserve this example_valid]
  show ?thesis by (simp add: example_frame_def)
qed

theorem terminal_frame_always_fits_witness:
  "\<exists>lease b. reserve_frame 0 7 [9, 8] True example_slot_arena = (Inr lease, b) \<and>
     stored_frame lease b = [9, 8]"
proof (rule terminal_frame_always_fits [OF example_slot_arena_reachable])
  have l: "oa_limits example_slot_arena = example_slot_limits" using example_evaluated by blast
  show "\<not> sequence_stale 0 7 example_slot_arena" using example_evaluated by blast
  show "\<forall>slot\<in>set (oa_slots example_slot_arena).
      at_state slot \<noteq> kFree \<longrightarrow> at_terminal slot \<longrightarrow> at_sequence_slot slot \<noteq> 0"
    using example_evaluated unfolding list_all_iff by blast
  show "length [9, 8 :: u8] \<le> unat (al_terminal_slots_per_sequence (oa_limits example_slot_arena)) *
      unat (al_slot_bytes (oa_limits example_slot_arena))"
    and "length [9, 8 :: u8] \<le> unat (al_maximum_chain_slots (oa_limits example_slot_arena)) *
      unat (al_slot_bytes (oa_limits example_slot_arena))"
    unfolding l by (simp_all add: example_slot_limits_def)
  show "oa_next_lease_generation example_slot_arena \<noteq> UINT64_MAX" using example_evaluated by simp
qed simp_all

theorem spent_frame_lease_stays_dead_witness:
  "\<not> ok (lease_validate example_frame_lease kBuildOwned (give_back example_frame_lease example_reserved))"
proof -
  have "reachable slot_arena_init slot_step example_reserved"
    by (rule reachable_step [OF example_slot_arena_reachable step_reserve [OF example_reserve]])
      (simp add: example_frame_def)
  from spent_frame_lease_stays_dead [OF this example_typed disjI2 [OF example_aborted] rtranclp.rtrancl_refl]
  show ?thesis by simp
qed

end
