(* ===== verification/Json.thy ===== *)
theory Json
  imports Core "HOL-Library.List_Lexorder" "HOL-Library.Multiset"
begin

text \<open>
  \<open>bounded_json.h\<close> and \<open>bounded_json.cpp\<close>: the JSON parser with budgets for input bytes, nesting
  depth, nodes and string bytes.

  \<^item> Text is a list of bytes. The parser's position is represented by the unread suffix of the input.
  \<^item> The recursion carries fuel, and running out of it is the value \<open>None\<close>; \<open>json_Parse_total\<close> shows
    that the fuel \<open>json_Parse\<close> starts with is always enough.
  \<^item> An integral number token is converted as \<open>std::from_chars\<close> converts to 64-bit signed integers.
    The conversion of fractional tokens, \<open>std::from_chars\<close> to \<open>double\<close>, is the argument \<open>to_double\<close>:
    it yields the bit pattern and the number of bytes read, or nothing if it reports an error.
  \<^item> Each error message is a constructor of \<open>JsonFault\<close>; \<open>json_status\<close> gives its status.
\<close>

section \<open>Data\<close>

type_synonym bytes = "u8 list"

record JsonLimits =
  jl_max_input_bytes :: nat
  jl_max_depth :: nat
  jl_max_nodes :: nat
  jl_max_string_bytes :: nat

definition default_json_limits :: JsonLimits where
  "default_json_limits =
     \<lparr>jl_max_input_bytes = 16 * 1024 * 1024, jl_max_depth = 64, jl_max_nodes = 65536,
      jl_max_string_bytes = 1024 * 1024\<rparr>"

datatype JsonValue =
    JNull
  | JBool bool
  | JInteger int
  | JDouble u64
  | JString bytes
  | JArray "JsonValue list"
  | JObject "(bytes \<times> JsonValue) list"

datatype JsonFault =
    input_exceeds_byte_budget | trailing_data | nesting_exceeds_depth_budget
  | exceeds_node_budget | unexpected_end | invalid_literal | array_requires_comma
  | key_must_be_string | object_requires_colon | object_requires_comma | duplicate_key
  | incomplete_number | leading_zero | invalid_number | empty_fraction | empty_exponent
  | integer_out_of_range | number_out_of_range | control_byte | truncated_escape
  | invalid_escape | string_exceeds_byte_budget | unterminated_string | invalid_lead_byte
  | truncated_utf8 | invalid_scalar | invalid_continuation | unpaired_high_surrogate
  | invalid_low_surrogate | unpaired_low_surrogate | truncated_unicode_escape
  | invalid_unicode_escape | budgets_must_be_nonzero

fun json_status :: "JsonFault \<Rightarrow> status" where
  "json_status input_exceeds_byte_budget = ResourceExhausted ''JSON input exceeds byte budget''"
| "json_status trailing_data = InvalidArgument ''JSON has trailing data''"
| "json_status nesting_exceeds_depth_budget = ResourceExhausted ''JSON nesting exceeds depth budget''"
| "json_status exceeds_node_budget = ResourceExhausted ''JSON exceeds node budget''"
| "json_status unexpected_end = InvalidArgument ''unexpected end of JSON''"
| "json_status invalid_literal = InvalidArgument ''invalid JSON literal''"
| "json_status array_requires_comma = InvalidArgument ''JSON array requires comma''"
| "json_status key_must_be_string = InvalidArgument ''JSON object key must be a string''"
| "json_status object_requires_colon = InvalidArgument ''JSON object requires colon''"
| "json_status object_requires_comma = InvalidArgument ''JSON object requires comma''"
| "json_status duplicate_key = InvalidArgument ''duplicate JSON object key''"
| "json_status incomplete_number = InvalidArgument ''incomplete JSON number''"
| "json_status leading_zero = InvalidArgument ''JSON number has a leading zero''"
| "json_status invalid_number = InvalidArgument ''invalid JSON number''"
| "json_status empty_fraction = InvalidArgument ''empty JSON fraction''"
| "json_status empty_exponent = InvalidArgument ''empty JSON exponent''"
| "json_status integer_out_of_range = InvalidArgument ''JSON integer is out of range''"
| "json_status number_out_of_range = InvalidArgument ''JSON number is out of range''"
| "json_status control_byte = InvalidArgument ''control byte in JSON string''"
| "json_status truncated_escape = InvalidArgument ''truncated escape''"
| "json_status invalid_escape = InvalidArgument ''invalid JSON escape''"
| "json_status string_exceeds_byte_budget = ResourceExhausted ''JSON string exceeds byte budget''"
| "json_status unterminated_string = InvalidArgument ''unterminated JSON string''"
| "json_status invalid_lead_byte = InvalidArgument ''invalid UTF-8 leading byte in JSON string''"
| "json_status truncated_utf8 = InvalidArgument ''truncated UTF-8 sequence in JSON string''"
| "json_status invalid_scalar = InvalidArgument ''invalid UTF-8 scalar in JSON string''"
| "json_status invalid_continuation = InvalidArgument ''invalid UTF-8 continuation byte in JSON string''"
| "json_status unpaired_high_surrogate = InvalidArgument ''unpaired high surrogate''"
| "json_status invalid_low_surrogate = InvalidArgument ''invalid low surrogate''"
| "json_status unpaired_low_surrogate = InvalidArgument ''unpaired low surrogate''"
| "json_status truncated_unicode_escape = InvalidArgument ''truncated unicode escape''"
| "json_status invalid_unicode_escape = InvalidArgument ''invalid unicode escape''"
| "json_status budgets_must_be_nonzero = InvalidArgument ''JSON budgets must be nonzero''"

abbreviation QUOTE :: u8 where "QUOTE \<equiv> 34"
abbreviation BACKSLASH :: u8 where "BACKSLASH \<equiv> 92"
abbreviation LBRACKET :: u8 where "LBRACKET \<equiv> 91"
abbreviation RBRACKET :: u8 where "RBRACKET \<equiv> 93"
abbreviation LBRACE :: u8 where "LBRACE \<equiv> 123"
abbreviation RBRACE :: u8 where "RBRACE \<equiv> 125"
abbreviation COLON :: u8 where "COLON \<equiv> 58"
abbreviation COMMA :: u8 where "COMMA \<equiv> 44"
abbreviation MINUS :: u8 where "MINUS \<equiv> 45"
abbreviation PLUS :: u8 where "PLUS \<equiv> 43"
abbreviation DOT :: u8 where "DOT \<equiv> 46"
abbreviation ZERO :: u8 where "ZERO \<equiv> 48"
abbreviation NINE :: u8 where "NINE \<equiv> 57"
abbreviation LETTER_n :: u8 where "LETTER_n \<equiv> 110"
abbreviation LETTER_t :: u8 where "LETTER_t \<equiv> 116"
abbreviation LETTER_f :: u8 where "LETTER_f \<equiv> 102"
abbreviation LETTER_b :: u8 where "LETTER_b \<equiv> 98"
abbreviation LETTER_r :: u8 where "LETTER_r \<equiv> 114"
abbreviation LETTER_u :: u8 where "LETTER_u \<equiv> 117"
abbreviation LETTER_e :: u8 where "LETTER_e \<equiv> 101"
abbreviation LETTER_E :: u8 where "LETTER_E \<equiv> 69"

section \<open>Scanning\<close>

definition is_space :: "u8 \<Rightarrow> bool" where
  "is_space c \<longleftrightarrow> c = 32 \<or> c = 10 \<or> c = 13 \<or> c = 9"

definition is_digit :: "u8 \<Rightarrow> bool" where
  "is_digit c \<longleftrightarrow> ZERO \<le> c \<and> c \<le> NINE"

definition skip_space :: "bytes \<Rightarrow> bytes" where
  "skip_space rest = dropWhile is_space rest"

fun consume :: "u8 \<Rightarrow> bytes \<Rightarrow> bytes option" where
  "consume c [] = None"
| "consume c (x # rest) = (if x = c then Some rest else None)"

section \<open>Strings\<close>

fun hex_digit :: "u8 \<Rightarrow> u32 option" where
  "hex_digit c =
     (if ZERO \<le> c \<and> c \<le> NINE then Some (ucast c - 48)
      else if 97 \<le> c \<and> c \<le> 102 then Some (ucast c - 97 + 10)
      else if 65 \<le> c \<and> c \<le> 70 then Some (ucast c - 65 + 10)
      else None)"

fun hex_digits :: "nat \<Rightarrow> u32 \<Rightarrow> bytes \<Rightarrow> JsonFault + (u32 \<times> bytes)" where
  "hex_digits 0 value rest = Inr (value, rest)"
| "hex_digits (Suc n) value [] = Inl truncated_unicode_escape"
| "hex_digits (Suc n) value (c # rest) =
     (case hex_digit c of
        None \<Rightarrow> Inl invalid_unicode_escape
      | Some digit \<Rightarrow> hex_digits n (push_bit 4 value + digit) rest)"

definition parse_hex4 :: "bytes \<Rightarrow> JsonFault + (u32 \<times> bytes)" where
  "parse_hex4 rest =
     (if length rest < 4 then Inl truncated_unicode_escape else hex_digits 4 0 rest)"

definition parse_codepoint :: "bytes \<Rightarrow> JsonFault + (u32 \<times> bytes)" where
  "parse_codepoint rest =
     (case parse_hex4 rest of
        Inl e \<Rightarrow> Inl e
      | Inr (value, rest) \<Rightarrow>
          if 0xD800 \<le> value \<and> value \<le> 0xDBFF
          then (case rest of
              x # y # rest \<Rightarrow>
                if x \<noteq> BACKSLASH \<or> y \<noteq> LETTER_u then Inl unpaired_high_surrogate
                else (case parse_hex4 rest of
                    Inl _ \<Rightarrow> Inl invalid_low_surrogate
                  | Inr (second, rest) \<Rightarrow>
                      if second < 0xDC00 \<or> second > 0xDFFF then Inl invalid_low_surrogate
                      else Inr (0x10000 + push_bit 10 (value - 0xD800) + (second - 0xDC00), rest))
            | _ \<Rightarrow> Inl unpaired_high_surrogate)
          else if 0xDC00 \<le> value \<and> value \<le> 0xDFFF then Inl unpaired_low_surrogate
          else Inr (value, rest))"

definition append_utf8 :: "u32 \<Rightarrow> bytes" where
  "append_utf8 value =
     (if value \<le> 0x7F then [ucast value]
      else if value \<le> 0x7FF
      then [ucast (0xC0 OR drop_bit 6 value), ucast (0x80 OR (value AND 0x3F))]
      else if value \<le> 0xFFFF
      then [ucast (0xE0 OR drop_bit 12 value), ucast (0x80 OR (drop_bit 6 value AND 0x3F)),
            ucast (0x80 OR (value AND 0x3F))]
      else [ucast (0xF0 OR drop_bit 18 value), ucast (0x80 OR (drop_bit 12 value AND 0x3F)),
            ucast (0x80 OR (drop_bit 6 value AND 0x3F)), ucast (0x80 OR (value AND 0x3F))])"

text \<open>Continuation bytes and the range of the second byte, by the lead byte.\<close>

definition lead_class :: "u8 \<Rightarrow> (nat \<times> u8 \<times> u8) option" where
  "lead_class lead =
     (if 0xC2 \<le> lead \<and> lead \<le> 0xDF then Some (1, 0x80, 0xBF)
      else if 0xE0 \<le> lead \<and> lead \<le> 0xEF
      then Some (2, if lead = 0xE0 then 0xA0 else 0x80, if lead = 0xED then 0x9F else 0xBF)
      else if 0xF0 \<le> lead \<and> lead \<le> 0xF4
      then Some (3, if lead = 0xF0 then 0x90 else 0x80, if lead = 0xF4 then 0x8F else 0xBF)
      else None)"

definition append_raw_utf8 :: "u8 \<Rightarrow> bytes \<Rightarrow> JsonFault + (bytes \<times> bytes)" where
  "append_raw_utf8 lead rest =
     (case lead_class lead of
        None \<Rightarrow> Inl invalid_lead_byte
      | Some (continuation_bytes, second_minimum, second_maximum) \<Rightarrow>
          if length rest < continuation_bytes then Inl truncated_utf8
          else if rest ! 0 < second_minimum \<or> rest ! 0 > second_maximum then Inl invalid_scalar
          else if list_ex (\<lambda>c. c < 0x80 \<or> c > 0xBF) (drop 1 (take continuation_bytes rest))
          then Inl invalid_continuation
          else Inr (lead # take continuation_bytes rest, drop continuation_bytes rest))"

text \<open>One round of the string loop: what is appended to the output, and the input left.\<close>

definition parse_escape :: "bytes \<Rightarrow> JsonFault + (bytes \<times> bytes)" where
  "parse_escape rest =
     (case rest of
        [] \<Rightarrow> Inl truncated_escape
      | escape # rest \<Rightarrow>
          if escape = QUOTE \<or> escape = BACKSLASH \<or> escape = 47 then Inr ([escape], rest)
          else if escape = LETTER_b then Inr ([8], rest)
          else if escape = LETTER_f then Inr ([12], rest)
          else if escape = LETTER_n then Inr ([10], rest)
          else if escape = LETTER_r then Inr ([13], rest)
          else if escape = LETTER_t then Inr ([9], rest)
          else if escape = LETTER_u
          then (case parse_codepoint rest of
              Inl e \<Rightarrow> Inl e
            | Inr (codepoint, rest) \<Rightarrow> Inr (append_utf8 codepoint, rest))
          else Inl invalid_escape)"

definition string_piece :: "u8 \<Rightarrow> bytes \<Rightarrow> JsonFault + (bytes \<times> bytes)" where
  "string_piece byte rest =
     (if byte < 0x20 then Inl control_byte
      else if byte \<noteq> BACKSLASH
      then (if byte < 0x80 then Inr ([byte], rest) else append_raw_utf8 byte rest)
      else parse_escape rest)"


lemma hex_digits_length: "hex_digits n x rest = Inr (v, rest') \<Longrightarrow> length rest = length rest' + n"
  by (induction n x rest rule: hex_digits.induct) (auto split: option.splits if_splits)

lemma parse_codepoint_length: "parse_codepoint rest = Inr (v, rest') \<Longrightarrow> length rest' < length rest"
  by (auto simp: parse_codepoint_def parse_hex4_def dest!: hex_digits_length
      split: sum.splits if_splits list.splits)

lemma string_piece_length: "string_piece byte rest = Inr (out, rest') \<Longrightarrow> length rest' \<le> length rest"
  by (auto simp: string_piece_def parse_escape_def append_raw_utf8_def dest: parse_codepoint_length
      split: if_splits sum.splits list.splits option.splits)

function string_loop :: "JsonLimits \<Rightarrow> bytes \<Rightarrow> bytes \<Rightarrow> JsonFault + (bytes \<times> bytes)" where
  "string_loop limits [] output = Inl unterminated_string"
| "string_loop limits (byte # rest) output =
     (if byte = QUOTE then Inr (output, rest)
      else (case string_piece byte rest of
          Inl e \<Rightarrow> Inl e
        | Inr (piece, rest) \<Rightarrow>
            if length (output @ piece) > jl_max_string_bytes limits
            then Inl string_exceeds_byte_budget
            else string_loop limits rest (output @ piece)))"
  by pat_completeness auto

termination
  by (relation "measure (\<lambda>(limits, rest, output). length rest)")
    (auto dest!: string_piece_length)

definition parse_string :: "JsonLimits \<Rightarrow> bytes \<Rightarrow> JsonFault + (bytes \<times> bytes)" where
  "parse_string limits rest = string_loop limits (drop 1 rest) []"

section \<open>Numbers\<close>

primrec digits_value :: "bytes \<Rightarrow> nat \<Rightarrow> nat" where
  "digits_value [] n = n"
| "digits_value (c # cs) n = digits_value cs (10 * n + (unat c - 48))"

text \<open>\<open>std::from_chars\<close> to a 64-bit signed integer: the value and the number of bytes read.\<close>

definition from_chars_int64 :: "bytes \<Rightarrow> (int \<times> nat) option" where
  "from_chars_int64 token =
     (let negative = (token \<noteq> [] \<and> hd token = MINUS);
          digits = takeWhile is_digit (if negative then tl token else token);
          magnitude = int (digits_value digits 0);
          value = (if negative then - magnitude else magnitude)
      in if digits = [] \<or> value < - (2 ^ 63) \<or> value \<ge> 2 ^ 63 then None
         else Some (value, length digits + (if negative then 1 else 0)))"

definition isfinite :: "u64 \<Rightarrow> bool" where
  "isfinite bits \<longleftrightarrow> bits AND 0x7FF0000000000000 \<noteq> 0x7FF0000000000000"

definition integer_part :: "bytes \<Rightarrow> JsonFault + bytes" where
  "integer_part rest =
     (case consume ZERO rest of
        Some rest \<Rightarrow>
          if rest \<noteq> [] \<and> is_digit (hd rest) then Inl leading_zero else Inr rest
      | None \<Rightarrow>
          if rest = [] \<or> hd rest < 49 \<or> hd rest > NINE then Inl invalid_number
          else Inr (dropWhile is_digit rest))"

definition fraction_part :: "bytes \<Rightarrow> JsonFault + (bool \<times> bytes)" where
  "fraction_part rest =
     (case consume DOT rest of
        None \<Rightarrow> Inr (True, rest)
      | Some fraction \<Rightarrow>
          if dropWhile is_digit fraction = fraction then Inl empty_fraction
          else Inr (False, dropWhile is_digit fraction))"

definition exponent_part :: "bool \<Rightarrow> bytes \<Rightarrow> JsonFault + (bool \<times> bytes)" where
  "exponent_part integral rest =
     (if rest \<noteq> [] \<and> (hd rest = LETTER_e \<or> hd rest = LETTER_E)
      then let rest = tl rest;
               exponent = (if rest \<noteq> [] \<and> (hd rest = PLUS \<or> hd rest = MINUS) then tl rest else rest)
           in if dropWhile is_digit exponent = exponent then Inl empty_exponent
              else Inr (False, dropWhile is_digit exponent)
      else Inr (integral, rest))"

type_synonym to_double = "bytes \<Rightarrow> (u64 \<times> nat) option"

definition number_value :: "to_double \<Rightarrow> bool \<Rightarrow> bytes \<Rightarrow> JsonFault + JsonValue" where
  "number_value to_double integral token =
     (if integral
      then (case from_chars_int64 token of
          None \<Rightarrow> Inl integer_out_of_range
        | Some (value, read) \<Rightarrow>
            if read \<noteq> length token then Inl integer_out_of_range else Inr (JInteger value))
      else (case to_double token of
          None \<Rightarrow> Inl number_out_of_range
        | Some (bits, read) \<Rightarrow>
            if read \<noteq> length token \<or> \<not> isfinite bits then Inl number_out_of_range
            else Inr (JDouble bits)))"

definition number_token :: "bytes \<Rightarrow> JsonFault + (bool \<times> bytes)" where
  "number_token begin =
     (let minus = consume MINUS begin
      in if minus = Some [] then Inl incomplete_number
         else (case integer_part (case minus of None \<Rightarrow> begin | Some rest \<Rightarrow> rest) of
             Inl e \<Rightarrow> Inl e
           | Inr rest \<Rightarrow>
               (case fraction_part rest of
                  Inl e \<Rightarrow> Inl e
                | Inr (integral, rest) \<Rightarrow> exponent_part integral rest)))"

definition parse_number :: "to_double \<Rightarrow> bytes \<Rightarrow> JsonFault + (JsonValue \<times> bytes)" where
  "parse_number to_double begin =
     (case number_token begin of
        Inl e \<Rightarrow> Inl e
      | Inr (integral, rest) \<Rightarrow>
          (case number_value to_double integral (take (length begin - length rest) begin) of
             Inl e \<Rightarrow> Inl e
           | Inr value \<Rightarrow> Inr (value, rest)))"

section \<open>Values\<close>

definition literal :: "bytes \<Rightarrow> JsonValue \<Rightarrow> bytes \<Rightarrow> JsonFault + (JsonValue \<times> bytes)" where
  "literal token value rest =
     (if take (length token) rest \<noteq> token then Inl invalid_literal
      else Inr (value, drop (length token) rest))"

fun adjacent_equal :: "bytes list \<Rightarrow> bool" where
  "adjacent_equal (x # y # rest) \<longleftrightarrow> x = y \<or> adjacent_equal (y # rest)"
| "adjacent_equal _ \<longleftrightarrow> False"

definition finish_object :: "(bytes \<times> JsonValue) list \<Rightarrow> JsonFault + JsonValue" where
  "finish_object values =
     (let sorted_values = sort_key fst values
      in if adjacent_equal (map fst sorted_values) then Inl duplicate_key
         else Inr (JObject sorted_values))"

type_synonym 'a parse = "(JsonFault + ('a \<times> nat \<times> bytes)) option"

text \<open>The values without members: literals, strings and numbers.\<close>

definition scalar_value :: "to_double \<Rightarrow> JsonLimits \<Rightarrow> bytes \<Rightarrow> JsonFault + (JsonValue \<times> bytes)" where
  "scalar_value to_double limits rest =
     (if hd rest = LETTER_n then literal [110, 117, 108, 108] JNull rest
      else if hd rest = LETTER_t then literal [116, 114, 117, 101] (JBool True) rest
      else if hd rest = LETTER_f then literal [102, 97, 108, 115, 101] (JBool False) rest
      else if hd rest = QUOTE
      then (case parse_string limits rest of
          Inl e \<Rightarrow> Inl e
        | Inr (text, rest) \<Rightarrow> Inr (JString text, rest))
      else parse_number to_double rest)"

text \<open>The loops over members, given the parser for one member.\<close>

primrec array_loop ::
  "nat \<Rightarrow> (nat \<Rightarrow> bytes \<Rightarrow> JsonValue parse) \<Rightarrow> nat \<Rightarrow> bytes \<Rightarrow> JsonValue list \<Rightarrow> JsonValue parse" where
  "array_loop 0 member nodes rest values = None"
| "array_loop (Suc fuel) member nodes rest values =
     (case member nodes rest of
        None \<Rightarrow> None
      | Some (Inl e) \<Rightarrow> Some (Inl e)
      | Some (Inr (value, nodes, rest)) \<Rightarrow>
          (case consume RBRACKET (skip_space rest) of
             Some rest \<Rightarrow> Some (Inr (JArray (values @ [value]), nodes, rest))
           | None \<Rightarrow>
               (case consume COMMA (skip_space rest) of
                  None \<Rightarrow> Some (Inl array_requires_comma)
                | Some rest \<Rightarrow>
                    array_loop fuel member nodes (skip_space rest) (values @ [value]))))"

definition object_key :: "JsonLimits \<Rightarrow> bytes \<Rightarrow> JsonFault + (bytes \<times> bytes)" where
  "object_key limits rest =
     (if rest = [] \<or> hd rest \<noteq> QUOTE then Inl key_must_be_string
      else (case parse_string limits rest of
          Inl e \<Rightarrow> Inl e
        | Inr (key, rest) \<Rightarrow>
            (case consume COLON (skip_space rest) of
               None \<Rightarrow> Inl object_requires_colon
             | Some rest \<Rightarrow> Inr (key, skip_space rest))))"

definition close_object ::
  "(bytes \<times> JsonValue) list \<Rightarrow> nat \<Rightarrow> bytes \<Rightarrow> JsonFault + (JsonValue \<times> nat \<times> bytes)" where
  "close_object values nodes rest =
     (case finish_object values of
        Inl e \<Rightarrow> Inl e
      | Inr object \<Rightarrow> Inr (object, nodes, rest))"

primrec object_loop ::
  "nat \<Rightarrow> JsonLimits \<Rightarrow> (nat \<Rightarrow> bytes \<Rightarrow> JsonValue parse) \<Rightarrow> nat \<Rightarrow> bytes \<Rightarrow>
   (bytes \<times> JsonValue) list \<Rightarrow> JsonValue parse" where
  "object_loop 0 limits member nodes rest values = None"
| "object_loop (Suc fuel) limits member nodes rest values =
     (case object_key limits rest of
        Inl e \<Rightarrow> Some (Inl e)
      | Inr (key, rest) \<Rightarrow>
          (case member nodes rest of
             None \<Rightarrow> None
           | Some (Inl e) \<Rightarrow> Some (Inl e)
           | Some (Inr (value, nodes, rest)) \<Rightarrow>
               (case consume RBRACE (skip_space rest) of
                  Some rest \<Rightarrow> Some (close_object (values @ [(key, value)]) nodes rest)
                | None \<Rightarrow>
                    (case consume COMMA (skip_space rest) of
                       None \<Rightarrow> Some (Inl object_requires_comma)
                     | Some rest \<Rightarrow>
                         object_loop fuel limits member nodes (skip_space rest)
                           (values @ [(key, value)])))))"

definition parse_array ::
  "nat \<Rightarrow> (nat \<Rightarrow> bytes \<Rightarrow> JsonValue parse) \<Rightarrow> nat \<Rightarrow> bytes \<Rightarrow> JsonValue parse" where
  "parse_array fuel member nodes rest =
     (let rest = skip_space (drop 1 rest)
      in case consume RBRACKET rest of
           Some rest \<Rightarrow> Some (Inr (JArray [], nodes, rest))
         | None \<Rightarrow> array_loop fuel member nodes rest [])"

definition parse_object ::
  "nat \<Rightarrow> JsonLimits \<Rightarrow> (nat \<Rightarrow> bytes \<Rightarrow> JsonValue parse) \<Rightarrow> nat \<Rightarrow> bytes \<Rightarrow> JsonValue parse" where
  "parse_object fuel limits member nodes rest =
     (let rest = skip_space (drop 1 rest)
      in case consume RBRACE rest of
           Some rest \<Rightarrow> Some (close_object [] nodes rest)
         | None \<Rightarrow> object_loop fuel limits member nodes rest [])"

primrec parse_value :: "nat \<Rightarrow> to_double \<Rightarrow> JsonLimits \<Rightarrow> nat \<Rightarrow> nat \<Rightarrow> bytes \<Rightarrow> JsonValue parse" where
  "parse_value 0 to_double limits depth nodes rest = None"
| "parse_value (Suc fuel) to_double limits depth nodes rest =
     (if depth > jl_max_depth limits then Some (Inl nesting_exceeds_depth_budget)
      else if nodes + 1 > jl_max_nodes limits then Some (Inl exceeds_node_budget)
      else if rest = [] then Some (Inl unexpected_end)
      else if hd rest = LBRACKET
      then parse_array fuel (parse_value fuel to_double limits (depth + 1)) (nodes + 1) rest
      else if hd rest = LBRACE
      then parse_object fuel limits (parse_value fuel to_double limits (depth + 1)) (nodes + 1) rest
      else (case scalar_value to_double limits rest of
          Inl e \<Rightarrow> Some (Inl e)
        | Inr (value, rest) \<Rightarrow> Some (Inr (value, nodes + 1, rest))))"

definition parser_fuel :: "bytes \<Rightarrow> nat" where
  "parser_fuel input = length input + 1"

definition json_parser :: "to_double \<Rightarrow> bytes \<Rightarrow> JsonLimits \<Rightarrow> (JsonFault + JsonValue) option" where
  "json_parser to_double input limits =
     (if length input > jl_max_input_bytes limits then Some (Inl input_exceeds_byte_budget)
      else (case parse_value (parser_fuel input) to_double limits 1 0 (skip_space input) of
          None \<Rightarrow> None
        | Some (Inl e) \<Rightarrow> Some (Inl e)
        | Some (Inr (value, nodes, rest)) \<Rightarrow>
            if skip_space rest \<noteq> [] then Some (Inl trailing_data) else Some (Inr value)))"

definition json_Parse :: "to_double \<Rightarrow> bytes \<Rightarrow> JsonLimits \<Rightarrow> (JsonFault + JsonValue) option" where
  "json_Parse to_double input limits =
     (if jl_max_depth limits = 0 \<or> jl_max_nodes limits = 0 then Some (Inl budgets_must_be_nonzero)
      else json_parser to_double input limits)"

section \<open>Access\<close>

fun json_at :: "JsonValue \<Rightarrow> bytes \<Rightarrow> JsonValue option" where
  "json_at (JObject entries) key =
     (case find_index (\<lambda>entry. fst entry = key) entries of
        None \<Rightarrow> None
      | Some i \<Rightarrow> Some (snd (entries ! i)))"
| "json_at _ key = None"


section \<open>Progress and termination\<close>

lemma skip_space_length: "length (skip_space rest) \<le> length rest"
  by (simp add: skip_space_def length_dropWhile_le)

lemma consume_length: "consume c rest = Some rest' \<Longrightarrow> length rest = Suc (length rest')"
  by (cases rest) (auto split: if_splits)

lemma string_loop_Inr:
  assumes "string_loop limits (byte # rest) out = Inr (text, rest')"
  obtains (closed) "byte = QUOTE" "text = out" "rest' = rest"
  | (more) piece r where "byte \<noteq> QUOTE" "string_piece byte rest = Inr (piece, r)"
      "length (out @ piece) \<le> jl_max_string_bytes limits"
      "string_loop limits r (out @ piece) = Inr (text, rest')"
  using assms by (auto split: if_splits sum.splits)

text \<open>Induction along the rounds of a string that ends well.\<close>

lemma string_loop_induct [consumes 1, case_names closed more]:
  assumes "string_loop limits rest out = Inr (text, rest')"
    and "\<And>rest out. P (QUOTE # rest) out out rest"
    and "\<And>byte rest out piece r text rest'.
      byte \<noteq> QUOTE \<Longrightarrow> string_piece byte rest = Inr (piece, r) \<Longrightarrow>
      length (out @ piece) \<le> jl_max_string_bytes limits \<Longrightarrow>
      string_loop limits r (out @ piece) = Inr (text, rest') \<Longrightarrow> P r (out @ piece) text rest' \<Longrightarrow>
      P (byte # rest) out text rest'"
  shows "P rest out text rest'"
  using assms(1)
proof (induction rest arbitrary: out rule: length_induct)
  case (1 rest)
  then obtain byte tail where rest: "rest = byte # tail" by (cases rest) auto
  show ?case
  proof (rule string_loop_Inr [OF "1.prems" [unfolded rest]])
    assume "byte = QUOTE" "text = out" "rest' = tail"
    then show ?thesis using assms(2) rest by simp
  next
    fix piece r
    assume p: "byte \<noteq> QUOTE" "string_piece byte tail = Inr (piece, r)"
      "length (out @ piece) \<le> jl_max_string_bytes limits"
      "string_loop limits r (out @ piece) = Inr (text, rest')"
    have "P r (out @ piece) text rest'"
      using "1.IH" p(4) string_piece_length [OF p(2)] by (simp add: rest)
    then show ?thesis unfolding rest by (rule assms(3) [OF p])
  qed
qed

lemma string_loop_length: "string_loop limits rest out = Inr (text, rest') \<Longrightarrow> length rest' < length rest"
  by (induction rule: string_loop_induct) (auto dest!: string_piece_length)

lemma parse_string_length: "parse_string limits rest = Inr (text, rest') \<Longrightarrow> length rest' < length rest"
  by (cases rest) (auto simp: parse_string_def dest!: string_loop_length)

lemma length_dropWhile_digit: "rest \<noteq> [] \<Longrightarrow> is_digit (hd rest) \<Longrightarrow> length (dropWhile is_digit rest) < length rest"
  by (cases rest) (auto simp: less_Suc_eq_le length_dropWhile_le)

lemma integer_part_length: "integer_part rest = Inr rest' \<Longrightarrow> length rest' < length rest"
  unfolding integer_part_def
  by (auto split: option.splits if_splits dest!: consume_length intro!: length_dropWhile_digit
      simp: is_digit_def not_less word_le_nat_alt word_less_nat_alt)

lemma fraction_part_length: "fraction_part rest = Inr (b, rest') \<Longrightarrow> length rest' \<le> length rest"
  using length_dropWhile_le [of is_digit]
  by (auto simp: fraction_part_def le_Suc_eq split: option.splits if_splits dest!: consume_length)

lemma exponent_part_length: "exponent_part i rest = Inr (b, rest') \<Longrightarrow> length rest' \<le> length rest"
proof -
  have "length (dropWhile is_digit (tl (tl rest))) \<le> length rest" "length (dropWhile is_digit (tl rest)) \<le> length rest"
    using length_dropWhile_le [of is_digit "tl (tl rest)"] length_dropWhile_le [of is_digit "tl rest"] by auto
  then show "exponent_part i rest = Inr (b, rest') \<Longrightarrow> length rest' \<le> length rest"
    by (auto simp: exponent_part_def Let_def split: if_splits)
qed

lemma number_token_length: "number_token rest = Inr (b, rest') \<Longrightarrow> length rest' < length rest"
  by (fastforce simp: number_token_def Let_def split: option.splits sum.splits if_splits
      dest!: integer_part_length fraction_part_length exponent_part_length consume_length)

lemma scalar_value_length:
  "scalar_value to_double limits rest = Inr (v, rest') \<Longrightarrow> rest \<noteq> [] \<Longrightarrow> length rest' < length rest"
  by (auto simp: scalar_value_def literal_def parse_number_def split: if_splits sum.splits
      dest!: parse_string_length number_token_length)

text \<open>A member parser that consumes input and ends whenever the input is shorter than \<open>bound\<close>.\<close>

definition shortens :: "(nat \<Rightarrow> bytes \<Rightarrow> JsonValue parse) \<Rightarrow> bool" where
  "shortens member \<longleftrightarrow>
     (\<forall>nodes rest v nodes' rest'. member nodes rest = Some (Inr (v, nodes', rest')) \<longrightarrow> length rest' < length rest)"

lemma shortensD:
  "shortens member \<Longrightarrow> member nodes rest = Some (Inr (v, nodes', rest')) \<Longrightarrow> length rest' < length rest"
  unfolding shortens_def by blast

lemma next_member_length:
  "consume c (skip_space rest) = Some rest' \<Longrightarrow> length rest' < length rest"
  using skip_space_length [of rest] by (auto dest!: consume_length)

lemma array_loop_shortens:
  assumes "shortens member"
  shows "array_loop fuel member nodes rest vs = Some (Inr (v, nodes', rest')) \<Longrightarrow> length rest' < length rest"
proof (induction fuel arbitrary: nodes rest vs)
  case 0
  then show ?case by simp
next
  case (Suc fuel)
  then obtain x m r where x: "member nodes rest = Some (Inr (x, m, r))"
    by (auto split: option.splits sum.splits)
  have r: "length r < length rest" by (rule shortensD [OF assms x])
  show ?case
  proof (cases "consume RBRACKET (skip_space r)")
    case (Some r')
    with Suc.prems x next_member_length [OF Some] r show ?thesis by simp
  next
    case None
    with Suc.prems x obtain r' where r': "consume COMMA (skip_space r) = Some r'"
      and l: "array_loop fuel member m (skip_space r') (vs @ [x]) = Some (Inr (v, nodes', rest'))"
      by (auto split: option.splits)
    from Suc.IH [OF l] next_member_length [OF r'] skip_space_length [of r'] r show ?thesis by simp
  qed
qed

lemma object_key_length: "object_key limits rest = Inr (key, rest') \<Longrightarrow> length rest' < length rest"
  unfolding object_key_def using skip_space_length
  by (fastforce split: if_splits sum.splits option.splits dest!: parse_string_length next_member_length
      intro: le_less_trans)

lemma object_loop_shortens:
  assumes "shortens member"
  shows "object_loop fuel limits member nodes rest vs = Some (Inr (v, nodes', rest')) \<Longrightarrow>
    length rest' < length rest"
proof (induction fuel arbitrary: nodes rest vs)
  case 0
  then show ?case by simp
next
  case (Suc fuel)
  then obtain key s x m r where k: "object_key limits rest = Inr (key, s)"
    and x: "member nodes s = Some (Inr (x, m, r))"
    by (auto split: option.splits sum.splits)
  have r: "length r < length rest" using shortensD [OF assms x] object_key_length [OF k] by simp
  show ?case
  proof (cases "consume RBRACE (skip_space r)")
    case (Some r')
    with Suc.prems k x next_member_length [OF Some] r show ?thesis
      by (auto simp: close_object_def split: sum.splits)
  next
    case None
    with Suc.prems k x obtain r' where r': "consume COMMA (skip_space r) = Some r'"
      and l: "object_loop fuel limits member m (skip_space r') (vs @ [(key, x)]) = Some (Inr (v, nodes', rest'))"
      by (auto split: option.splits)
    from Suc.IH [OF l] next_member_length [OF r'] skip_space_length [of r'] r show ?thesis by simp
  qed
qed

lemma parse_value_shortens: "shortens (parse_value fuel to_double limits depth)"
proof (induction fuel arbitrary: depth)
  case 0
  then show ?case by (simp add: shortens_def)
next
  case (Suc fuel)
  have "length rest' < length rest"
    if p: "parse_value (Suc fuel) to_double limits depth nodes rest = Some (Inr (v, nodes', rest'))"
    for nodes rest v nodes' rest'
  proof -
    have ne: "rest \<noteq> []" using p by (auto split: if_splits)
    then have d: "length (skip_space (drop 1 rest)) < length rest"
      using skip_space_length [of "drop 1 rest"] by (cases rest) auto
    show ?thesis
    proof (cases "hd rest = LBRACKET \<or> hd rest = LBRACE")
      case True
      with p d show ?thesis
        by (auto simp: parse_array_def parse_object_def Let_def close_object_def
            split: if_splits option.splits sum.splits
            dest!: consume_length array_loop_shortens [OF Suc.IH] object_loop_shortens [OF Suc.IH])
    next
      case False
      with p ne show ?thesis by (auto split: if_splits sum.splits dest!: scalar_value_length)
    qed
  qed
  then show ?case unfolding shortens_def by blast
qed


lemma array_loop_total:
  assumes "shortens member" and "\<And>nodes r. length r \<le> length rest \<Longrightarrow> member nodes r \<noteq> None"
    and "length rest < fuel"
  shows "array_loop fuel member nodes rest vs \<noteq> None"
  using assms(2,3)
proof (induction fuel arbitrary: nodes rest vs)
  case 0
  then show ?case by simp
next
  case (Suc fuel)
  have "array_loop fuel member m (skip_space r') (vs @ [x]) \<noteq> None"
    if x: "member nodes rest = Some (Inr (x, m, r))" and c: "consume COMMA (skip_space r) = Some r'" for x m r r'
  proof (rule Suc.IH)
    have "length (skip_space r') < length rest"
      using shortensD [OF assms(1) x] next_member_length [OF c] skip_space_length [of r'] by simp
    with Suc.prems show "length (skip_space r') < fuel"
      and "\<And>nodes s. length s \<le> length (skip_space r') \<Longrightarrow> member nodes s \<noteq> None" by simp_all
  qed
  with Suc.prems(1) [of rest nodes] show ?case by (auto split: option.splits sum.splits)
qed

lemma object_loop_total:
  assumes "shortens member" and "\<And>nodes r. length r \<le> length rest \<Longrightarrow> member nodes r \<noteq> None"
    and "length rest < fuel"
  shows "object_loop fuel limits member nodes rest vs \<noteq> None"
  using assms(2,3)
proof (induction fuel arbitrary: nodes rest vs)
  case 0
  then show ?case by simp
next
  case (Suc fuel)
  have "object_loop fuel limits member m (skip_space r') (vs @ [(key, x)]) \<noteq> None"
    if k: "object_key limits rest = Inr (key, s)" and x: "member nodes s = Some (Inr (x, m, r))"
      and c: "consume COMMA (skip_space r) = Some r'" for key s x m r r'
  proof (rule Suc.IH)
    have "length (skip_space r') < length rest"
      using object_key_length [OF k] shortensD [OF assms(1) x] next_member_length [OF c]
        skip_space_length [of r'] by simp
    with Suc.prems show "length (skip_space r') < fuel"
      and "\<And>nodes s. length s \<le> length (skip_space r') \<Longrightarrow> member nodes s \<noteq> None" by simp_all
  qed
  moreover have "object_key limits rest = Inr (key, s) \<Longrightarrow> member nodes s \<noteq> None" for key s
    using Suc.prems(1) object_key_length by (meson less_imp_le)
  ultimately show ?case by (fastforce split: option.splits sum.splits)
qed

lemma parse_value_total: "length rest < fuel \<Longrightarrow> parse_value fuel to_double limits depth nodes rest \<noteq> None"
proof (induction fuel arbitrary: depth nodes rest)
  case 0
  then show ?case by simp
next
  case (Suc fuel)
  let ?m = "parse_value fuel to_double limits (depth + 1)"
  have "parse_array fuel ?m (nodes + 1) rest \<noteq> None \<and> parse_object fuel limits ?m (nodes + 1) rest \<noteq> None"
    if ne: "rest \<noteq> []"
  proof -
    have d: "length (skip_space (drop 1 rest)) < fuel"
      using ne Suc.prems skip_space_length [of "drop 1 rest"] by (cases rest) auto
    have m: "length r \<le> length (skip_space (drop 1 rest)) \<Longrightarrow> ?m n r \<noteq> None" for n r
      using d by (intro Suc.IH) simp
    show ?thesis
      using array_loop_total [OF parse_value_shortens m d] object_loop_total [OF parse_value_shortens m d]
      by (auto simp: parse_array_def parse_object_def Let_def split: option.splits)
  qed
  then show ?case by (auto split: sum.splits)
qed

text \<open>More fuel changes nothing.\<close>

definition extends :: "(nat \<Rightarrow> bytes \<Rightarrow> JsonValue parse) \<Rightarrow> (nat \<Rightarrow> bytes \<Rightarrow> JsonValue parse) \<Rightarrow> bool" where
  "extends member member' \<longleftrightarrow> (\<forall>nodes rest x. member nodes rest = Some x \<longrightarrow> member' nodes rest = Some x)"

lemma array_loop_more_fuel:
  assumes "extends member member'"
  shows "array_loop fuel member nodes rest vs = Some x \<Longrightarrow> array_loop (fuel + k) member' nodes rest vs = Some x"
proof (induction fuel arbitrary: nodes rest vs)
  case 0
  then show ?case by simp
next
  case (Suc fuel)
  then obtain y where y: "member nodes rest = Some y" by (auto split: option.splits)
  then have "member' nodes rest = Some y" using assms by (simp add: extends_def)
  with y Suc.prems Suc.IH show ?case by (auto split: option.splits sum.splits)
qed

lemma object_loop_more_fuel:
  assumes "extends member member'"
  shows "object_loop fuel limits member nodes rest vs = Some x \<Longrightarrow>
    object_loop (fuel + k) limits member' nodes rest vs = Some x"
proof (induction fuel arbitrary: nodes rest vs)
  case 0
  then show ?case by simp
next
  case (Suc fuel)
  show ?case
  proof (cases "object_key limits rest")
    case (Inl e)
    with Suc.prems show ?thesis by simp
  next
    case (Inr ks)
    obtain key s where ks: "ks = (key, s)" by (cases ks)
    with Inr Suc.prems obtain y where y: "member nodes s = Some y" by (auto split: option.splits)
    then have "member' nodes s = Some y" using assms by (simp add: extends_def)
    with y Suc.prems Suc.IH Inr ks show ?thesis by (auto split: option.splits sum.splits)
  qed
qed

lemma parse_value_more_fuel: "extends (parse_value fuel to_double limits depth) (parse_value (fuel + k) to_double limits depth)"
proof (induction fuel arbitrary: depth)
  case 0
  then show ?case by (simp add: extends_def)
next
  case (Suc fuel)
  note loops = array_loop_more_fuel [OF Suc.IH] object_loop_more_fuel [OF Suc.IH]
  show ?case unfolding extends_def
    by (auto simp: parse_array_def parse_object_def Let_def loops split: if_splits option.splits)
qed


section \<open>Unicode\<close>

text \<open>A Unicode scalar value, and its UTF-8 encoding in plain arithmetic.\<close>

definition unicode_scalar :: "nat \<Rightarrow> bool" where
  "unicode_scalar c \<longleftrightarrow> c < 0xD800 \<or> 0xE000 \<le> c \<and> c < 0x110000"

definition utf8_encode :: "nat \<Rightarrow> bytes" where
  "utf8_encode c =
     (if c < 0x80 then [of_nat c]
      else if c < 0x800 then [of_nat (0xC0 + c div 0x40), of_nat (0x80 + c mod 0x40)]
      else if c < 0x10000
      then [of_nat (0xE0 + c div 0x1000), of_nat (0x80 + c div 0x40 mod 0x40), of_nat (0x80 + c mod 0x40)]
      else [of_nat (0xF0 + c div 0x40000), of_nat (0x80 + c div 0x1000 mod 0x40),
            of_nat (0x80 + c div 0x40 mod 0x40), of_nat (0x80 + c mod 0x40)])"

definition utf8_text :: "bytes \<Rightarrow> bool" where
  "utf8_text bs \<longleftrightarrow> (\<exists>cs. list_all unicode_scalar cs \<and> bs = concat (map utf8_encode cs))"

lemma utf8_text_Nil [simp]: "utf8_text []"
  unfolding utf8_text_def by (rule exI [of _ "[]"]) simp

lemma utf8_text_append: "utf8_text xs \<Longrightarrow> unicode_scalar c \<Longrightarrow> utf8_text (xs @ utf8_encode c)"
  unfolding utf8_text_def by (elim exE, rule_tac x = "cs @ [c]" in exI) simp

lemma or_disjoint_add:
  fixes v c :: u32
  assumes "take_bit n c = 0" and "take_bit n v = v"
  shows "c OR v = c + v"
proof -
  have "c AND v = c AND take_bit n v" using assms(2) by simp
  also have "\<dots> = take_bit n c AND v" by (simp add: take_bit_eq_mask ac_simps)
  finally have "c AND v = 0" using assms(1) by simp
  then show ?thesis by (simp add: disjunctive_add_eq_or)
qed

lemma unat_or_byte:
  fixes v c :: u32
  assumes "take_bit n c = 0" and "unat v < 2 ^ n" and "unat c + unat v < 2 ^ 8"
  shows "(ucast (c OR v) :: u8) = of_nat (unat c + unat v)"
proof -
  have "take_bit n v = v"
    using assms(2) by (simp add: word_unat_eq_iff unsigned_take_bit_eq take_bit_nat_eq_self)
  from or_disjoint_add [OF assms(1) this] have "ucast (c OR v) = (ucast (c + v) :: u8)" by simp
  also have "\<dots> = of_nat (unat (c + v))" by simp
  finally show ?thesis using assms(3) by (simp add: unat_word_ariths)
qed


lemma unat_low6: "unat (v AND 0x3F :: u32) = unat v mod 0x40"
proof -
  have "(0x3F :: u32) = mask 6" by (simp add: mask_eq_exp_minus_1)
  then have "v AND 0x3F = take_bit 6 v" by (simp only: take_bit_eq_mask)
  then have "unat (v AND 0x3F) = take_bit 6 (unat v)" by (simp only: unsigned_take_bit_eq)
  then show ?thesis by (simp add: take_bit_eq_mod)
qed

lemma unat_shift: "unat (drop_bit n v :: u32) = unat v div 2 ^ n"
  by (simp only: unat_drop_bit_eq) (simp only: drop_bit_eq_div)

lemma low_byte: "(ucast (0x80 OR (v AND 0x3F :: u32)) :: u8) = of_nat (0x80 + unat v mod 0x40)"
  using unat_or_byte [where n = 6 and c = "0x80" and v = "v AND 0x3F"] by (simp add: unat_low6)

lemma append_utf8_encode:
  assumes "unat v < 0x110000"
  shows "append_utf8 v = utf8_encode (unat v)"
proof -
  note bounds = word_le_nat_alt [of v]
  consider (a) "unat v < 0x80" | (b) "0x80 \<le> unat v" "unat v < 0x800"
    | (c) "0x800 \<le> unat v" "unat v < 0x10000" | (d) "0x10000 \<le> unat v" by linarith
  then show ?thesis
  proof cases
    case a
    then show ?thesis by (simp add: append_utf8_def utf8_encode_def bounds)
  next
    case b
    have "(ucast (0xC0 OR drop_bit 6 v) :: u8) = of_nat (0xC0 + unat v div 0x40)"
      using b unat_or_byte [where n = 6 and c = "0xC0" and v = "drop_bit 6 v"] by (simp add: unat_shift)
    with b show ?thesis by (simp add: append_utf8_def utf8_encode_def bounds low_byte)
  next
    case c
    have "(ucast (0xE0 OR drop_bit 12 v) :: u8) = of_nat (0xE0 + unat v div 0x1000)"
      using c unat_or_byte [where n = 4 and c = "0xE0" and v = "drop_bit 12 v"] by (simp add: unat_shift)
    with c show ?thesis by (simp add: append_utf8_def utf8_encode_def bounds low_byte unat_shift)
  next
    case d
    have "(ucast (0xF0 OR drop_bit 18 v) :: u8) = of_nat (0xF0 + unat v div 0x40000)"
      using d assms unat_or_byte [where n = 3 and c = "0xF0" and v = "drop_bit 18 v"] by (simp add: unat_shift)
    with d show ?thesis by (simp add: append_utf8_def utf8_encode_def bounds low_byte unat_shift)
  qed
qed

lemma unat_lt_u8: "unat (x :: u8) < 256"
  using unsigned_less [of x, where 'a = nat] by simp

lemma hex_digit_bound: "hex_digit c = Some d \<Longrightarrow> unat d < 16"
proof -
  have sub: "unat (ucast c - k + j :: u32) = unat c - unat k + unat j"
    if "unat k \<le> unat c" "unat j < 100" for k j
  proof -
    have u: "unat (ucast c :: u32) = unat c"
      using unat_lt_u8 [of c] by (simp add: unsigned_ucast_eq take_bit_nat_eq_self)
    then have "unat (ucast c - k :: u32) = unat c - unat k" using that(1) by (simp add: unat_sub word_le_nat_alt)
    then show ?thesis using that unat_lt_u8 [of c] by (simp add: unat_word_ariths)
  qed
  show "hex_digit c = Some d \<Longrightarrow> unat d < 16"
    using sub [of 48 0] sub [of 97 10] sub [of 65 10]
    by (auto simp: word_le_nat_alt split: if_splits)
qed

lemma hex_digits_bound:
  "hex_digits n x rest = Inr (v, rest') \<Longrightarrow> unat x < 16 ^ m \<Longrightarrow> m + n \<le> 4 \<Longrightarrow> unat v < 16 ^ (m + n)"
proof (induction n x rest arbitrary: m rule: hex_digits.induct)
  case (1 x rest)
  then show ?case by simp
next
  case (2 n x)
  then show ?case by simp
next
  case (3 n x c rest)
  then obtain d where d: "hex_digit c = Some d"
    and r: "hex_digits n (push_bit 4 x + d) rest = Inr (v, rest')" by (auto split: option.splits)
  have "(16 :: nat) ^ m \<le> 16 ^ 3" using "3.prems"(3) by (intro power_increasing) simp_all
  then have x: "unat x < 4096" using "3.prems"(2) by simp
  have "unat (push_bit 4 x + d) = 16 * unat x + unat d"
    using x hex_digit_bound [OF d] by (simp add: push_bit_eq_mult unat_word_ariths)
  with hex_digit_bound [OF d] "3.prems"(2) have "unat (push_bit 4 x + d) < 16 ^ Suc m" by simp
  from "3.IH" [OF d r this] "3.prems"(3) show ?case by simp
qed

lemma parse_hex4_bound: "parse_hex4 rest = Inr (v, rest') \<Longrightarrow> unat v < 0x10000"
  using hex_digits_bound [of 4 0 rest v rest' 0] by (simp add: parse_hex4_def split: if_splits)

lemma unat_surrogates:
  "unat a < 0x400 \<Longrightarrow> unat b < 0x400 \<Longrightarrow>
     unat (0x10000 + push_bit 10 a + b :: u32) = 0x10000 + 0x400 * unat a + unat b"
  by (simp add: push_bit_eq_mult unat_word_ariths)

lemma parse_codepoint_scalar:
  assumes "parse_codepoint rest = Inr (v, rest')"
  shows "unicode_scalar (unat v)"
proof -
  obtain x r where x: "parse_hex4 rest = Inr (x, r)"
    using assms by (auto simp: parse_codepoint_def split: sum.splits)
  note bx = parse_hex4_bound [OF x]
  show ?thesis
  proof (cases "0xD800 \<le> x \<and> x \<le> 0xDBFF")
    case True
    with assms x obtain y r' where y: "\<not> y < 0xDC00" "\<not> y > 0xDFFF"
      and v: "v = 0x10000 + push_bit 10 (x - 0xD800) + (y - 0xDC00)"
      by (auto simp: parse_codepoint_def split: sum.splits if_splits list.splits)
    have xs: "unat (x - 0xD800) = unat x - 0xD800" "unat x - 0xD800 < 0x400"
      using True by (auto simp: unat_sub word_le_nat_alt)
    have ys: "unat (y - 0xDC00) = unat y - 0xDC00" "unat y - 0xDC00 < 0x400"
      using y by (auto simp: unat_sub word_le_nat_alt word_less_nat_alt)
    have "unat v = 0x10000 + 0x400 * (unat x - 0xD800) + (unat y - 0xDC00)"
      using xs ys unat_surrogates [of "x - 0xD800" "y - 0xDC00"] unfolding v by simp
    with xs ys show ?thesis by (simp add: unicode_scalar_def)
  next
    case False
    with assms x bx show ?thesis
      by (auto simp: parse_codepoint_def unicode_scalar_def word_le_nat_alt split: if_splits)
  qed
qed


lemma of_nat_byte: "n = unat (b :: u8) \<Longrightarrow> of_nat n = b"
  by simp

lemma split64: "y < 0x40 \<Longrightarrow> (x * 0x40 + y) div 0x40 = x \<and> (x * 0x40 + y) mod 0x40 = y" for x y :: nat
  by simp

lemma div_0x1000: "c div 0x1000 = c div 0x40 div 0x40" and div_0x40000: "c div 0x40000 = c div 0x40 div 0x40 div 0x40"
  for c :: nat
  by (simp_all add: div_mult2_eq [symmetric])

lemma three_byte_scalar:
  fixes x y z :: nat
  assumes "x < 0x10" and "y < 0x40" and "z < 0x40" and "x = 0 \<Longrightarrow> 0x20 \<le> y" and "x = 0xD \<Longrightarrow> y < 0x20"
  defines "c \<equiv> (x * 0x40 + y) * 0x40 + z"
  shows "0x800 \<le> c" and "c < 0x10000" and "unicode_scalar c"
proof -
  have c: "c = 0x1000 * x + 0x40 * y + z" by (simp add: c_def)
  show "0x800 \<le> c" using assms(4) unfolding c by (cases "x = 0") linarith+
  show "c < 0x10000" using assms(1-3) unfolding c by linarith
  consider "x \<le> 0xC" | "x = 0xD" | "0xE \<le> x" by linarith
  then have "c < 0xD800 \<or> 0xE000 \<le> c" using assms(1-3,5) unfolding c by cases linarith+
  with \<open>c < 0x10000\<close> show "unicode_scalar c" unfolding unicode_scalar_def by linarith
qed

lemma four_byte_scalar:
  fixes x y z w :: nat
  assumes "x \<le> 4" and "y < 0x40" and "z < 0x40" and "w < 0x40" and "x = 0 \<Longrightarrow> 0x10 \<le> y" and "x = 4 \<Longrightarrow> y < 0x10"
  defines "c \<equiv> ((x * 0x40 + y) * 0x40 + z) * 0x40 + w"
  shows "0x10000 \<le> c" and "unicode_scalar c"
proof -
  have c: "c = 0x40000 * x + 0x1000 * y + 0x40 * z + w" by (simp add: c_def)
  show "0x10000 \<le> c" using assms(5) unfolding c by (cases "x = 0") linarith+
  have "c < 0x110000" using assms(1-4,6) unfolding c by (cases "x = 4") linarith+
  with \<open>0x10000 \<le> c\<close> show "unicode_scalar c" unfolding unicode_scalar_def by linarith
qed

lemma lead_class_cases:
  assumes "lead_class lead = Some (n, lo, hi)"
  obtains "n = 1" "0xC2 \<le> unat lead" "unat lead \<le> 0xDF" "lo = 0x80" "hi = 0xBF"
  | "n = 2" "0xE0 \<le> unat lead" "unat lead \<le> 0xEF" "lo = (if lead = 0xE0 then 0xA0 else 0x80)"
      "hi = (if lead = 0xED then 0x9F else 0xBF)"
  | "n = 3" "0xF0 \<le> unat lead" "unat lead \<le> 0xF4" "lo = (if lead = 0xF0 then 0x90 else 0x80)"
      "hi = (if lead = 0xF4 then 0x8F else 0xBF)"
proof -
  have bounds: "k \<le> lead \<longleftrightarrow> unat k \<le> unat lead" "lead \<le> k \<longleftrightarrow> unat lead \<le> unat k" for k
    by (simp_all add: word_le_nat_alt)
  consider (a) "0xC2 \<le> lead \<and> lead \<le> 0xDF" | (b) "\<not> (0xC2 \<le> lead \<and> lead \<le> 0xDF)" "0xE0 \<le> lead \<and> lead \<le> 0xEF"
    | (c) "\<not> (0xC2 \<le> lead \<and> lead \<le> 0xDF)" "\<not> (0xE0 \<le> lead \<and> lead \<le> 0xEF)" "0xF0 \<le> lead \<and> lead \<le> 0xF4"
    | (d) "\<not> (0xC2 \<le> lead \<and> lead \<le> 0xDF)" "\<not> (0xE0 \<le> lead \<and> lead \<le> 0xEF)" "\<not> (0xF0 \<le> lead \<and> lead \<le> 0xF4)"
    by blast
  then show thesis
  proof cases
    case a
    with assms that(1) show thesis unfolding lead_class_def by (simp add: bounds)
  next
    case b
    then have e: "lead_class lead = Some (2, if lead = 0xE0 then 0xA0 else 0x80, if lead = 0xED then 0x9F else 0xBF)"
      unfolding lead_class_def by (simp only: if_False if_True simp_thms)
    from b(2) have "0xE0 \<le> unat lead" "unat lead \<le> 0xEF" by (simp_all add: bounds)
    with assms e that(2) show thesis by (simp only: option.inject prod.inject)
  next
    case c
    then have e: "lead_class lead = Some (3, if lead = 0xF0 then 0x90 else 0x80, if lead = 0xF4 then 0x8F else 0xBF)"
      unfolding lead_class_def by (simp only: if_False if_True simp_thms)
    from c(3) have "0xF0 \<le> unat lead" "unat lead \<le> 0xF4" by (simp_all add: bounds)
    with assms e that(3) show thesis by (simp only: option.inject prod.inject)
  next
    case d
    with assms show thesis unfolding lead_class_def by simp
  qed
qed

lemma append_raw_utf8_scalar:
  assumes "append_raw_utf8 lead rest = Inr (piece, rest')"
  obtains c where "unicode_scalar c" "piece = utf8_encode c"
proof -
  obtain n lo hi where lc: "lead_class lead = Some (n, lo, hi)" and len: "n \<le> length rest"
    and second: "lo \<le> rest ! 0" "rest ! 0 \<le> hi"
    and others: "\<forall>c\<in>set (drop 1 (take n rest)). 0x80 \<le> c \<and> c \<le> 0xBF"
    and piece: "piece = lead # take n rest"
    using assms by (auto simp: append_raw_utf8_def not_less list_ex_iff split: option.splits if_splits)
  let ?l = "unat lead"
  consider (two) "n = 1" "0xC2 \<le> ?l" "?l \<le> 0xDF" "lo = 0x80" "hi = 0xBF"
    | (three) "n = 2" "0xE0 \<le> ?l" "?l \<le> 0xEF" "lo = (if lead = 0xE0 then 0xA0 else 0x80)"
        "hi = (if lead = 0xED then 0x9F else 0xBF)"
    | (four) "n = 3" "0xF0 \<le> ?l" "?l \<le> 0xF4" "lo = (if lead = 0xF0 then 0x90 else 0x80)"
        "hi = (if lead = 0xF4 then 0x8F else 0xBF)"
    by (rule lead_class_cases [OF lc])
  then show thesis
  proof cases
    case two
    with len obtain b r where rest: "rest = b # r" by (cases rest) auto
    let ?b = "unat b"
    have b: "0x80 \<le> ?b" "?b \<le> 0xBF" using second rest two by (simp_all add: word_le_nat_alt)
    define c where "c = (?l - 0xC0) * 0x40 + (?b - 0x80)"
    have "?b - 0x80 < 0x40" using b by linarith
    from split64 [OF this, of "?l - 0xC0"] have "c div 0x40 = ?l - 0xC0" "c mod 0x40 = ?b - 0x80"
      unfolding c_def by blast+
    moreover have "0x80 \<le> c" "c < 0x800" using two b by (simp_all add: c_def)
    ultimately have "utf8_encode c = [lead, b]" using two b by (simp add: utf8_encode_def)
    then show thesis using \<open>c < 0x800\<close> that [of c] piece rest two by (simp add: unicode_scalar_def)
  next
    case three
    then obtain b d r where rest: "rest = b # d # r"
      using len by (metis Suc_le_length_iff numeral_2_eq_2 One_nat_def)
    let ?b = "unat b" and ?d = "unat d"
    have d: "0x80 \<le> ?d" "?d \<le> 0xBF" using others rest three by (simp_all add: word_le_nat_alt)
    have b: "0x80 \<le> ?b" "?b \<le> 0xBF" "?l = 0xE0 \<Longrightarrow> 0xA0 \<le> ?b" "?l = 0xED \<Longrightarrow> ?b \<le> 0x9F"
      using second rest three by (auto simp: word_le_nat_alt word_unat_eq_iff split: if_splits)
    define c where "c = ((?l - 0xE0) * 0x40 + (?b - 0x80)) * 0x40 + (?d - 0x80)"
    have "?b - 0x80 < 0x40" "?d - 0x80 < 0x40" using b d by linarith+
    then have parts: "c div 0x1000 = ?l - 0xE0" "c div 0x40 mod 0x40 = ?b - 0x80" "c mod 0x40 = ?d - 0x80"
      unfolding c_def div_0x1000 by (simp_all only: split64)
    have range: "0x800 \<le> c" "c < 0x10000" and "unicode_scalar c"
      unfolding c_def by (rule three_byte_scalar; use three b d in linarith)+
    have "\<not> c < 0x80" "\<not> c < 0x800" using range by linarith+
    moreover have "0xE0 + (?l - 0xE0) = ?l" "0x80 + (?b - 0x80) = ?b" "0x80 + (?d - 0x80) = ?d"
      using three b d by linarith+
    ultimately have "utf8_encode c = [lead, b, d]"
      unfolding utf8_encode_def parts using range by (simp only: if_False if_True of_nat_byte)
    with \<open>unicode_scalar c\<close> show thesis using that [of c] piece rest three by simp
  next
    case four
    then obtain b d e r where rest: "rest = b # d # e # r"
      using len by (metis Suc_le_length_iff numeral_3_eq_3)
    let ?b = "unat b" and ?d = "unat d" and ?e = "unat e"
    have d: "0x80 \<le> ?d" "?d \<le> 0xBF" "0x80 \<le> ?e" "?e \<le> 0xBF"
      using others rest four by (simp_all add: word_le_nat_alt)
    have b: "0x80 \<le> ?b" "?b \<le> 0xBF" "?l = 0xF0 \<Longrightarrow> 0x90 \<le> ?b" "?l = 0xF4 \<Longrightarrow> ?b \<le> 0x8F"
      using second rest four by (auto simp: word_le_nat_alt word_unat_eq_iff split: if_splits)
    define c where "c = (((?l - 0xF0) * 0x40 + (?b - 0x80)) * 0x40 + (?d - 0x80)) * 0x40 + (?e - 0x80)"
    have "?b - 0x80 < 0x40" "?d - 0x80 < 0x40" "?e - 0x80 < 0x40" using b d by linarith+
    then have parts: "c div 0x40000 = ?l - 0xF0" "c div 0x1000 mod 0x40 = ?b - 0x80"
      "c div 0x40 mod 0x40 = ?d - 0x80" "c mod 0x40 = ?e - 0x80"
      unfolding c_def div_0x1000 div_0x40000 by (simp_all only: split64)
    have range: "0x10000 \<le> c" and "unicode_scalar c"
      unfolding c_def by (rule four_byte_scalar; use four b d in linarith)+
    have "\<not> c < 0x80" "\<not> c < 0x800" "\<not> c < 0x10000" using range by linarith+
    moreover have "0xF0 + (?l - 0xF0) = ?l" "0x80 + (?b - 0x80) = ?b" "0x80 + (?d - 0x80) = ?d"
      "0x80 + (?e - 0x80) = ?e" using four b d by linarith+
    ultimately have "utf8_encode c = [lead, b, d, e]"
      unfolding utf8_encode_def parts by (simp only: if_False of_nat_byte)
    with \<open>unicode_scalar c\<close> show thesis using that [of c] piece rest four by simp
  qed
qed

lemma string_piece_scalar:
  assumes "string_piece byte rest = Inr (piece, rest')"
  shows "\<exists>c. unicode_scalar c \<and> piece = utf8_encode c"
proof -
  have small: "unicode_scalar (unat b) \<and> [b] = utf8_encode (unat b)" if "b < 0x80" for b :: u8
    using that by (simp add: unicode_scalar_def utf8_encode_def word_less_nat_alt)
  have coded: "unicode_scalar (unat v) \<and> append_utf8 v = utf8_encode (unat v)"
    if "parse_codepoint r = Inr (v, r')" for r v r'
    using parse_codepoint_scalar [OF that] append_utf8_encode [of v] by (auto simp: unicode_scalar_def)
  show ?thesis
  proof (cases "byte = BACKSLASH")
    case False
    then show ?thesis
      using assms small [of byte] append_raw_utf8_scalar [of byte rest piece rest']
      by (auto simp: string_piece_def split: if_splits)
  next
    case True
    then have "parse_escape rest = Inr (piece, rest')" using assms by (simp add: string_piece_def)
    then consider b where "piece = [b]" "b < 0x80" | r v r' where "parse_codepoint r = Inr (v, r')" "piece = append_utf8 v"
      by (auto simp: parse_escape_def split: list.splits if_splits sum.splits)
    then show ?thesis using small coded by cases blast+
  qed
qed

lemma string_loop_text:
  assumes "string_loop limits rest out = Inr (text, rest')"
    and "utf8_text out" and "length out \<le> jl_max_string_bytes limits"
  shows "utf8_text text \<and> length text \<le> jl_max_string_bytes limits"
  using assms
proof (induction rule: string_loop_induct)
  case (closed rest out)
  then show ?case by simp
next
  case (more byte rest out piece r t rest')
  then show ?case using string_piece_scalar [OF more(2)] utf8_text_append by auto
qed

lemma parse_string_text:
  "parse_string limits rest = Inr (text, rest') \<Longrightarrow> utf8_text text \<and> length text \<le> jl_max_string_bytes limits"
  unfolding parse_string_def by (erule string_loop_text) simp_all


section \<open>Well-formed values\<close>

fun json_nodes :: "JsonValue \<Rightarrow> nat" where
  "json_nodes (JArray vs) = 1 + (\<Sum>v\<leftarrow>vs. json_nodes v)"
| "json_nodes (JObject ms) = 1 + (\<Sum>m\<leftarrow>ms. json_nodes (snd m))"
| "json_nodes _ = 1"

fun json_depth :: "JsonValue \<Rightarrow> nat" where
  "json_depth (JArray vs) = 1 + Max (insert 0 (json_depth ` set vs))"
| "json_depth (JObject ms) = 1 + Max (insert 0 ((\<lambda>m. json_depth (snd m)) ` set ms))"
| "json_depth _ = 1"

definition json_text :: "JsonLimits \<Rightarrow> bytes \<Rightarrow> bool" where
  "json_text limits t \<longleftrightarrow> utf8_text t \<and> length t \<le> jl_max_string_bytes limits"

text \<open>What the type of a parsed value promises beyond its constructors.\<close>

fun json_ok :: "JsonLimits \<Rightarrow> JsonValue \<Rightarrow> bool" where
  "json_ok limits JNull \<longleftrightarrow> True"
| "json_ok limits (JBool b) \<longleftrightarrow> True"
| "json_ok limits (JInteger i) \<longleftrightarrow> - (2 ^ 63) \<le> i \<and> i < 2 ^ 63"
| "json_ok limits (JDouble bits) \<longleftrightarrow> isfinite bits"
| "json_ok limits (JString t) \<longleftrightarrow> json_text limits t"
| "json_ok limits (JArray vs) \<longleftrightarrow> (\<forall>v\<in>set vs. json_ok limits v)"
| "json_ok limits (JObject ms) \<longleftrightarrow>
     sorted_wrt (<) (map fst ms) \<and> (\<forall>m\<in>set ms. json_text limits (fst m) \<and> json_ok limits (snd m))"

lemma json_depth_pos: "1 \<le> json_depth v"
  by (cases v rule: json_depth.cases) simp_all

lemma adjacent_equal_sorted: "sorted xs \<Longrightarrow> \<not> adjacent_equal xs \<longleftrightarrow> sorted_wrt (<) xs"
proof (induction xs rule: adjacent_equal.induct)
  case (1 x y rest)
  then show ?case by (auto simp: order.strict_iff_order intro: order_antisym)
qed simp_all

lemma finish_object_iff:
  "finish_object vs = Inr v \<longleftrightarrow> v = JObject (sort_key fst vs) \<and> distinct (map fst vs)"
proof -
  have "\<not> adjacent_equal (map fst (sort_key fst vs)) \<longleftrightarrow> sorted_wrt (<) (map fst (sort_key fst vs))"
    by (intro adjacent_equal_sorted) simp
  also have "\<dots> \<longleftrightarrow> distinct (map fst (sort_key fst vs))" by (simp add: strict_sorted_iff)
  also have "\<dots> \<longleftrightarrow> distinct (map fst vs)"
    by (intro mset_eq_imp_distinct_iff) simp
  finally show ?thesis by (auto simp: finish_object_def Let_def)
qed

text \<open>What one successful member, or a run of members, guarantees.\<close>

definition good_member :: "JsonLimits \<Rightarrow> nat \<Rightarrow> (nat \<Rightarrow> bytes \<Rightarrow> JsonValue parse) \<Rightarrow> bool" where
  "good_member limits depth member \<longleftrightarrow>
     (\<forall>nodes rest v nodes' rest'. member nodes rest = Some (Inr (v, nodes', rest')) \<longrightarrow>
        json_ok limits v \<and> nodes' = nodes + json_nodes v \<and> nodes' \<le> jl_max_nodes limits \<and>
        depth + json_depth v \<le> jl_max_depth limits + 1)"

lemma good_memberD:
  assumes "good_member limits depth member" and "member nodes rest = Some (Inr (v, nodes', rest'))"
  shows "json_ok limits v" and "nodes' = nodes + json_nodes v" and "nodes' \<le> jl_max_nodes limits"
    and "depth + json_depth v \<le> jl_max_depth limits + 1"
  using assms unfolding good_member_def by blast+

lemma array_loop_good:
  assumes "good_member limits depth member"
  shows "array_loop fuel member nodes rest vs = Some (Inr (v, nodes', rest')) \<Longrightarrow>
    \<exists>ws. v = JArray (vs @ ws) \<and> nodes' = nodes + (\<Sum>w\<leftarrow>ws. json_nodes w) \<and> nodes' \<le> jl_max_nodes limits \<and>
      (\<forall>w\<in>set ws. json_ok limits w \<and> depth + json_depth w \<le> jl_max_depth limits + 1)"
proof (induction fuel arbitrary: nodes rest vs)
  case 0
  then show ?case by simp
next
  case (Suc fuel)
  then obtain x m r where x: "member nodes rest = Some (Inr (x, m, r))"
    by (auto split: option.splits sum.splits)
  note good = good_memberD [OF assms x]
  show ?case
  proof (cases "consume RBRACKET (skip_space r)")
    case (Some r')
    with Suc.prems x good show ?thesis by (intro exI [of _ "[x]"]) simp
  next
    case None
    with Suc.prems x obtain r' where
      l: "array_loop fuel member m (skip_space r') (vs @ [x]) = Some (Inr (v, nodes', rest'))"
      by (auto split: option.splits)
    obtain ws where ws: "v = JArray ((vs @ [x]) @ ws)" "nodes' = m + (\<Sum>w\<leftarrow>ws. json_nodes w)"
      "nodes' \<le> jl_max_nodes limits"
      "\<forall>w\<in>set ws. json_ok limits w \<and> depth + json_depth w \<le> jl_max_depth limits + 1"
      using Suc.IH [OF l] by blast
    then show ?thesis using good by (intro exI [of _ "x # ws"]) simp
  qed
qed

lemma object_key_text: "object_key limits rest = Inr (key, rest') \<Longrightarrow> json_text limits key"
  by (auto simp: object_key_def json_text_def split: if_splits sum.splits option.splits
      dest!: parse_string_text)

lemma object_loop_good:
  assumes "good_member limits depth member"
  shows "object_loop fuel limits member nodes rest vs = Some (Inr (v, nodes', rest')) \<Longrightarrow>
    \<exists>ms. finish_object (vs @ ms) = Inr v \<and> nodes' = nodes + (\<Sum>m\<leftarrow>ms. json_nodes (snd m)) \<and>
      nodes' \<le> jl_max_nodes limits \<and>
      (\<forall>m\<in>set ms. json_text limits (fst m) \<and> json_ok limits (snd m) \<and>
         depth + json_depth (snd m) \<le> jl_max_depth limits + 1)"
proof (induction fuel arbitrary: nodes rest vs)
  case 0
  then show ?case by simp
next
  case (Suc fuel)
  then obtain key s x m r where k: "object_key limits rest = Inr (key, s)"
    and x: "member nodes s = Some (Inr (x, m, r))" by (auto split: option.splits sum.splits)
  note good = good_memberD [OF assms x] and key = object_key_text [OF k]
  show ?case
  proof (cases "consume RBRACE (skip_space r)")
    case (Some r')
    with Suc.prems k x good key show ?thesis
      by (intro exI [of _ "[(key, x)]"]) (auto simp: close_object_def split: sum.splits)
  next
    case None
    with Suc.prems k x obtain r' where
      l: "object_loop fuel limits member m (skip_space r') (vs @ [(key, x)]) = Some (Inr (v, nodes', rest'))"
      by (auto split: option.splits)
    obtain ms where "finish_object ((vs @ [(key, x)]) @ ms) = Inr v" "nodes' = m + (\<Sum>m\<leftarrow>ms. json_nodes (snd m))"
      "nodes' \<le> jl_max_nodes limits"
      "\<forall>m\<in>set ms. json_text limits (fst m) \<and> json_ok limits (snd m) \<and>
         depth + json_depth (snd m) \<le> jl_max_depth limits + 1"
      using Suc.IH [OF l] by blast
    then show ?thesis using good key by (intro exI [of _ "(key, x) # ms"]) simp
  qed
qed


lemma number_value_ok: "number_value to_double integral token = Inr v \<Longrightarrow>
    json_ok limits v \<and> json_nodes v = 1 \<and> json_depth v = 1"
  by (auto simp: number_value_def from_chars_int64_def Let_def split: if_splits option.splits)

lemma scalar_value_ok: "scalar_value to_double limits rest = Inr (v, rest') \<Longrightarrow>
    json_ok limits v \<and> json_nodes v = 1 \<and> json_depth v = 1"
  by (auto simp: scalar_value_def literal_def parse_number_def json_text_def split: if_splits sum.splits
      dest!: parse_string_text number_value_ok [where limits = limits])

lemma json_depth_members:
  fixes d m :: nat
  assumes "finite S" and "\<forall>x\<in>S. d + 1 + f x \<le> m + 1" and "d \<le> m"
  shows "d + (1 + Max (insert 0 (f ` S))) \<le> m + 1"
proof -
  have "Max (insert 0 (f ` S)) \<in> insert 0 (f ` S)" using assms(1) by (intro Max_in) simp_all
  then show ?thesis using assms(2,3) by auto
qed

lemma parse_array_good:
  assumes "good_member limits depth member" and "nodes \<le> jl_max_nodes limits"
    and p: "parse_array fuel member nodes rest = Some (Inr (v, nodes', rest'))"
  obtains ws where "v = JArray ws" "nodes' = nodes + (\<Sum>w\<leftarrow>ws. json_nodes w)" "nodes' \<le> jl_max_nodes limits"
    "\<forall>w\<in>set ws. json_ok limits w \<and> depth + json_depth w \<le> jl_max_depth limits + 1"
proof (cases "consume RBRACKET (skip_space (drop 1 rest))")
  case None
  with p have "array_loop fuel member nodes (skip_space (drop 1 rest)) [] = Some (Inr (v, nodes', rest'))"
    by (simp add: parse_array_def)
  from array_loop_good [OF assms(1) this] show thesis using that by auto
next
  case (Some r)
  with p assms(2) show thesis by (intro that [of "[]"]) (simp_all add: parse_array_def)
qed

lemma parse_object_good:
  assumes "good_member limits depth member" and "nodes \<le> jl_max_nodes limits"
    and p: "parse_object fuel limits member nodes rest = Some (Inr (v, nodes', rest'))"
  obtains ms where "finish_object ms = Inr v" "nodes' = nodes + (\<Sum>m\<leftarrow>ms. json_nodes (snd m))"
    "nodes' \<le> jl_max_nodes limits"
    "\<forall>m\<in>set ms. json_text limits (fst m) \<and> json_ok limits (snd m) \<and>
       depth + json_depth (snd m) \<le> jl_max_depth limits + 1"
proof (cases "consume RBRACE (skip_space (drop 1 rest))")
  case None
  with p have "object_loop fuel limits member nodes (skip_space (drop 1 rest)) [] = Some (Inr (v, nodes', rest'))"
    by (simp add: parse_object_def)
  from object_loop_good [OF assms(1) this] show thesis using that by auto
next
  case (Some r)
  with p assms(2) show thesis
    by (intro that [of "[]"]) (auto simp: parse_object_def close_object_def split: sum.splits)
qed

lemma parse_value_good: "good_member limits depth (parse_value fuel to_double limits depth)"
proof (induction fuel arbitrary: depth)
  case 0
  then show ?case by (simp add: good_member_def)
next
  case (Suc fuel)
  note IH = Suc.IH [of "depth + 1"]
  have "json_ok limits v \<and> nodes' = nodes + json_nodes v \<and> nodes' \<le> jl_max_nodes limits \<and>
      depth + json_depth v \<le> jl_max_depth limits + 1"
    if p: "parse_value (Suc fuel) to_double limits depth nodes rest = Some (Inr (v, nodes', rest'))"
    for nodes rest v nodes' rest'
  proof -
    from p have b: "depth \<le> jl_max_depth limits" "nodes + 1 \<le> jl_max_nodes limits" "rest \<noteq> []"
      by (auto split: if_splits)
    consider (array) "parse_array fuel (parse_value fuel to_double limits (depth + 1)) (nodes + 1) rest = Some (Inr (v, nodes', rest'))"
      | (object) "parse_object fuel limits (parse_value fuel to_double limits (depth + 1)) (nodes + 1) rest = Some (Inr (v, nodes', rest'))"
      | (scalar) "scalar_value to_double limits rest = Inr (v, rest')" "nodes' = nodes + 1"
      using p by (auto split: if_splits sum.splits)
    then show ?thesis
    proof cases
      case array
      obtain ws where "v = JArray ws" "nodes' = nodes + 1 + (\<Sum>w\<leftarrow>ws. json_nodes w)"
        "nodes' \<le> jl_max_nodes limits"
        "\<forall>w\<in>set ws. json_ok limits w \<and> depth + 1 + json_depth w \<le> jl_max_depth limits + 1"
        by (rule parse_array_good [OF IH b(2) array])
      then show ?thesis
        using b json_depth_members [of "set ws" depth json_depth "jl_max_depth limits"] by simp
    next
      case object
      obtain ms where ms: "finish_object ms = Inr v" "nodes' = nodes + 1 + (\<Sum>m\<leftarrow>ms. json_nodes (snd m))"
        "nodes' \<le> jl_max_nodes limits"
        "\<forall>m\<in>set ms. json_text limits (fst m) \<and> json_ok limits (snd m) \<and>
           depth + 1 + json_depth (snd m) \<le> jl_max_depth limits + 1"
        by (rule parse_object_good [OF IH b(2) object])
      have v: "v = JObject (sort_key fst ms)" and "distinct (map fst ms)"
        using ms(1) by (simp_all add: finish_object_iff)
      then have "sorted_wrt (<) (map fst (sort_key fst ms))"
        using adjacent_equal_sorted [of "map fst (sort_key fst ms)"] ms(1)
        by (auto simp: finish_object_def Let_def split: if_splits)
      moreover have "(\<Sum>m\<leftarrow>sort_key fst ms. json_nodes (snd m)) = (\<Sum>m\<leftarrow>ms. json_nodes (snd m))"
        by (simp only: sum_mset_sum_list [symmetric] mset_map mset_sort)
      ultimately show ?thesis
        using v ms b json_depth_members [of "set ms" depth "\<lambda>m. json_depth (snd m)" "jl_max_depth limits"] by simp
    next
      case scalar
      with scalar_value_ok [OF scalar(1)] b show ?thesis by simp
    qed
  qed
  then show ?case unfolding good_member_def by blast
qed

lemma parsed_value_ok:
  assumes "json_Parse to_double input limits = Some (Inr v)"
  shows "json_ok limits v" and "json_nodes v \<le> jl_max_nodes limits" and "json_depth v \<le> jl_max_depth limits"
proof -
  obtain nodes rest where
    "parse_value (parser_fuel input) to_double limits 1 0 (skip_space input) = Some (Inr (v, nodes, rest))"
    using assms by (auto simp: json_Parse_def json_parser_def split: if_splits option.splits sum.splits)
  from good_memberD [OF parse_value_good this] show "json_ok limits v"
    and "json_nodes v \<le> jl_max_nodes limits" and "json_depth v \<le> jl_max_depth limits" by simp_all
qed

text \<open>Small limits, for examples.\<close>

definition sample_limits :: JsonLimits where
  "sample_limits = \<lparr>jl_max_input_bytes = 64, jl_max_depth = 3, jl_max_nodes = 12, jl_max_string_bytes = 8\<rparr>"

section \<open>Properties\<close>

text \<open> C32. Parsing always ends: the parser returns a value or a fault for every input and every
  limits, and a larger fuel would give the same result.\<close>

theorem json_Parse_total:
  "json_Parse to_double input limits \<noteq> None \<and>
   parse_value (parser_fuel input + k) to_double limits 1 0 (skip_space input) =
     parse_value (parser_fuel input) to_double limits 1 0 (skip_space input)"
proof -
  have "length (skip_space input) < parser_fuel input"
    using skip_space_length [of input] by (simp add: parser_fuel_def)
  then obtain x where x: "parse_value (parser_fuel input) to_double limits 1 0 (skip_space input) = Some x"
    using parse_value_total by (metis not_None_eq)
  with parse_value_more_fuel [of "parser_fuel input" to_double limits 1 k]
  have "parse_value (parser_fuel input + k) to_double limits 1 0 (skip_space input) = Some x"
    by (simp add: extends_def)
  then show ?thesis
    using x by (auto simp: json_Parse_def json_parser_def split: option.splits sum.splits)
qed

text \<open> C33. A parsed value is within the budgets and well typed: its nodes and its depth are within
  the limits, integers are 64-bit, doubles are finite, every string and key is the UTF-8 encoding of
  Unicode scalar values within the string budget, and the keys of every object are strictly
  increasing.\<close>

theorem json_Parse_well_formed:
  assumes "json_Parse to_double input limits = Some (Inr v)"
  shows "json_ok limits v \<and> json_nodes v \<le> jl_max_nodes limits \<and> json_depth v \<le> jl_max_depth limits"
  using parsed_value_ok [OF assms] by blast

theorem json_Parse_well_formed_witness:
  "json_ok sample_limits (JObject [([97], JInteger 1), ([98], JNull)])"
proof -
  have "json_Parse (\<lambda>token. None) [123, 34, 98, 34, 58, 110, 117, 108, 108, 44, 34, 97, 34, 58, 49, 125]
      sample_limits = Some (Inr (JObject [([97], JInteger 1), ([98], JNull)]))"
    by code_simp
  from json_Parse_well_formed [OF this] show ?thesis by blast
qed

text \<open> C34. Looking a key up in a finished object gives the same answer as looking it up among the
  members in the order in which they were written: sorting the members neither loses nor changes
  an entry, and duplicate keys, for which the answer would depend on the order, are refused.\<close>

theorem json_at_finish_object:
  "(case finish_object members of
      Inl e \<Rightarrow> e = duplicate_key \<and> \<not> distinct (map fst members)
    | Inr object \<Rightarrow> distinct (map fst members) \<and> json_at object key = map_of members key)"
proof (cases "finish_object members")
  case (Inl e)
  then show ?thesis using finish_object_iff [of members]
    by (auto simp: finish_object_def Let_def split: if_splits)
next
  case (Inr object)
  then have o: "object = JObject (sort_key fst members)" and d: "distinct (map fst members)"
    by (simp_all add: finish_object_iff)
  have find: "json_at (JObject ms) key = map_of ms key" for ms
    by (induction ms) (auto split: option.splits simp del: find_index_None_iff)
  have "distinct (map fst (sort_key fst members))"
    using d by (subst mset_eq_imp_distinct_iff [of _ "map fst members"]) simp_all
  then have "map_of (sort_key fst members) = map_of members"
    using d by (intro map_of_inject_set [THEN iffD2]) simp_all
  with Inr o d find show ?thesis by simp
qed

end
