(* ===== verification/CanonicalJson.thy ===== *)
theory CanonicalJson
  imports Json
begin

text \<open>
  \<open>canonical_json.h\<close> and \<open>canonical_json.cpp\<close>: the writer that serialises a JSON value in the ASCII
  canonical form over which authorities are signed. The writer's buffer is passed along; its partial
  content is discarded with the writer when a step fails, so a failing step is just its fault.

  The lemmas show that the writer computes \<open>render\<close> within its byte budget, that the bounded parser
  reads a canonical form back as the value it came from, and therefore that the canonical form
  identifies the value.
\<close>

section \<open>The writer\<close>

datatype CanonicalFault =
    byte_budget_must_be_nonzero | output_is_empty | exceeds_byte_budget | must_be_ascii
  | cannot_encode_integer | forbids_floating_point | root_omissions_require_object
  | omitted_field_is_empty | omitted_field_is_duplicated

fun canonical_status :: "CanonicalFault \<Rightarrow> status" where
  "canonical_status byte_budget_must_be_nonzero = InvalidArgument ''canonical JSON byte budget must be nonzero''"
| "canonical_status output_is_empty = InvalidArgument ''canonical JSON output is empty''"
| "canonical_status exceeds_byte_budget = ResourceExhausted ''canonical JSON exceeds byte budget''"
| "canonical_status must_be_ascii = InvalidArgument ''canonical authority JSON must be ASCII''"
| "canonical_status cannot_encode_integer = Internal ''cannot encode canonical JSON integer''"
| "canonical_status forbids_floating_point = InvalidArgument ''canonical authority JSON forbids floating-point numbers''"
| "canonical_status root_omissions_require_object = InvalidArgument ''canonical JSON root omissions require an object''"
| "canonical_status omitted_field_is_empty = InvalidArgument ''canonical JSON omitted field is empty''"
| "canonical_status omitted_field_is_duplicated = InvalidArgument ''canonical JSON omitted field is duplicated''"

type_synonym written = "CanonicalFault + bytes"

definition append_bytes :: "nat \<Rightarrow> bytes \<Rightarrow> bytes \<Rightarrow> written" where
  "append_bytes maximum_bytes source out =
     (if length source > maximum_bytes - length out then Inl exceeds_byte_budget
      else Inr (out @ source))"

fun and_then :: "written \<Rightarrow> (bytes \<Rightarrow> written) \<Rightarrow> written" where
  "and_then (Inl e) f = Inl e"
| "and_then (Inr out) f = f out"

definition kHex :: "u8 \<Rightarrow> u8" where
  "kHex n = (if n < 10 then 48 + n else 87 + n)"

definition escaped :: "u8 \<Rightarrow> bytes" where
  "escaped byte =
     (if byte = QUOTE then [BACKSLASH, QUOTE]
      else if byte = BACKSLASH then [BACKSLASH, BACKSLASH]
      else if byte = 8 then [BACKSLASH, LETTER_b]
      else if byte = 12 then [BACKSLASH, LETTER_f]
      else if byte = 10 then [BACKSLASH, LETTER_n]
      else if byte = 13 then [BACKSLASH, LETTER_r]
      else if byte = 9 then [BACKSLASH, LETTER_t]
      else if byte < 0x20
      then [BACKSLASH, LETTER_u, ZERO, ZERO, kHex (drop_bit 4 byte), kHex (byte AND 0x0F)]
      else [byte])"

primrec append_escaped :: "nat \<Rightarrow> bytes \<Rightarrow> bytes \<Rightarrow> written" where
  "append_escaped maximum_bytes [] out = Inr out"
| "append_escaped maximum_bytes (byte # rest) out =
     (if byte > 0x7F then Inl must_be_ascii
      else and_then (append_bytes maximum_bytes (escaped byte) out)
             (append_escaped maximum_bytes rest))"

definition append_string :: "nat \<Rightarrow> bytes \<Rightarrow> bytes \<Rightarrow> written" where
  "append_string maximum_bytes text out =
     and_then (append_bytes maximum_bytes [QUOTE] out) (\<lambda>out.
     and_then (append_escaped maximum_bytes text out)
       (append_bytes maximum_bytes [QUOTE]))"

text \<open>\<open>std::to_chars\<close> of a signed integer.\<close>

fun nat_digits :: "nat \<Rightarrow> bytes" where
  "nat_digits n =
     (if n < 10 then [of_nat (48 + n)] else nat_digits (n div 10) @ [of_nat (48 + n mod 10)])"

declare nat_digits.simps [simp del]

definition to_chars_int64 :: "int \<Rightarrow> bytes" where
  "to_chars_int64 i = (if i < 0 then MINUS # nat_digits (nat (- i)) else nat_digits (nat i))"

definition kIntegerBuffer :: nat where
  "kIntegerBuffer = 32"

fun append_value :: "nat \<Rightarrow> bytes list \<Rightarrow> JsonValue \<Rightarrow> bool \<Rightarrow> bytes \<Rightarrow> written"
  and append_elements :: "nat \<Rightarrow> bytes list \<Rightarrow> bool \<Rightarrow> JsonValue list \<Rightarrow> bytes \<Rightarrow> written"
  and append_members ::
    "nat \<Rightarrow> bytes list \<Rightarrow> bool \<Rightarrow> bool \<Rightarrow> (bytes \<times> JsonValue) list \<Rightarrow> bytes \<Rightarrow> written" where
  "append_value maximum_bytes omitted JNull root out =
     append_bytes maximum_bytes [110, 117, 108, 108] out"
| "append_value maximum_bytes omitted (JBool b) root out =
     append_bytes maximum_bytes (if b then [116, 114, 117, 101] else [102, 97, 108, 115, 101]) out"
| "append_value maximum_bytes omitted (JInteger i) root out =
     (if length (to_chars_int64 i) > kIntegerBuffer then Inl cannot_encode_integer
      else append_bytes maximum_bytes (to_chars_int64 i) out)"
| "append_value maximum_bytes omitted (JDouble bits) root out = Inl forbids_floating_point"
| "append_value maximum_bytes omitted (JString text) root out = append_string maximum_bytes text out"
| "append_value maximum_bytes omitted (JArray vs) root out =
     and_then (append_bytes maximum_bytes [LBRACKET] out) (\<lambda>out.
     and_then (append_elements maximum_bytes omitted True vs out)
       (append_bytes maximum_bytes [RBRACKET]))"
| "append_value maximum_bytes omitted (JObject ms) root out =
     and_then (append_bytes maximum_bytes [LBRACE] out) (\<lambda>out.
     and_then (append_members maximum_bytes omitted root True ms out)
       (append_bytes maximum_bytes [RBRACE]))"
| "append_elements maximum_bytes omitted first [] out = Inr out"
| "append_elements maximum_bytes omitted first (v # vs) out =
     and_then (if first then Inr out else append_bytes maximum_bytes [COMMA] out) (\<lambda>out.
     and_then (append_value maximum_bytes omitted v False out)
       (append_elements maximum_bytes omitted False vs))"
| "append_members maximum_bytes omitted root first [] out = Inr out"
| "append_members maximum_bytes omitted root first ((key, v) # ms) out =
     (if root \<and> key \<in> set omitted then append_members maximum_bytes omitted root first ms out
      else
        and_then (if first then Inr out else append_bytes maximum_bytes [COMMA] out) (\<lambda>out.
        and_then (append_string maximum_bytes key out) (\<lambda>out.
        and_then (append_bytes maximum_bytes [COLON] out) (\<lambda>out.
        and_then (append_value maximum_bytes omitted v False out)
          (append_members maximum_bytes omitted root False ms)))))"

definition canonical_write :: "nat \<Rightarrow> bytes list \<Rightarrow> JsonValue \<Rightarrow> written" where
  "canonical_write maximum_bytes omitted v =
     (if maximum_bytes = 0 then Inl byte_budget_must_be_nonzero
      else and_then (append_value maximum_bytes omitted v True [])
        (\<lambda>out. if out = [] then Inl output_is_empty else Inr out))"

text \<open>The scan over the omitted fields, each compared with the ones before it.\<close>

primrec check_omitted :: "bytes list \<Rightarrow> bytes list \<Rightarrow> CanonicalFault option" where
  "check_omitted prior [] = None"
| "check_omitted prior (field # rest) =
     (if field = [] then Some omitted_field_is_empty
      else if field \<in> set prior then Some omitted_field_is_duplicated
      else check_omitted (prior @ [field]) rest)"

fun is_object :: "JsonValue \<Rightarrow> bool" where
  "is_object (JObject ms) = True"
| "is_object _ = False"

definition canonical_ascii_json :: "JsonValue \<Rightarrow> nat \<Rightarrow> bytes list \<Rightarrow> written" where
  "canonical_ascii_json v maximum_bytes omitted =
     (if \<not> is_object v \<and> omitted \<noteq> [] then Inl root_omissions_require_object
      else (case check_omitted [] omitted of
          Some e \<Rightarrow> Inl e
        | None \<Rightarrow> canonical_write maximum_bytes omitted v))"

section \<open>The canonical form\<close>

fun join :: "bytes list \<Rightarrow> bytes" where
  "join [] = []"
| "join [x] = x"
| "join (x # y # rest) = x @ COMMA # join (y # rest)"

definition render_string :: "bytes \<Rightarrow> bytes" where
  "render_string text = QUOTE # concat (map escaped text) @ [QUOTE]"

fun render :: "JsonValue \<Rightarrow> bytes" where
  "render JNull = [110, 117, 108, 108]"
| "render (JBool b) = (if b then [116, 114, 117, 101] else [102, 97, 108, 115, 101])"
| "render (JInteger i) = to_chars_int64 i"
| "render (JDouble bits) = []"
| "render (JString text) = render_string text"
| "render (JArray vs) = LBRACKET # join (map render vs) @ [RBRACKET]"
| "render (JObject ms) =
     LBRACE # join (map (\<lambda>m. render_string (fst m) @ COLON # render (snd m)) ms) @ [RBRACE]"

definition ascii :: "bytes \<Rightarrow> bool" where
  "ascii text \<longleftrightarrow> (\<forall>b\<in>set text. b \<le> 0x7F)"

text \<open>The values that have a canonical form.\<close>

fun canonical :: "JsonValue \<Rightarrow> bool" where
  "canonical (JDouble bits) \<longleftrightarrow> False"
| "canonical (JString text) \<longleftrightarrow> ascii text"
| "canonical (JArray vs) \<longleftrightarrow> (\<forall>v\<in>set vs. canonical v)"
| "canonical (JObject ms) \<longleftrightarrow> (\<forall>m\<in>set ms. ascii (fst m) \<and> canonical (snd m))"
| "canonical _ \<longleftrightarrow> True"

fun without_fields :: "bytes list \<Rightarrow> JsonValue \<Rightarrow> JsonValue" where
  "without_fields omitted (JObject ms) = JObject (filter (\<lambda>m. fst m \<notin> set omitted) ms)"
| "without_fields omitted v = v"


text \<open>The integers of a C++ value are 64-bit.\<close>

fun int64_values :: "JsonValue \<Rightarrow> bool" where
  "int64_values (JInteger i) \<longleftrightarrow> - (2 ^ 63) \<le> i \<and> i < 2 ^ 63"
| "int64_values (JArray vs) \<longleftrightarrow> (\<forall>v\<in>set vs. int64_values v)"
| "int64_values (JObject ms) \<longleftrightarrow> (\<forall>m\<in>set ms. int64_values (snd m))"
| "int64_values _ \<longleftrightarrow> True"

section \<open>The writer computes the canonical form\<close>

lemma and_then_Inr_iff: "and_then w f = Inr out' \<longleftrightarrow> (\<exists>out. w = Inr out \<and> f out = Inr out')"
  by (cases w) auto

text \<open>\<open>writes w out s\<close>: the step \<open>w\<close>, started on \<open>out\<close>, appends exactly \<open>s\<close>, or fails if \<open>s\<close> is absent
  or does not fit.\<close>

definition writes :: "nat \<Rightarrow> (bytes \<Rightarrow> written) \<Rightarrow> bytes option \<Rightarrow> bool" where
  "writes maximum_bytes w s \<longleftrightarrow>
     (\<forall>out out'. length out \<le> maximum_bytes \<longrightarrow>
        (w out = Inr out' \<longleftrightarrow>
           (\<exists>t. s = Some t \<and> out' = out @ t \<and> length out' \<le> maximum_bytes)))"

lemma writesD: "writes m w s \<Longrightarrow> length out \<le> m \<Longrightarrow>
    w out = Inr out' \<longleftrightarrow> (\<exists>t. s = Some t \<and> out' = out @ t \<and> length out' \<le> m)"
  unfolding writes_def by blast

definition append_option :: "bytes option \<Rightarrow> bytes option \<Rightarrow> bytes option" where
  "append_option s t = (case s of None \<Rightarrow> None | Some x \<Rightarrow> map_option ((@) x) t)"

lemma append_option_simps [simp]:
  "append_option None t = None" "append_option s None = None"
  "append_option (Some x) (Some y) = Some (x @ y)"
  by (simp_all add: append_option_def split: option.splits)

lemma writes_append: "writes m (append_bytes m s) (Some s)"
  by (auto simp: writes_def append_bytes_def)

lemma writes_nothing: "writes m Inr (Some [])"
  by (auto simp: writes_def)

lemma writes_fault: "writes m (\<lambda>out. Inl e) None"
  by (simp add: writes_def)

lemma writes_then:
  assumes "writes m w s" and "writes m f t"
  shows "writes m (\<lambda>out. and_then (w out) f) (append_option s t)"
  unfolding writes_def
proof (intro allI impI)
  fix out out' :: bytes assume out: "length out \<le> m"
  show "and_then (w out) f = Inr out' \<longleftrightarrow>
      (\<exists>u. append_option s t = Some u \<and> out' = out @ u \<and> length out' \<le> m)"
  proof (cases s)
    case None
    then have "w out \<noteq> Inr y" for y using writesD [OF assms(1) out, of y] by simp
    with None show ?thesis by (simp add: and_then_Inr_iff)
  next
    case (Some x)
    then have "w out = Inr y \<longleftrightarrow> y = out @ x \<and> length (out @ x) \<le> m" for y
      using writesD [OF assms(1) out, of y] by auto
    then have "and_then (w out) f = Inr out' \<longleftrightarrow> length (out @ x) \<le> m \<and> f (out @ x) = Inr out'"
      by (auto simp: and_then_Inr_iff)
    also have "\<dots> \<longleftrightarrow> length (out @ x) \<le> m \<and> (\<exists>u. t = Some u \<and> out' = (out @ x) @ u \<and> length out' \<le> m)"
      using writesD [OF assms(2)] by blast
    finally show ?thesis using Some by (cases t) auto
  qed
qed

lemma writes_escaped:
  "writes m (append_escaped m t) (if ascii t then Some (concat (map escaped t)) else None)"
proof (induction t)
  case Nil
  then show ?case using writes_nothing by (simp add: ascii_def writes_def)
next
  case (Cons b t)
  show ?case
  proof (cases "b > 0x7F")
    case True
    then show ?thesis by (auto simp: writes_def ascii_def)
  next
    case False
    then have e: "append_escaped m (b # t) = (\<lambda>out. and_then (append_bytes m (escaped b) out) (append_escaped m t))"
      and a: "ascii (b # t) \<longleftrightarrow> ascii t" by (auto simp: fun_eq_iff ascii_def)
    from writes_then [OF writes_append Cons.IH, of "escaped b"] show ?thesis
      unfolding e a by (simp split: if_splits)
  qed
qed

lemma writes_string:
  "writes m (append_string m t) (if ascii t then Some (render_string t) else None)"
  unfolding append_string_def
  using writes_then [OF writes_append [of m "[QUOTE]"] writes_then [OF writes_escaped [of m t] writes_append [of m "[QUOTE]"]]]
  by (cases "ascii t") (simp_all add: render_string_def)

lemma length_nat_digits: "n < 10 ^ k \<Longrightarrow> 0 < k \<Longrightarrow> length (nat_digits n) \<le> k"
proof (induction n arbitrary: k rule: nat_digits.induct)
  case (1 n)
  show ?case
  proof (cases "n < 10")
    case True
    then show ?thesis using "1.prems" by (subst nat_digits.simps) simp
  next
    case False
    then obtain j where j: "k = Suc j" "0 < j" using "1.prems" by (cases k; cases "k - 1") auto
    have "n div 10 < 10 ^ j" using "1.prems"(1) j(1) by (simp add: less_mult_imp_div_less mult.commute)
    from "1.IH" [OF False this j(2)] False j(1) show ?thesis by (subst nat_digits.simps) simp
  qed
qed

lemma int64_fits_buffer:
  assumes "- (2 ^ 63) \<le> i" and "i < 2 ^ 63"
  shows "length (to_chars_int64 i) \<le> kIntegerBuffer"
proof -
  have "nat i < 10 ^ 20" "nat (- i) < 10 ^ 20" using assms by simp_all
  then have "length (nat_digits (nat i)) \<le> 20" "length (nat_digits (nat (- i))) \<le> 20"
    using length_nat_digits by simp_all
  then show ?thesis by (simp add: to_chars_int64_def kIntegerBuffer_def)
qed


text \<open>What a value contributes, if anything.\<close>

definition canonical_form :: "JsonValue \<Rightarrow> bytes option" where
  "canonical_form v = (if canonical v then Some (render v) else None)"

definition member_form :: "bytes \<times> JsonValue \<Rightarrow> bytes option" where
  "member_form m = (if ascii (fst m) \<and> canonical (snd m)
     then Some (render_string (fst m) @ COLON # render (snd m)) else None)"

definition joined :: "bool \<Rightarrow> ('a \<Rightarrow> bytes option) \<Rightarrow> 'a list \<Rightarrow> bytes option" where
  "joined first form xs =
     (if \<forall>x\<in>set xs. form x \<noteq> None
      then Some ((if first \<or> xs = [] then [] else [COMMA]) @ join (map (the \<circ> form) xs))
      else None)"

lemma joined_Cons:
  "joined first form (x # xs) =
     append_option (Some (if first then [] else [COMMA])) (append_option (form x) (joined False form xs))"
  by (cases xs) (auto simp: joined_def append_option_def split: option.splits)

lemma joined_Nil [simp]: "joined first form [] = Some []"
  by (simp add: joined_def)

lemma canonical_form_array:
  "canonical_form (JArray vs) = append_option (Some [LBRACKET]) (append_option (joined True canonical_form vs) (Some [RBRACKET]))"
  by (auto simp: canonical_form_def joined_def cong: map_cong split: if_splits)

lemma canonical_form_object:
  "canonical_form (JObject ms) = append_option (Some [LBRACE]) (append_option (joined True member_form ms) (Some [RBRACE]))"
  by (auto simp: canonical_form_def member_form_def joined_def comp_def cong: map_cong split: if_splits)

lemma writes_comma: "writes m (\<lambda>out. if first then Inr out else append_bytes m [COMMA] out) (Some (if first then [] else [COMMA]))"
  using writes_nothing writes_append by (cases first) simp_all

definition kept_members :: "bytes list \<Rightarrow> bool \<Rightarrow> (bytes \<times> JsonValue) list \<Rightarrow> (bytes \<times> JsonValue) list" where
  "kept_members omitted root ms = filter (\<lambda>m. \<not> (root \<and> fst m \<in> set omitted)) ms"

lemma kept_members_inner [simp]: "kept_members omitted False ms = ms"
  by (simp add: kept_members_def)

lemma writes_value:
  shows "int64_values v \<Longrightarrow> writes m (append_value m omitted v root)
      (canonical_form (if root then without_fields omitted v else v))"
    and "(\<forall>v\<in>set vs. int64_values v) \<Longrightarrow> writes m (append_elements m omitted first vs)
      (joined first canonical_form vs)"
    and "(\<forall>p\<in>set ms. int64_values (snd p)) \<Longrightarrow> writes m (append_members m omitted root first ms)
      (joined first member_form (kept_members omitted root ms))"
proof (induction m omitted v root "[] :: bytes" and m omitted first vs "[] :: bytes" and m omitted root first ms "[] :: bytes"
    rule: append_value_append_elements_append_members.induct)
  case (3 m omitted i root)
  then show ?case using int64_fits_buffer [of i] writes_append [of m "to_chars_int64 i"]
    by (cases root) (simp_all add: canonical_form_def writes_def)
next
  case (5 m omitted t root)
  then show ?case using writes_string [of m t]
    by (cases root) (simp_all add: canonical_form_def writes_def)
next
  case (6 m omitted vs root)
  then have "writes m (append_elements m omitted True vs) (joined True canonical_form vs)" by simp
  from writes_then [OF writes_append writes_then [OF this writes_append]] show ?case
    by (cases root) (simp_all add: canonical_form_array writes_def)
next
  case (7 m omitted ms root)
  then have "writes m (append_members m omitted root True ms) (joined True member_form (kept_members omitted root ms))"
    by simp
  from writes_then [OF writes_append writes_then [OF this writes_append]] show ?case
    by (cases root) (simp_all add: canonical_form_object writes_def kept_members_def)
next
  case (9 m omitted first v vs)
  then have "writes m (append_value m omitted v False) (canonical_form v)"
    "writes m (append_elements m omitted False vs) (joined False canonical_form vs)" by simp_all
  from writes_then [OF writes_comma [of m first] writes_then [OF this]] show ?case
    by (simp add: joined_Cons writes_def)
next
  case (11 m omitted root first key v ms)
  show ?case
  proof (cases "root \<and> key \<in> set omitted")
    case True
    with "11" show ?thesis by (simp add: kept_members_def writes_def)
  next
    case False
    with "11" have w: "writes m (append_value m omitted v False) (canonical_form v)"
      "writes m (append_members m omitted root False ms) (joined False member_form (kept_members omitted root ms))"
      by simp_all
    have form: "append_option (if ascii key then Some (render_string key) else None)
        (append_option (Some [COLON]) (append_option (canonical_form v) r)) =
      append_option (member_form (key, v)) r" for r
      by (cases r) (simp_all add: member_form_def canonical_form_def)
    from writes_then [OF writes_comma [of m first] writes_then [OF writes_string [of m key]
      writes_then [OF writes_append [of m "[COLON]"] writes_then [OF w]]]] False show ?thesis
      by (auto simp: kept_members_def joined_Cons form writes_def)
  qed
qed (auto simp: canonical_form_def kept_members_def writes_nothing [unfolded writes_def] writes_def append_bytes_def)


lemma check_omitted_None_iff:
  "check_omitted prior omitted = None \<longleftrightarrow> [] \<notin> set omitted \<and> distinct omitted \<and> set omitted \<inter> set prior = {}"
  by (induction omitted arbitrary: prior) auto

lemma nat_digits_not_Nil [simp]: "nat_digits n \<noteq> []"
  by (subst nat_digits.simps) simp

lemma render_not_Nil: "canonical v \<Longrightarrow> render v \<noteq> []"
  by (cases v rule: render.cases) (simp_all add: to_chars_int64_def render_string_def)

lemma int64_without_fields: "int64_values v \<Longrightarrow> int64_values (without_fields omitted v)"
  by (cases v rule: int64_values.cases) auto

section \<open>Reading a canonical form\<close>

text \<open>What may follow a value inside a canonical form.\<close>

definition ends_value :: "bytes \<Rightarrow> bool" where
  "ends_value tail \<longleftrightarrow> tail = [] \<or> hd tail = COMMA \<or> hd tail = RBRACKET \<or> hd tail = RBRACE"

lemma ends_value_digit:
  assumes "ends_value tail" and "tail \<noteq> []"
  shows "\<not> is_digit (hd tail)" and "hd tail \<noteq> DOT" and "hd tail \<noteq> LETTER_e" and "hd tail \<noteq> LETTER_E"
  using assms by (auto simp: ends_value_def is_digit_def)

lemma is_digit_iff: "is_digit c \<longleftrightarrow> (\<exists>d<10. c = of_nat (48 + d))"
proof
  assume "is_digit c"
  then have "48 \<le> unat c" "unat c \<le> 57" by (simp_all add: is_digit_def word_le_nat_alt)
  then have "unat c - 48 < 10" "c = of_nat (48 + (unat c - 48))" by simp_all
  then show "\<exists>d<10. c = of_nat (48 + d)" by blast
next
  assume "\<exists>d<10. c = of_nat (48 + d)"
  then obtain d where d: "d < 10" "c = of_nat (48 + d)" by blast
  then have "unat c = 48 + d" by (simp only: unat_of_nat) simp
  with d show "is_digit c" by (simp add: is_digit_def word_le_nat_alt)
qed

lemma unat_digit: "d < 10 \<Longrightarrow> unat (of_nat (48 + d) :: u8) = 48 + d"
  by (simp only: unat_of_nat) simp

lemma nat_digits_digits: "\<forall>c\<in>set (nat_digits n). is_digit c"
proof (induction n rule: nat_digits.induct)
  case (1 n)
  have "is_digit (of_nat (48 + d))" if "d < 10" for d using that is_digit_iff by blast
  with 1 show ?case by (subst nat_digits.simps) auto
qed

lemma digits_value_append: "digits_value (xs @ ys) n = digits_value ys (digits_value xs n)"
  by (induction xs arbitrary: n) simp_all

lemma digits_value_nat_digits: "digits_value (nat_digits n) 0 = n"
proof (induction n rule: nat_digits.induct)
  case (1 n)
  show ?case
  proof (cases "n < 10")
    case True
    then show ?thesis by (subst nat_digits.simps) (simp add: unat_digit [simplified])
  next
    case False
    with "1.IH" show ?thesis
      by (subst nat_digits.simps) (simp add: digits_value_append unat_digit [of "n mod 10", simplified])
  qed
qed

text \<open>The leading digit is zero only for zero.\<close>

lemma hd_nat_digits: "0 < n \<Longrightarrow> 49 \<le> hd (nat_digits n) \<and> hd (nat_digits n) \<le> NINE"
proof (induction n rule: nat_digits.induct)
  case (1 n)
  show ?case
  proof (cases "n < 10")
    case True
    with 1 have "unat (of_nat (48 + n) :: u8) = 48 + n" by (intro unat_digit)
    with 1 True show ?thesis by (subst (1 2) nat_digits.simps) (simp add: word_le_nat_alt)
  next
    case False
    with "1.IH" have "49 \<le> hd (nat_digits (n div 10)) \<and> hd (nat_digits (n div 10)) \<le> NINE" by simp
    with False show ?thesis by (subst (1 2) nat_digits.simps) simp
  qed
qed

lemma nat_digits_0: "nat_digits 0 = [ZERO]"
  by (subst nat_digits.simps) simp

lemma takeWhile_nat_digits:
  assumes "ends_value tail"
  shows "takeWhile is_digit (nat_digits n @ tail) = nat_digits n" and "dropWhile is_digit (nat_digits n @ tail) = tail"
proof -
  have "takeWhile is_digit tail = []" "dropWhile is_digit tail = tail"
    using ends_value_digit(1) [OF assms] by (cases tail; simp)+
  then show "takeWhile is_digit (nat_digits n @ tail) = nat_digits n" "dropWhile is_digit (nat_digits n @ tail) = tail"
    using nat_digits_digits [of n] by (simp_all add: takeWhile_append dropWhile_append)
qed

lemma integer_part_nat_digits:
  assumes "ends_value tail"
  shows "integer_part (nat_digits n @ tail) = Inr tail"
proof (cases "n = 0")
  case True
  then show ?thesis using ends_value_digit(1) [OF assms] by (auto simp: nat_digits_0 integer_part_def)
next
  case False
  then have h: "49 \<le> hd (nat_digits n)" "hd (nat_digits n) \<le> NINE" using hd_nat_digits [of n] by simp_all
  then have "consume ZERO (nat_digits n @ tail) = None"
    by (cases "nat_digits n") (auto simp: word_le_nat_alt)
  with h takeWhile_nat_digits(2) [OF assms] show ?thesis
    by (simp add: integer_part_def not_less hd_append)
qed

lemma hd_nat_digits_not_minus: "hd (nat_digits n) \<noteq> MINUS"
proof -
  have "is_digit (hd (nat_digits n))" using nat_digits_digits by (metis hd_in_set nat_digits_not_Nil)
  then show ?thesis by (auto simp: is_digit_def)
qed

lemma number_token_to_chars:
  assumes "ends_value tail"
  shows "number_token (to_chars_int64 i @ tail) = Inr (True, tail)"
proof -
  have minus: "consume MINUS (nat_digits n @ tail) = None" for n
    using hd_nat_digits_not_minus [of n] by (cases "nat_digits n") auto
  have "consume DOT tail = None" using ends_value_digit(2) [OF assms] by (cases tail) auto
  then have tail: "fraction_part tail = Inr (True, tail)" "exponent_part True tail = Inr (True, tail)"
    using ends_value_digit(3,4) [OF assms] by (auto simp: fraction_part_def exponent_part_def)
  show ?thesis
    by (simp add: number_token_def Let_def to_chars_int64_def minus integer_part_nat_digits [OF assms] tail)
qed

lemma from_chars_to_chars:
  assumes "- (2 ^ 63) \<le> i" and "i < 2 ^ 63"
  shows "from_chars_int64 (to_chars_int64 i) = Some (i, length (to_chars_int64 i))"
proof -
  have digits: "takeWhile is_digit (nat_digits n) = nat_digits n" for n
    using takeWhile_nat_digits(1) [of "[]" n] by (simp add: ends_value_def)
  show ?thesis
    using assms hd_nat_digits_not_minus [of "nat i"]
    by (simp add: digits from_chars_int64_def to_chars_int64_def Let_def digits_value_nat_digits) arith
qed


lemma unat_ucast_u8_u32: "unat (ucast (c :: u8) :: u32) = unat c"
  using unat_lt_u8 [of c] by (simp add: unsigned_ucast_eq take_bit_nat_eq_self)

lemma hex_digit_kHex:
  assumes "unat n < 16"
  shows "hex_digit (kHex n) = Some (ucast n)"
proof (cases "unat n < 10")
  case True
  then have "unat (48 + n) = 48 + unat n" by (simp add: unat_word_ariths)
  moreover from this have "ucast (48 + n) - 48 = (ucast n :: u32)"
    by (simp add: word_unat_eq_iff unat_sub unat_ucast_u8_u32 word_le_nat_alt)
  ultimately show ?thesis using True by (simp add: kHex_def word_le_nat_alt word_less_nat_alt)
next
  case False
  then have u: "unat (87 + n) = 87 + unat n" using assms by (simp add: unat_word_ariths)
  then have "ucast (87 + n) - 87 = (ucast n :: u32)"
    by (simp add: word_unat_eq_iff unat_sub unat_ucast_u8_u32 word_le_nat_alt)
  with u False assms show ?thesis by (simp add: kHex_def word_le_nat_alt word_less_nat_alt)
qed

lemma parse_hex4_low:
  assumes "hex_digit h = Some x" and "hex_digit l = Some y"
  shows "parse_hex4 (ZERO # ZERO # h # l # rest) = Inr (push_bit 4 x + y, rest)"
proof -
  have "hex_digits 4 = hex_digits (Suc (Suc (Suc (Suc 0))))" by (simp add: numeral_eq_Suc)
  moreover have "hex_digit ZERO = Some 0" by simp
  ultimately show ?thesis using assms by (simp add: parse_hex4_def del: hex_digit.simps)
qed

lemma parse_codepoint_control:
  assumes "unat b < 32"
  shows "parse_codepoint (ZERO # ZERO # kHex (drop_bit 4 b) # kHex (b AND 0x0F) # rest) = Inr (ucast b, rest)"
proof -
  have hi: "unat (drop_bit 4 b) = unat b div 16" by (simp only: unat_drop_bit_eq) (simp add: drop_bit_eq_div)
  have "(0x0F :: u8) = mask 4" by (simp add: mask_eq_exp_minus_1)
  then have "b AND 0x0F = take_bit 4 b" by (simp only: take_bit_eq_mask)
  then have "unat (b AND 0x0F) = take_bit 4 (unat b)" by (simp only: unsigned_take_bit_eq)
  then have lo: "unat (b AND 0x0F) = unat b mod 16" by (simp add: take_bit_eq_mod)
  have "push_bit 4 (ucast (drop_bit 4 b)) + ucast (b AND 0x0F) = (ucast b :: u32)"
    using assms by (simp add: word_unat_eq_iff push_bit_eq_mult unat_word_ariths unat_ucast_u8_u32 hi lo)
  moreover have "hex_digit (kHex (drop_bit 4 b)) = Some (ucast (drop_bit 4 b))"
    "hex_digit (kHex (b AND 0x0F)) = Some (ucast (b AND 0x0F))"
    using assms by (intro hex_digit_kHex; simp add: hi lo)+
  ultimately have "parse_hex4 (ZERO # ZERO # kHex (drop_bit 4 b) # kHex (b AND 0x0F) # rest) = Inr (ucast b, rest)"
    using parse_hex4_low by metis
  then show ?thesis using assms
    by (simp add: parse_codepoint_def word_le_nat_alt unat_ucast_u8_u32)
qed

lemma string_piece_escaped:
  assumes "b \<le> 0x7F"
  obtains c r where "escaped b @ rest = c # r" "c \<noteq> QUOTE" "string_piece c r = Inr ([b], rest)"
proof (cases "b < 0x20 \<and> b \<notin> {8, 9, 10, 12, 13}")
  case True
  then have b: "unat b < 32" by (simp add: word_less_nat_alt)
  then have u: "ucast b \<le> (0x7F :: u32)" by (simp add: word_le_nat_alt unat_ucast_u8_u32)
  have "ucast (ucast b :: u32) = (of_nat (unat (ucast b :: u32)) :: u8)" by simp
  then have same: "ucast (ucast b :: u32) = b" by (simp only: unat_ucast_u8_u32) simp
  have "string_piece BACKSLASH (tl (escaped b) @ rest) = Inr ([b], rest)"
    using True u same parse_codepoint_control [OF b, of rest]
    by (auto simp: escaped_def string_piece_def parse_escape_def append_utf8_def)
  with True show thesis by (intro that [of BACKSLASH "tl (escaped b) @ rest"]) (auto simp: escaped_def)
next
  case False
  then consider "b \<in> {QUOTE, BACKSLASH, 8, 9, 10, 12, 13}" | "escaped b = [b]" "\<not> b < 0x20" "b \<noteq> QUOTE" "b \<noteq> BACKSLASH"
    by (cases "b \<in> {QUOTE, BACKSLASH, 8, 9, 10, 12, 13}") (auto simp: escaped_def)
  then show thesis
  proof cases
    case 1
    then show thesis
      by (intro that [of BACKSLASH "tl (escaped b) @ rest"])
        (auto simp: escaped_def string_piece_def parse_escape_def)
  next
    case 2
    moreover have "b < 0x80" using assms by (simp add: word_le_nat_alt word_less_nat_alt)
    ultimately show thesis by (intro that [of b rest]) (simp_all add: string_piece_def)
  qed
qed

lemma string_loop_render:
  "ascii t \<Longrightarrow> length (out @ t) \<le> jl_max_string_bytes limits \<Longrightarrow>
     string_loop limits (concat (map escaped t) @ QUOTE # rest) out = Inr (out @ t, rest)"
proof (induction t arbitrary: out)
  case Nil
  then show ?case by simp
next
  case (Cons b t)
  obtain c r where c: "escaped b @ concat (map escaped t) @ QUOTE # rest = c # r" "c \<noteq> QUOTE"
    "string_piece c r = Inr ([b], concat (map escaped t) @ QUOTE # rest)"
    using Cons.prems(1) by (auto simp: ascii_def intro: string_piece_escaped)
  then show ?case using Cons.IH [of "out @ [b]"] Cons.prems by (simp add: ascii_def)
qed

lemma parse_string_render:
  assumes "ascii t" and "length t \<le> jl_max_string_bytes limits"
  shows "parse_string limits (render_string t @ rest) = Inr (t, rest)"
  using string_loop_render [of t "[]" limits rest] assms by (simp add: parse_string_def render_string_def)


text \<open>A canonical form starts with a byte that is not a space.\<close>

lemma skip_space_solid: "\<not> is_space c \<Longrightarrow> skip_space (c # rest) = c # rest"
  by (simp add: skip_space_def)

lemma digit_not_space: "is_digit c \<Longrightarrow> \<not> is_space c"
  by (auto simp: is_digit_def is_space_def)

lemma render_head:
  assumes "canonical v"
  obtains c r where "render v = c # r" "\<not> is_space c"
proof -
  have digits: "\<exists>c r. nat_digits n = c # r \<and> \<not> is_space c" for n
    using nat_digits_digits [of n] digit_not_space by (cases "nat_digits n") auto
  have "\<exists>c r. render v = c # r \<and> \<not> is_space c"
    using assms digits by (cases v rule: render.cases)
      (auto simp: is_space_def to_chars_int64_def render_string_def)
  then show thesis using that by blast
qed

lemma join_head:
  assumes "\<forall>x\<in>set xs. \<exists>c r. x = c # r \<and> \<not> is_space c" and "xs \<noteq> []"
  obtains c r where "join xs = c # r" "\<not> is_space c"
  using assms by (cases xs rule: join.cases) (fastforce intro: that)+

lemma skip_space_render: "canonical v \<Longrightarrow> skip_space (render v @ rest) = render v @ rest"
  using skip_space_solid by (metis append_Cons render_head)

lemma skip_space_join:
  assumes "\<forall>x\<in>set xs. \<exists>c r. x = c # r \<and> \<not> is_space c" and "xs \<noteq> []"
  shows "skip_space (join xs @ rest) = join xs @ rest"
  using join_head [OF assms] skip_space_solid by (metis append_Cons)

text \<open>A member parser reads a value back from its canonical form, on texts shorter than \<open>bound\<close>.\<close>

definition reads :: "JsonLimits \<Rightarrow> nat \<Rightarrow> (nat \<Rightarrow> bytes \<Rightarrow> JsonValue parse) \<Rightarrow> JsonValue \<Rightarrow> bool" where
  "reads limits bound member v \<longleftrightarrow>
     (\<forall>nodes tail. ends_value tail \<longrightarrow> nodes + json_nodes v \<le> jl_max_nodes limits \<longrightarrow>
        length (render v @ tail) < bound \<longrightarrow>
        member nodes (render v @ tail) = Some (Inr (v, nodes + json_nodes v, tail)))"

lemma readsD:
  "reads limits bound member v \<Longrightarrow> nodes + json_nodes v \<le> jl_max_nodes limits \<Longrightarrow> ends_value tail \<Longrightarrow>
     length (render v @ tail) < bound \<Longrightarrow>
     member nodes (render v @ tail) = Some (Inr (v, nodes + json_nodes v, tail))"
  by (simp add: reads_def)

lemma ends_value_simps [simp]:
  "ends_value []" "ends_value (COMMA # r)" "ends_value (RBRACKET # r)" "ends_value (RBRACE # r)"
  by (simp_all add: ends_value_def)

lemma skip_space_punctuation [simp]:
  "skip_space (COMMA # r) = COMMA # r" "skip_space (RBRACKET # r) = RBRACKET # r"
  "skip_space (RBRACE # r) = RBRACE # r" "skip_space (COLON # r) = COLON # r"
  by (simp_all add: skip_space_def is_space_def)

lemma length_join: "\<forall>x\<in>set xs. x \<noteq> [] \<Longrightarrow> length xs \<le> length (join xs)"
  by (induction xs rule: join.induct) (auto simp: Suc_le_eq)

lemma skip_space_elements:
  assumes "\<forall>v\<in>set vs. canonical v" and "vs \<noteq> []"
  shows "skip_space (join (map render vs) @ rest) = join (map render vs) @ rest"
  using assms render_head by (intro skip_space_join) (auto, metis+)

lemma array_loop_reads:
  "vs \<noteq> [] \<Longrightarrow> \<forall>v\<in>set vs. reads limits bound member v \<and> canonical v \<Longrightarrow> length vs \<le> fuel \<Longrightarrow>
     nodes + (\<Sum>v\<leftarrow>vs. json_nodes v) \<le> jl_max_nodes limits \<Longrightarrow>
     length (join (map render vs) @ RBRACKET # tail) < bound \<Longrightarrow>
     array_loop fuel member nodes (join (map render vs) @ RBRACKET # tail) us =
       Some (Inr (JArray (us @ vs), nodes + (\<Sum>v\<leftarrow>vs. json_nodes v), tail))"
proof (induction vs arbitrary: fuel nodes us)
  case Nil
  then show ?case by simp
next
  case (Cons v vs)
  then obtain k where fuel: "fuel = Suc k" by (cases fuel) auto
  have v: "reads limits bound member v" "nodes + json_nodes v \<le> jl_max_nodes limits"
    using Cons.prems by simp_all
  show ?case
  proof (cases "vs = []")
    case True
    then show ?thesis using readsD [OF v, of "RBRACKET # tail"] Cons.prems(5) by (simp add: fuel)
  next
    case False
    let ?r = "join (map render vs) @ RBRACKET # tail"
    have join: "join (map render (v # vs)) = render v @ COMMA # join (map render vs)"
      using False by (cases vs) simp_all
    have "skip_space ?r = ?r"
      using Cons.prems(2) False by (intro skip_space_elements) simp_all
    moreover have "array_loop k member (nodes + json_nodes v) ?r (us @ [v]) =
        Some (Inr (JArray ((us @ [v]) @ vs), nodes + json_nodes v + (\<Sum>v\<leftarrow>vs. json_nodes v), tail))"
      using Cons.prems fuel False unfolding join by (intro Cons.IH) simp_all
    moreover have "member nodes (render v @ COMMA # ?r) = Some (Inr (v, nodes + json_nodes v, COMMA # ?r))"
      using Cons.prems(5) unfolding join by (intro readsD [OF v]) simp_all
    ultimately show ?thesis
      unfolding join by (simp add: fuel add.assoc)
  qed
qed

text \<open>The same for the members of an object.\<close>

definition render_member :: "bytes \<times> JsonValue \<Rightarrow> bytes" where
  "render_member m = render_string (fst m) @ COLON # render (snd m)"

lemma render_object: "render (JObject ms) = LBRACE # join (map render_member ms) @ [RBRACE]"
  by (simp add: render_member_def [abs_def])

lemma render_member_head: "\<exists>c r. render_member m = c # r \<and> \<not> is_space c"
  by (simp add: render_member_def render_string_def is_space_def)

lemma object_key_render:
  assumes "ascii (fst m)" and "length (fst m) \<le> jl_max_string_bytes limits" and "canonical (snd m)"
  shows "object_key limits (render_member m @ rest) = Inr (fst m, render (snd m) @ rest)"
proof -
  have "parse_string limits (render_member m @ rest) = Inr (fst m, COLON # render (snd m) @ rest)"
    using parse_string_render [OF assms(1,2)] by (simp add: render_member_def)
  moreover have "render_member m @ rest \<noteq> []" "hd (render_member m @ rest) = QUOTE"
    by (simp_all add: render_member_def render_string_def)
  ultimately show ?thesis
    by (simp add: object_key_def skip_space_render [OF assms(3)])
qed

lemma object_loop_reads:
  "ms \<noteq> [] \<Longrightarrow>
     \<forall>m\<in>set ms. reads limits bound member (snd m) \<and> canonical (snd m) \<and> ascii (fst m) \<and>
       length (fst m) \<le> jl_max_string_bytes limits \<Longrightarrow>
     length ms \<le> fuel \<Longrightarrow>
     nodes + (\<Sum>m\<leftarrow>ms. json_nodes (snd m)) \<le> jl_max_nodes limits \<Longrightarrow>
     length (join (map render_member ms) @ RBRACE # tail) < bound \<Longrightarrow>
     object_loop fuel limits member nodes (join (map render_member ms) @ RBRACE # tail) us =
       Some (close_object (us @ ms) (nodes + (\<Sum>m\<leftarrow>ms. json_nodes (snd m))) tail)"
proof (induction ms arbitrary: fuel nodes us)
  case Nil
  then show ?case by simp
next
  case (Cons m ms)
  then obtain k where fuel: "fuel = Suc k" by (cases fuel) auto
  have v: "reads limits bound member (snd m)" "nodes + json_nodes (snd m) \<le> jl_max_nodes limits"
    and key: "object_key limits (render_member m @ rest) = Inr (fst m, render (snd m) @ rest)" for rest
    using Cons.prems by (simp_all add: object_key_render)
  show ?case
  proof (cases "ms = []")
    case True
    then have "member nodes (render (snd m) @ RBRACE # tail) =
        Some (Inr (snd m, nodes + json_nodes (snd m), RBRACE # tail))"
      using Cons.prems(5) by (intro readsD [OF v]) (simp_all add: render_member_def)
    then show ?thesis using True by (simp add: fuel key)
  next
    case False
    let ?r = "join (map render_member ms) @ RBRACE # tail"
    have join: "join (map render_member (m # ms)) = render_member m @ COMMA # join (map render_member ms)"
      using False by (cases ms) simp_all
    have "skip_space ?r = ?r"
      using False render_member_head by (intro skip_space_join) auto
    moreover have "object_loop k limits member (nodes + json_nodes (snd m)) ?r (us @ [m]) =
        Some (close_object ((us @ [m]) @ ms) (nodes + json_nodes (snd m) + (\<Sum>m\<leftarrow>ms. json_nodes (snd m))) tail)"
      using Cons.prems fuel False unfolding join by (intro Cons.IH) simp_all
    moreover have "member nodes (render (snd m) @ COMMA # ?r) =
        Some (Inr (snd m, nodes + json_nodes (snd m), COMMA # ?r))"
      using Cons.prems(5) unfolding join by (intro readsD [OF v]) (simp_all add: render_member_def)
    ultimately show ?thesis
      unfolding join by (simp add: fuel add.assoc key)
  qed
qed


text \<open>Values without members.\<close>

fun scalar :: "JsonValue \<Rightarrow> bool" where
  "scalar (JArray vs) \<longleftrightarrow> False"
| "scalar (JObject ms) \<longleftrightarrow> False"
| "scalar _ \<longleftrightarrow> True"

lemma parse_number_to_chars:
  assumes "- (2 ^ 63) \<le> i" and "i < 2 ^ 63" and "ends_value tail"
  shows "parse_number to_double (to_chars_int64 i @ tail) = Inr (JInteger i, tail)"
  using number_token_to_chars [OF assms(3), of i] from_chars_to_chars [OF assms(1,2)]
  by (simp add: parse_number_def number_value_def)

lemma to_chars_head:
  obtains c r where "to_chars_int64 i = c # r" "c = MINUS \<or> is_digit c"
proof -
  have "\<exists>c r. nat_digits n = c # r \<and> is_digit c" for n
    using nat_digits_digits [of n] by (cases "nat_digits n") auto
  then have "\<exists>c r. to_chars_int64 i = c # r \<and> (c = MINUS \<or> is_digit c)"
    by (auto simp: to_chars_int64_def) metis
  then show thesis using that by blast
qed

lemma number_first_byte:
  assumes "c = MINUS \<or> is_digit c"
  shows "c \<noteq> LETTER_n" "c \<noteq> LETTER_t" "c \<noteq> LETTER_f" "c \<noteq> QUOTE" "c \<noteq> LBRACKET" "c \<noteq> LBRACE"
  using assms by (auto simp: is_digit_def)

lemma scalar_value_render:
  assumes "scalar v" and "canonical v" and "json_ok limits v" and "ends_value tail"
  shows "scalar_value to_double limits (render v @ tail) = Inr (v, tail)"
    and "hd (render v @ tail) \<noteq> LBRACKET" and "hd (render v @ tail) \<noteq> LBRACE"
proof -
  have "scalar_value to_double limits (render v @ tail) = Inr (v, tail) \<and>
      hd (render v @ tail) \<noteq> LBRACKET \<and> hd (render v @ tail) \<noteq> LBRACE"
  proof (cases v)
    case (JInteger i)
    obtain c r where c: "to_chars_int64 i = c # r" "c = MINUS \<or> is_digit c" by (rule to_chars_head)
    with JInteger parse_number_to_chars [of i tail] assms(3,4) number_first_byte [OF c(2)] show ?thesis
      by (simp add: scalar_value_def)
  next
    case (JString t)
    with assms parse_string_render [of t limits tail] show ?thesis
      by (simp add: scalar_value_def json_text_def) (simp add: render_string_def)
  qed (use assms in \<open>simp_all add: scalar_value_def literal_def\<close>)
  then show "scalar_value to_double limits (render v @ tail) = Inr (v, tail)"
    and "hd (render v @ tail) \<noteq> LBRACKET" and "hd (render v @ tail) \<noteq> LBRACE" by simp_all
qed

lemma parse_value_scalar:
  assumes "scalar v" "canonical v" "json_ok limits v" "depth \<le> jl_max_depth limits"
  shows "reads limits fuel (parse_value fuel to_double limits depth) v"
  unfolding reads_def
proof (intro allI impI)
  fix nodes tail
  assume tail: "ends_value tail" and n: "nodes + json_nodes v \<le> jl_max_nodes limits"
    and l: "length (render v @ tail) < fuel"
  from l obtain k where "fuel = Suc k" by (cases fuel) auto
  moreover have "json_nodes v = 1" using assms(1) by (cases v) simp_all
  ultimately show "parse_value fuel to_double limits depth nodes (render v @ tail) =
      Some (Inr (v, nodes + json_nodes v, tail))"
    using scalar_value_render [OF assms(1-3) tail] n assms(4) render_not_Nil [OF assms(2)] by simp
qed

lemma json_depth_array_le: "json_depth (JArray vs) \<le> d + 1 \<longleftrightarrow> (\<forall>v\<in>set vs. json_depth v \<le> d)"
  by auto

lemma json_depth_object_le: "json_depth (JObject ms) \<le> d + 1 \<longleftrightarrow> (\<forall>m\<in>set ms. json_depth (snd m) \<le> d)"
  by auto

lemma close_sorted_object:
  assumes "sorted_wrt (<) (map fst ms)"
  shows "close_object ms nodes rest = Inr (JObject ms, nodes, rest)"
proof -
  have "distinct (map fst ms)" "sort_key fst ms = ms"
    using assms by (simp_all add: strict_sorted_iff sort_key_id_if_sorted)
  then have "finish_object ms = Inr (JObject ms)" by (simp add: finish_object_iff)
  then show ?thesis by (simp add: close_object_def)
qed


lemma render_first_byte: "canonical v \<Longrightarrow> hd (render v) \<noteq> RBRACKET"
proof -
  assume "canonical v"
  moreover have "hd (to_chars_int64 i) \<noteq> RBRACKET" for i
  proof -
    obtain c r where "to_chars_int64 i = c # r" "c = MINUS \<or> is_digit c" by (rule to_chars_head)
    then show ?thesis by (auto simp: is_digit_def)
  qed
  ultimately show ?thesis by (cases v) (simp_all add: render_string_def)
qed

lemma parse_value_array:
  assumes vs: "\<forall>v\<in>set vs. canonical v \<and> reads limits fuel (parse_value fuel to_double limits (depth + 1)) v"
    and depth: "depth \<le> jl_max_depth limits"
  shows "reads limits (Suc fuel) (parse_value (Suc fuel) to_double limits depth) (JArray vs)"
  unfolding reads_def
proof (intro allI impI)
  fix nodes tail
  assume n: "nodes + json_nodes (JArray vs) \<le> jl_max_nodes limits"
    and l: "length (render (JArray vs) @ tail) < Suc fuel"
  let ?m = "parse_value fuel to_double limits (depth + 1)"
  have "parse_array fuel ?m (nodes + 1) (render (JArray vs) @ tail) =
      Some (Inr (JArray vs, nodes + json_nodes (JArray vs), tail))"
  proof (cases "vs = []")
    case True
    then show ?thesis by (simp add: parse_array_def)
  next
    case False
    let ?r = "join (map render vs) @ RBRACKET # tail"
    have "length vs \<le> length (join (map render vs))"
      using length_join [of "map render vs"] vs render_not_Nil by simp
    then have loop: "array_loop fuel ?m (nodes + 1) ?r [] =
        Some (Inr (JArray ([] @ vs), nodes + 1 + (\<Sum>v\<leftarrow>vs. json_nodes v), tail))"
      using vs n l False by (intro array_loop_reads) auto
    have skip: "skip_space ?r = ?r" using vs False by (intro skip_space_elements) simp_all
    have "consume RBRACKET ?r = None"
    proof -
      obtain w ws where w: "vs = w # ws" using False by (cases vs) auto
      with vs have "hd (render w) \<noteq> RBRACKET" "render w \<noteq> []"
        using render_first_byte render_not_Nil by simp_all
      then show ?thesis unfolding w by (cases ws; cases "render w") simp_all
    qed
    with loop skip show ?thesis by (simp add: parse_array_def)
  qed
  with depth n show "parse_value (Suc fuel) to_double limits depth nodes (render (JArray vs) @ tail) =
      Some (Inr (JArray vs, nodes + json_nodes (JArray vs), tail))" by simp
qed

lemma parse_value_object:
  assumes ms: "\<forall>m\<in>set ms. canonical (snd m) \<and> ascii (fst m) \<and> length (fst m) \<le> jl_max_string_bytes limits \<and>
      reads limits fuel (parse_value fuel to_double limits (depth + 1)) (snd m)"
    and sorted: "sorted_wrt (<) (map fst ms)"
    and depth: "depth \<le> jl_max_depth limits"
  shows "reads limits (Suc fuel) (parse_value (Suc fuel) to_double limits depth) (JObject ms)"
  unfolding reads_def
proof (intro allI impI)
  fix nodes tail
  assume n: "nodes + json_nodes (JObject ms) \<le> jl_max_nodes limits"
    and l: "length (render (JObject ms) @ tail) < Suc fuel"
  let ?m = "parse_value fuel to_double limits (depth + 1)"
  have "parse_object fuel limits ?m (nodes + 1) (render (JObject ms) @ tail) =
      Some (close_object ms (nodes + json_nodes (JObject ms)) tail)"
  proof (cases "ms = []")
    case True
    then show ?thesis by (simp add: parse_object_def)
  next
    case False
    let ?r = "join (map render_member ms) @ RBRACE # tail"
    have "length ms \<le> length (join (map render_member ms))"
      using length_join [of "map render_member ms"] by (simp add: render_member_def)
    then have loop: "object_loop fuel limits ?m (nodes + 1) ?r [] =
        Some (close_object ([] @ ms) (nodes + 1 + (\<Sum>m\<leftarrow>ms. json_nodes (snd m))) tail)"
      using ms n l False unfolding render_object by (intro object_loop_reads) auto
    have skip: "skip_space ?r = ?r" using False render_member_head by (intro skip_space_join) auto
    have "consume RBRACE ?r = None"
      using False by (cases ms; cases "tl ms") (simp_all add: render_member_def render_string_def)
    with loop skip show ?thesis unfolding render_object by (simp add: parse_object_def)
  qed
  with depth n show "parse_value (Suc fuel) to_double limits depth nodes (render (JObject ms) @ tail) =
      Some (Inr (JObject ms, nodes + json_nodes (JObject ms), tail))"
    by (simp add: close_sorted_object [OF sorted])
qed


lemma parse_value_render:
  "canonical v \<Longrightarrow> json_ok limits v \<Longrightarrow> depth + json_depth v \<le> jl_max_depth limits + 1 \<Longrightarrow>
     reads limits fuel (parse_value fuel to_double limits depth) v"
proof (induction v arbitrary: depth fuel)
  case (JArray vs)
  show ?case
  proof (cases fuel)
    case 0
    then show ?thesis by (simp add: reads_def)
  next
    case (Suc k)
    have "json_depth v \<le> jl_max_depth limits - depth" if "v \<in> set vs" for v
      using JArray.prems(3) that json_depth_array_le [of vs "jl_max_depth limits - depth"]
      by (simp add: le_diff_conv2)
    then show ?thesis unfolding Suc
      using JArray json_depth_pos [of "JArray vs"] by (intro parse_value_array) fastforce+
  qed
next
  case (JObject ms)
  show ?case
  proof (cases fuel)
    case 0
    then show ?thesis by (simp add: reads_def)
  next
    case (Suc k)
    have d: "json_depth (snd m) \<le> jl_max_depth limits - depth" if "m \<in> set ms" for m
      using JObject.prems(3) that json_depth_object_le [of ms "jl_max_depth limits - depth"]
      by (simp add: le_diff_conv2)
    have depth: "depth \<le> jl_max_depth limits" using JObject.prems(3) json_depth_pos [of "JObject ms"] by simp
    have "reads limits k (parse_value k to_double limits (depth + 1)) (snd m)" if m: "m \<in> set ms" for m
      using JObject.prems(1,2) m d [OF m] depth by (intro JObject.IH [of m "snd m"]) (auto simp: snds.simps)
    then show ?thesis unfolding Suc
      using JObject.prems(1,2) depth by (intro parse_value_object) (auto simp: json_text_def)
  qed
qed (rule parse_value_scalar, simp_all)+


lemma json_ok_int64: "json_ok limits v \<Longrightarrow> int64_values v"
  by (induction v) auto

lemma json_ok_without_fields: "json_ok limits v \<Longrightarrow> json_ok limits (without_fields omitted v)"
proof (cases v)
  case (JObject ms)
  then show "json_ok limits v \<Longrightarrow> json_ok limits (without_fields omitted v)"
    by (auto simp: sorted_wrt_map sorted_wrt_filter)
qed simp_all

lemma json_nodes_without_fields: "json_nodes (without_fields omitted v) \<le> json_nodes v"
proof (cases v)
  case (JObject ms)
  have "(\<Sum>m\<leftarrow>filter P ms. json_nodes (snd m)) \<le> (\<Sum>m\<leftarrow>ms. json_nodes (snd m))" for P
    by (induction ms) auto
  with JObject show ?thesis by simp
qed simp_all

lemma json_depth_without_fields: "json_depth (without_fields omitted v) \<le> json_depth v"
proof (cases v)
  case (JObject ms)
  then show ?thesis by (auto intro!: Max_mono)
qed simp_all

lemma canonical_write_iff:
  assumes "int64_values v"
  shows "canonical_write maximum_bytes omitted v = Inr out \<longleftrightarrow>
     canonical (without_fields omitted v) \<and> out = render (without_fields omitted v) \<and> length out \<le> maximum_bytes"
proof -
  let ?w = "without_fields omitted v"
  have "append_value maximum_bytes omitted v True [] = Inr out \<longleftrightarrow>
      canonical ?w \<and> out = render ?w \<and> length out \<le> maximum_bytes" for out
    using writesD [OF writes_value(1) [OF assms], of "[]" maximum_bytes omitted True out]
    by (auto simp: canonical_form_def)
  then show ?thesis
    using render_not_Nil [of ?w] by (auto simp: canonical_write_def and_then_Inr_iff split: if_splits)
qed

lemma canonical_ascii_json_iff:
  assumes "int64_values v"
  shows "canonical_ascii_json v maximum_bytes omitted = Inr out \<longleftrightarrow>
     (is_object v \<or> omitted = []) \<and> [] \<notin> set omitted \<and> distinct omitted \<and>
     canonical (without_fields omitted v) \<and> out = render (without_fields omitted v) \<and>
     length out \<le> maximum_bytes"
  using check_omitted_None_iff [of "[]" omitted] canonical_write_iff [OF assms]
  by (auto simp: canonical_ascii_json_def split: option.splits)

text \<open>The bounded parser on a canonical form.\<close>

lemma reads_parsed:
  assumes "json_ok limits v" and "canonical v"
    and "json_nodes v \<le> jl_max_nodes limits" and "json_depth v \<le> jl_max_depth limits"
  shows "parse_value (parser_fuel (render v)) to_double limits 1 0 (skip_space (render v)) =
    Some (Inr (v, json_nodes v, []))"
  using readsD [OF parse_value_render [OF assms(2,1), of 1 "parser_fuel (render v)" to_double], of 0 "[]"]
    assms(3,4) skip_space_render [OF assms(2), of "[]"]
  by (simp add: parser_fuel_def)

lemma json_Parse_render:
  assumes "json_ok limits v" and "canonical v"
    and "json_nodes v \<le> jl_max_nodes limits" and "json_depth v \<le> jl_max_depth limits"
    and "length (render v) \<le> jl_max_input_bytes limits"
  shows "json_Parse to_double (render v) limits = Some (Inr v)"
proof -
  have "json_nodes v \<noteq> 0" by (cases v rule: json_nodes.cases) simp_all
  then show ?thesis
    using reads_parsed [OF assms(1-4)] assms(3-5) json_depth_pos [of v]
    by (simp add: json_Parse_def json_parser_def skip_space_def)
qed

lemma parsed_without_fields:
  assumes "json_Parse to_double input limits = Some (Inr v)"
  shows "json_ok limits (without_fields omitted v)"
    and "json_nodes (without_fields omitted v) \<le> jl_max_nodes limits"
    and "json_depth (without_fields omitted v) \<le> jl_max_depth limits"
    and "int64_values v"
  using parsed_value_ok [OF assms] json_ok_without_fields [of limits v omitted]
    json_nodes_without_fields [of omitted v] json_depth_without_fields [of omitted v] json_ok_int64
  by auto

text \<open>Two parses under different limits are both well formed under the larger ones.\<close>

lemma json_ok_wider:
  "json_ok limits v \<Longrightarrow> jl_max_string_bytes limits \<le> jl_max_string_bytes wider \<Longrightarrow> json_ok wider v"
  by (induction limits v rule: json_ok.induct) (auto simp: json_text_def)

definition larger_limits :: "JsonLimits \<Rightarrow> JsonLimits \<Rightarrow> JsonLimits" where
  "larger_limits l l' =
     \<lparr>jl_max_input_bytes = max (jl_max_input_bytes l) (jl_max_input_bytes l'),
      jl_max_depth = max (jl_max_depth l) (jl_max_depth l'),
      jl_max_nodes = max (jl_max_nodes l) (jl_max_nodes l'),
      jl_max_string_bytes = max (jl_max_string_bytes l) (jl_max_string_bytes l')\<rparr>"

lemma parsed_within_larger:
  assumes "json_Parse to_double input limits = Some (Inr v)"
    and "wider = larger_limits limits l \<or> wider = larger_limits l limits"
  shows "json_ok wider (without_fields omitted v)"
    and "json_nodes (without_fields omitted v) \<le> jl_max_nodes wider"
    and "json_depth (without_fields omitted v) \<le> jl_max_depth wider"
  using parsed_without_fields(1-3) [OF assms(1), of omitted] assms(2)
  by (auto simp: larger_limits_def intro: json_ok_wider)

section \<open>An example\<close>

text \<open>The text \<^verbatim>\<open>{"b": [1, -20], "a":"x\n", "s":null}\<close>, its value and its canonical form without the field
  \<^verbatim>\<open>s\<close>.\<close>

definition sample_text :: bytes where
  "sample_text = [123, 34, 98, 34, 58, 32, 91, 49, 44, 32, 45, 50, 48, 93, 44, 32, 34, 97, 34, 58, 34, 120, 92, 110, 34, 44, 32, 34, 115, 34, 58, 110, 117, 108, 108, 125]"

definition sample_value :: JsonValue where
  "sample_value = JObject [([97], JString [120, 10]), ([98], JArray [JInteger 1, JInteger (- 20)]), ([115], JNull)]"

definition sample_canonical :: bytes where
  "sample_canonical = [123, 34, 97, 34, 58, 34, 120, 92, 110, 34, 44, 34, 98, 34, 58, 91, 49, 44, 45, 50, 48, 93, 125]"

lemma sample_parse: "json_Parse (\<lambda>token. None) sample_text sample_limits = Some (Inr sample_value)"
  by code_simp

lemma sample_write: "canonical_ascii_json sample_value 64 [[115]] = Inr sample_canonical"
  by code_simp

lemma sample_fits: "length sample_canonical \<le> jl_max_input_bytes sample_limits"
  by code_simp

section \<open>Properties\<close>



text \<open> C36. Round trip: parsing the canonical serialisation of a parsed value, under the same limits,
  gives the value back without the omitted fields, provided the text fits the input budget.\<close>

theorem canonical_parse_round_trip:
  assumes "json_Parse to_double input limits = Some (Inr v)"
    and "canonical_ascii_json v maximum_bytes omitted = Inr out"
    and "length out \<le> jl_max_input_bytes limits"
  shows "json_Parse to_double out limits = Some (Inr (without_fields omitted v))"
  using assms(2,3) parsed_without_fields [OF assms(1)]
  by (simp add: canonical_ascii_json_iff json_Parse_render)

theorem canonical_parse_round_trip_witness:
  "json_Parse (\<lambda>token. None) sample_canonical sample_limits =
     Some (Inr (without_fields [[115]] sample_value))"
  using sample_parse sample_write sample_fits by (rule canonical_parse_round_trip)

text \<open> C37. The canonical form identifies the value: two parsed values with the same canonical
  serialisation agree on everything but the omitted fields, whatever texts and limits they came from
  and whatever byte budgets they were written under.\<close>

theorem canonical_form_identifies:
  assumes "json_Parse to_double input limits = Some (Inr v)"
    and "json_Parse to_double' input' limits' = Some (Inr v')"
    and "canonical_ascii_json v maximum_bytes omitted = Inr out"
    and "canonical_ascii_json v' maximum_bytes' omitted' = Inr out"
  shows "without_fields omitted v = without_fields omitted' v'"
proof -
  let ?w = "without_fields omitted v" and ?w' = "without_fields omitted' v'"
  let ?l = "larger_limits limits limits'"
  have "render ?w = render ?w'" "canonical ?w" "canonical ?w'"
    using assms(3,4) parsed_without_fields(4) [OF assms(1)] parsed_without_fields(4) [OF assms(2)]
    by (simp_all add: canonical_ascii_json_iff)
  then show ?thesis
    using reads_parsed [of ?l ?w to_double] reads_parsed [of ?l ?w' to_double]
      parsed_within_larger [OF assms(1), of ?l limits' omitted]
      parsed_within_larger [OF assms(2), of ?l limits omitted']
    by simp
qed

theorem canonical_form_identifies_witness:
  "sample_text \<noteq> sample_canonical \<and>
   canonical_ascii_json sample_value 64 [[115]] = Inr sample_canonical \<and>
   canonical_ascii_json (without_fields [[115]] sample_value) 64 [] = Inr sample_canonical \<and>
   without_fields [[115]] sample_value = without_fields [] (without_fields [[115]] sample_value)"
proof -
  have "json_Parse (\<lambda>token. None) sample_canonical sample_limits =
      Some (Inr (without_fields [[115]] sample_value))"
    and "canonical_ascii_json (without_fields [[115]] sample_value) 64 [] = Inr sample_canonical"
    and "sample_text \<noteq> sample_canonical"
    by code_simp+
  with canonical_form_identifies [OF sample_parse this(1) sample_write this(2)] sample_write
  show ?thesis by blast
qed

end
