(* ===== verification/Spec2Isabelle.thy ===== *)
theory Spec2Isabelle
  imports Ingress MetadataArena Sequence CreditPool Scheduler Runtime RuntimeLedger SlotArena CanonicalJson
begin

text \<open>
  A verification development for the control plane of the pih inference runtime.

  \<^bold>\<open>Not written yet.\<close>
\<close>

end
